(* ===== verification/Wj_Prelude.thy ===== *)
theory Wj_Prelude
  imports Main "HOL-Library.AList" "HOL-Library.Multiset" "HOL-Library.Sublist"
    "HOL-Library.List_Lexorder" "HOL-Library.Char_ord"
begin

text \<open>
  Shared ground of the development: the Go types the program uses (maps as association
  lists whose order is one iteration order of the map, \<open>int64\<close> arithmetic, calls that may
  block for ever on a mutex), the generic lemmas on them, and the collections of
  rewrite rules the component proofs draw on.
\<close>

section \<open>Collections\<close>

named_theorems go_map \<open>lookup and well-formedness of Go maps after an update or a deletion\<close>
named_theorems wj_inv \<open>preservation of the component invariants\<close>

section \<open>Go maps\<close>

text \<open>
  A Go map is an association list with distinct keys. The order of the list is the order
  in which a \<open>range\<close> loop visits the map; Go leaves that order open, so no theorem may
  depend on it.
\<close>

type_synonym ('k, 'v) gomap = "('k \<times> 'v) list"

abbreviation gomap_wf :: "('k, 'v) gomap \<Rightarrow> bool" where
  "gomap_wf m \<equiv> distinct (map fst m)"

abbreviation gomap_keys :: "('k, 'v) gomap \<Rightarrow> 'k set" where
  "gomap_keys m \<equiv> fst ` set m"

definition gomap_get :: "'v \<Rightarrow> ('k, 'v) gomap \<Rightarrow> 'k \<Rightarrow> 'v" where
  \<comment> \<open>\<open>m[k]\<close>: the zero value of the element type when the key is absent\<close>
  "gomap_get z m k = (case map_of m k of None \<Rightarrow> z | Some v \<Rightarrow> v)"

lemma gomap_wf_update [go_map, simp]:
  "gomap_wf m \<Longrightarrow> gomap_wf (AList.update k v m)"
  by (simp add: AList.distinct_update)

lemma gomap_wf_delete [go_map, simp]:
  "gomap_wf m \<Longrightarrow> gomap_wf (AList.delete k m)"
  by (simp add: AList.distinct_delete)

lemma map_of_gomap_update [go_map]:
  "map_of (AList.update k v m) k' = (if k' = k then Some v else map_of m k')"
  by (simp add: AList.update_conv')

lemma map_of_gomap_delete [go_map]:
  "map_of (AList.delete k m) k' = (if k' = k then None else map_of m k')"
  by (simp add: AList.delete_conv')

lemma gomap_get_update [go_map]:
  "gomap_get z (AList.update k v m) k' = (if k' = k then v else gomap_get z m k')"
  by (simp add: gomap_get_def map_of_gomap_update)

lemma gomap_get_delete [go_map]:
  "gomap_get z (AList.delete k m) k' = (if k' = k then z else gomap_get z m k')"
  by (simp add: gomap_get_def map_of_gomap_delete)

lemma gomap_keys_update [go_map]:
  "gomap_keys (AList.update k v m) = insert k (gomap_keys m)"
  by (simp add: AList.dom_update)

lemma gomap_keys_delete [go_map]:
  "gomap_keys (AList.delete k m) = gomap_keys m - {k}"
proof -
  have "set (map fst (AList.delete k m)) = set (map fst m) - {k}"
    by (simp add: AList.delete_keys set_removeAll)
  then show ?thesis by simp
qed

lemma gomap_mem_iff:
  "gomap_wf m \<Longrightarrow> (k, v) \<in> set m \<longleftrightarrow> map_of m k = Some v"
  by (simp add: map_of_eq_Some_iff)

lemma gomap_mem_update:
  assumes "gomap_wf m"
  shows "(k', v') \<in> set (AList.update k v m) \<longleftrightarrow>
    (if k' = k then v' = v else (k', v') \<in> set m)"
proof -
  have "(k', v') \<in> set (AList.update k v m) \<longleftrightarrow> map_of (AList.update k v m) k' = Some v'"
    using assms by (intro gomap_mem_iff) simp
  also have "\<dots> \<longleftrightarrow> (if k' = k then v' = v else map_of m k' = Some v')"
    by (simp only: map_of_gomap_update split: if_split) auto
  also have "\<dots> \<longleftrightarrow> (if k' = k then v' = v else (k', v') \<in> set m)"
    using gomap_mem_iff [OF assms] by simp
  finally show ?thesis .
qed

lemma gomap_mem_delete:
  "(k', v') \<in> set (AList.delete k m) \<longleftrightarrow> k' \<noteq> k \<and> (k', v') \<in> set m"
  by (auto simp: AList.delete_eq)

section \<open>Machine integers\<close>

text \<open>
  Counters (revisions, lease ids, watcher ids, log indices, terms) are mathematical
  integers: they grow by one per command and do not reach \<open>2 ^ 63\<close>. Where a value that a
  client chooses enters the arithmetic (a TTL in seconds turned into nanoseconds) the
  wrap-around of \<open>int64\<close> is written out with \<open>wrap64\<close>.
\<close>

definition max_int64 :: int where
  "max_int64 = 9223372036854775807"

definition wrap64 :: "int \<Rightarrow> int" where
  "wrap64 x = (x + 9223372036854775808) mod 18446744073709551616 - 9223372036854775808"

lemma wrap64_range: "- 9223372036854775808 \<le> wrap64 x \<and> wrap64 x \<le> max_int64"
proof -
  have "(x + 9223372036854775808) mod 18446744073709551616 < 18446744073709551616" by simp
  moreover have "0 \<le> (x + 9223372036854775808) mod 18446744073709551616" by simp
  ultimately show ?thesis by (simp add: wrap64_def max_int64_def)
qed

lemma wrap64_id: "- 9223372036854775808 \<le> x \<Longrightarrow> x \<le> max_int64 \<Longrightarrow> wrap64 x = x"
  by (simp add: wrap64_def max_int64_def)

section \<open>Calls that may block\<close>

text \<open>
  \<open>sync.Mutex\<close> and \<open>sync.RWMutex\<close> are not reentrant: a goroutine that locks a mutex it
  already holds never returns. \<open>Blocked\<close> is that outcome.
\<close>

datatype 'a go = Blocked | Ret 'a

datatype rwmutex = Unlocked | WLocked

definition rlock :: "rwmutex \<Rightarrow> 'a \<Rightarrow> 'a go" where
  \<comment> \<open>\<open>mu.RLock(); defer mu.RUnlock()\<close> around a computation, by the goroutine that may hold \<open>mu\<close>\<close>
  "rlock mu r = (case mu of Unlocked \<Rightarrow> Ret r | WLocked \<Rightarrow> Blocked)"

lemma rlock_simps [simp]: "rlock Unlocked r = Ret r" "rlock WLocked r = Blocked"
  by (simp_all add: rlock_def)

section \<open>Strings\<close>

text \<open>The prefix test the sources spell out at every place that needs it.\<close>

definition has_prefix :: "string \<Rightarrow> string \<Rightarrow> bool" where
  "has_prefix p key \<longleftrightarrow>
     length p = 0 \<or> length key \<ge> length p \<and> take (length p) key = p"

lemma has_prefix_iff: "has_prefix p key \<longleftrightarrow> prefix p key"
proof
  assume "has_prefix p key"
  then show "prefix p key"
    unfolding has_prefix_def by (metis length_0_conv Nil_prefix take_is_prefix)
next
  assume "prefix p key"
  then show "has_prefix p key"
    unfolding has_prefix_def prefix_def by auto
qed

section \<open>Lists\<close>

lemma sorted_wrt_snoc:
  "sorted_wrt P (xs @ [x]) \<longleftrightarrow> sorted_wrt P xs \<and> (\<forall>y \<in> set xs. P y x)"
  by (simp add: sorted_wrt_append)

lemma fold_invariant:
  assumes "P s" and "\<And>x s. x \<in> set xs \<Longrightarrow> P s \<Longrightarrow> P (f x s)"
  shows "P (fold f xs s)"
  using assms by (induction xs arbitrary: s) auto

lemma find_SomeD: "List.find P xs = Some x \<Longrightarrow> x \<in> set xs \<and> P x"
  by (induction xs) (auto split: if_splits)

lemma gomap_update_fresh: "map_of m k = None \<Longrightarrow> AList.update k v m = m @ [(k, v)]"
  by (induction m) (auto split: if_splits)

lemma fold_max_le: "fold max xs (m :: int) \<le> n \<longleftrightarrow> m \<le> n \<and> (\<forall>x \<in> set xs. x \<le> n)"
  by (induction xs arbitrary: m) auto

lemma set_subseq: "subseq xs ys \<Longrightarrow> set xs \<subseteq> set ys"
  by (metis subseq_conv_nths set_nths_subset)

lemma distinct_subseq: "subseq xs ys \<Longrightarrow> distinct ys \<Longrightarrow> distinct xs"
  by (induction rule: list_emb.induct) (auto dest!: set_subseq)

lemma gomap_update_subset: "set (AList.update k v m) \<subseteq> insert (k, v) (set m)"
  by (induction m) auto

section \<open>Printing\<close>

definition digit_char :: "nat \<Rightarrow> char" where
  "digit_char d = char_of (48 + d)"

fun utoa :: "nat \<Rightarrow> string" where
  "utoa n = (if n < 10 then [digit_char n] else utoa (n div 10) @ [digit_char (n mod 10)])"

declare utoa.simps [simp del]

definition itoa :: "int \<Rightarrow> string" where
  \<comment> \<open>the verb \<open>%d\<close>\<close>
  "itoa i = (if i < 0 then CHR ''-'' # utoa (nat (- i)) else utoa (nat i))"

fun intercalate :: "string \<Rightarrow> string list \<Rightarrow> string" where
  "intercalate sep [] = []"
| "intercalate sep [s] = s"
| "intercalate sep (s # t # ss) = s @ sep @ intercalate sep (t # ss)"

definition go_map_string :: "(string, string) gomap \<Rightarrow> string" where
  \<comment> \<open>the verb \<open>%v\<close> on a \<open>map[string]string\<close>, which prints the keys in order\<close>
  "go_map_string m =
     ''map['' @ intercalate '' '' (map (\<lambda>k. k @ '':'' @ gomap_get [] m k) (sort (map fst m))) @ '']''"

lemma gomap_update_idem [simp]: "AList.update k v (AList.update k v m) = AList.update k v m"
  by (induction m) auto

end
