(* ===== verification/Kv_Store.thy ===== *)
theory Kv_Store
  imports Wj_Prelude
begin

text \<open>
  The MVCC store, \<open>kv/store.go\<close> and \<open>kv/command.go\<close>: commands, versions, the store's
  state, every operation on it, the well-formedness invariant, the immutability of
  historical reads, the abstract map that the store implements and the round trip of its
  snapshot.
\<close>

section \<open>Commands (\<open>kv/command.go\<close>)\<close>

text \<open>\<open>CommandType\<close> is an integer: \<open>CmdOther\<close> stands for the values that have no name.\<close>

datatype command_type =
    CmdPut | CmdGet | CmdDelete | CmdLeaseGrant | CmdLeaseRevoke | CmdLeaseAttach
  | CmdLeaseKeepAlive | CmdCAS | CmdDeletePrefix | CmdGetPrefix | CmdOther int

record command =
  c_Type :: command_type
  c_Key :: string
  c_Value :: string
  c_LeaseID :: int
  c_TTL :: int
  c_ExpireAt :: int
  c_Revision :: int
  c_Tombstone :: bool
  c_ExpectedRev :: int
  c_Prefix :: string

definition zero_command :: command where
  \<comment> \<open>\<open>kv.Command{}\<close>, from which the composite literals of the sources are built\<close>
  "zero_command = \<lparr>c_Type = CmdPut, c_Key = [], c_Value = [], c_LeaseID = 0, c_TTL = 0,
     c_ExpireAt = 0, c_Revision = 0, c_Tombstone = False, c_ExpectedRev = 0, c_Prefix = []\<rparr>"

section \<open>State\<close>

record version_entry =
  v_Revision :: int
  v_Value :: string
  v_Tombstone :: bool

record watch_event =
  e_Key :: string
  e_Value :: string
  e_Type :: string
  e_Revision :: int

record kvstore =
  kv_data :: "(string, version_entry list) gomap"
  kv_key2Lease :: "(string, int) gomap"
  kv_currentRev :: int
  kv_watchEvents :: "watch_event list"

record store_snapshot =
  \<comment> \<open>a map that is absent from the JSON document, or \<open>null\<close> there, is \<open>None\<close>\<close>
  ss_Data :: "(string, version_entry list) gomap option"
  ss_Key2Lease :: "(string, int) gomap option"
  ss_CurrentRev :: int

datatype kv_error =
    UnknownCommandType
  | SnapshotDataMissing
  | SnapshotKey2LeaseMissing
  | SnapshotInvalidRevision int string

section \<open>Operations\<close>

definition NewKVStore :: kvstore where
  "NewKVStore = \<lparr>kv_data = [], kv_key2Lease = [], kv_currentRev = 0, kv_watchEvents = []\<rparr>"

definition SetKeyLease :: "kvstore \<Rightarrow> string \<Rightarrow> int \<Rightarrow> kvstore" where
  "SetKeyLease kv key leaseId = kv\<lparr>kv_key2Lease := AList.update key leaseId (kv_key2Lease kv)\<rparr>"

definition GetKeyLease :: "kvstore \<Rightarrow> string \<Rightarrow> int" where
  "GetKeyLease kv key = gomap_get 0 (kv_key2Lease kv) key"

definition GetCurrentRevision :: "kvstore \<Rightarrow> int" where
  "GetCurrentRevision kv = kv_currentRev kv"

definition IncrementRevision :: "kvstore \<Rightarrow> kvstore \<times> int" where
  "IncrementRevision kv =
     (kv\<lparr>kv_currentRev := kv_currentRev kv + 1\<rparr>, kv_currentRev kv + 1)"

definition entries_of :: "kvstore \<Rightarrow> string \<Rightarrow> version_entry list" where
  \<comment> \<open>\<open>kv.data[key]\<close>\<close>
  "entries_of kv key = gomap_get [] (kv_data kv) key"

definition append_version :: "kvstore \<Rightarrow> string \<Rightarrow> version_entry \<Rightarrow> kvstore" where
  \<comment> \<open>\<open>kv.data[key] = append(kv.data[key], entry)\<close>\<close>
  "append_version kv key entry =
     kv\<lparr>kv_data := AList.update key (entries_of kv key @ [entry]) (kv_data kv)\<rparr>"

definition assign_rev :: "kvstore \<Rightarrow> int \<Rightarrow> int \<times> kvstore" where
  \<comment> \<open>the revision a write gets: its own, or the next one of the store when it has none\<close>
  "assign_rev kv rv =
     (if rv = 0 then (kv_currentRev kv + 1, kv\<lparr>kv_currentRev := kv_currentRev kv + 1\<rparr>)
      else if rv > kv_currentRev kv then (rv, kv\<lparr>kv_currentRev := rv\<rparr>)
      else (rv, kv))"

fun scan_back :: "version_entry list \<Rightarrow> int \<Rightarrow> string \<times> int" where
  \<comment> \<open>the loop of \<open>GetAtRevision\<close>, over the versions from the last to the first\<close>
  "scan_back [] rv = ([], 0)"
| "scan_back (e # es) rv =
     (if v_Revision e \<le> rv
      then (if v_Tombstone e then ([], v_Revision e) else (v_Value e, v_Revision e))
      else scan_back es rv)"

definition GetAtRevision :: "rwmutex \<Rightarrow> kvstore \<Rightarrow> string \<Rightarrow> int \<Rightarrow> (string \<times> int) go" where
  "GetAtRevision mu kv key rv =
     rlock mu
       (case map_of (kv_data kv) key of
          None \<Rightarrow> ([], 0)
        | Some entries \<Rightarrow>
            if length entries = 0 then ([], 0)
            else scan_back (List.rev entries) (if rv = 0 then max_int64 else rv))"

definition latest_version :: "version_entry list \<Rightarrow> version_entry option" where
  "latest_version entries = (if length entries > 0 then Some (last entries) else None)"

definition live_entries :: "version_entry list \<Rightarrow> bool" where
  \<comment> \<open>the test of \<open>Keys\<close>, \<open>Size\<close>, \<open>GetPrefix\<close> and \<open>KeysWithPrefix\<close>\<close>
  "live_entries entries =
     (case latest_version entries of None \<Rightarrow> False | Some e \<Rightarrow> \<not> v_Tombstone e)"

definition Apply :: "kvstore \<Rightarrow> command \<Rightarrow> (kvstore \<times> (kv_error + string)) go" where
  "Apply kv cmd =
     (case c_Type cmd of
        CmdPut \<Rightarrow>
          (let (rv, kv1) = assign_rev kv (c_Revision cmd);
               kv2 = append_version kv1 (c_Key cmd)
                       \<lparr>v_Revision = rv, v_Value = c_Value cmd, v_Tombstone = False\<rparr>
           in Ret (kv2\<lparr>kv_key2Lease :=
                 (if c_LeaseID cmd > 0
                  then AList.update (c_Key cmd) (c_LeaseID cmd) (kv_key2Lease kv2)
                  else AList.delete (c_Key cmd) (kv_key2Lease kv2))\<rparr>, Inr []))
      | CmdGet \<Rightarrow>
          \<comment> \<open>\<open>Apply\<close> holds the write lock here\<close>
          (case GetAtRevision WLocked kv (c_Key cmd) (c_Revision cmd) of
             Blocked \<Rightarrow> Blocked
           | Ret (val, _) \<Rightarrow> Ret (kv, Inr val))
      | CmdDelete \<Rightarrow>
          (let (rv, kv1) = assign_rev kv (c_Revision cmd);
               kv2 = append_version kv1 (c_Key cmd)
                       \<lparr>v_Revision = rv, v_Value = [], v_Tombstone = True\<rparr>
           in Ret (kv2\<lparr>kv_key2Lease := AList.delete (c_Key cmd) (kv_key2Lease kv2)\<rparr>, Inr []))
      | CmdCAS \<Rightarrow>
          (case latest_version (entries_of kv (c_Key cmd)) of
             None \<Rightarrow> Ret (kv, Inr ''CAS_FAILED'')
           | Some latest \<Rightarrow>
               if \<not> v_Tombstone latest \<and> v_Revision latest = c_ExpectedRev cmd
               then (let (rv, kv1) = assign_rev kv (c_Revision cmd);
                         kv2 = append_version kv1 (c_Key cmd)
                                 \<lparr>v_Revision = rv, v_Value = c_Value cmd, v_Tombstone = False\<rparr>
                     in Ret (kv2, Inr ''OK''))
               else Ret (kv, Inr ''CAS_FAILED''))
      | CmdLeaseAttach \<Rightarrow>
          (if c_LeaseID cmd > 0
           then (let kv0 = kv\<lparr>kv_key2Lease :=
                             AList.update (c_Key cmd) (c_LeaseID cmd) (kv_key2Lease kv)\<rparr>;
                     (rv, kv1) = assign_rev kv0 (c_Revision cmd);
                     kv2 = append_version kv1 (c_Key cmd)
                             \<lparr>v_Revision = rv, v_Value = c_Value cmd, v_Tombstone = False\<rparr>
                 in Ret (kv2, Inr []))
           else Ret (kv, Inr []))
      | _ \<Rightarrow> Ret (kv, Inl UnknownCommandType))"

definition Get :: "kvstore \<Rightarrow> string \<Rightarrow> string go" where
  "Get kv key =
     (case GetAtRevision Unlocked kv key 0 of Blocked \<Rightarrow> Blocked | Ret (val, _) \<Rightarrow> Ret val)"

definition Put :: "kvstore \<Rightarrow> string \<Rightarrow> string \<Rightarrow> kvstore" where
  "Put kv key value =
     (let kv1 = kv\<lparr>kv_currentRev := kv_currentRev kv + 1\<rparr>
      in append_version kv1 key
           \<lparr>v_Revision = kv_currentRev kv1, v_Value = value, v_Tombstone = False\<rparr>)"

definition Delete :: "kvstore \<Rightarrow> string \<Rightarrow> kvstore" where
  "Delete kv key =
     (let kv1 = kv\<lparr>kv_currentRev := kv_currentRev kv + 1\<rparr>
      in append_version kv1 key
           \<lparr>v_Revision = kv_currentRev kv1, v_Value = [], v_Tombstone = True\<rparr>)"

definition Keys :: "kvstore \<Rightarrow> string list" where
  "Keys kv = map fst (filter (\<lambda>(k, entries). live_entries entries) (kv_data kv))"

definition Size :: "kvstore \<Rightarrow> nat" where
  "Size kv =
     fold (\<lambda>(k, entries) count. if live_entries entries then count + 1 else count) (kv_data kv) 0"

definition Exists :: "kvstore \<Rightarrow> string \<Rightarrow> bool go" where
  "Exists kv key = (case Get kv key of Blocked \<Rightarrow> Blocked | Ret val \<Rightarrow> Ret (val \<noteq> []))"

definition Clear :: "kvstore \<Rightarrow> kvstore" where
  "Clear kv = kv\<lparr>kv_data := [], kv_currentRev := 0\<rparr>"

definition GetHistory :: "kvstore \<Rightarrow> string \<Rightarrow> version_entry list option" where
  "GetHistory kv key = map_of (kv_data kv) key"

definition GetPrefix_step ::
  "string \<Rightarrow> string \<times> version_entry list \<Rightarrow> (string, string) gomap \<Rightarrow> (string, string) gomap" where
  "GetPrefix_step pre = (\<lambda>(key, entries) result.
     if has_prefix pre key
     then (case latest_version entries of
             None \<Rightarrow> result
           | Some latest \<Rightarrow>
               if \<not> v_Tombstone latest then AList.update key (v_Value latest) result else result)
     else result)"

definition GetPrefix :: "kvstore \<Rightarrow> string \<Rightarrow> (string, string) gomap" where
  "GetPrefix kv pre = fold (GetPrefix_step pre) (kv_data kv) []"

definition tombstone_key :: "string \<Rightarrow> kvstore \<Rightarrow> kvstore" where
  \<comment> \<open>the body of the second loop of \<open>DeletePrefix\<close>\<close>
  "tombstone_key key kv =
     (let kv1 = kv\<lparr>kv_currentRev := kv_currentRev kv + 1\<rparr>;
          kv2 = append_version kv1 key
                  \<lparr>v_Revision = kv_currentRev kv1, v_Value = [], v_Tombstone = True\<rparr>
      in kv2\<lparr>kv_key2Lease := AList.delete key (kv_key2Lease kv2)\<rparr>)"

definition DeletePrefix :: "kvstore \<Rightarrow> string \<Rightarrow> kvstore \<times> string list" where
  "DeletePrefix kv pre =
     (let deletedKeys = sort (filter (has_prefix pre) (map fst (kv_data kv)))
      in (fold tombstone_key deletedKeys kv, deletedKeys))"

definition KeysWithPrefix :: "kvstore \<Rightarrow> string \<Rightarrow> string list" where
  "KeysWithPrefix kv pre =
     map fst (filter (\<lambda>(key, entries). has_prefix pre key \<and> live_entries entries) (kv_data kv))"

definition Snapshot :: "kvstore \<Rightarrow> store_snapshot" where
  "Snapshot kv = \<lparr>ss_Data = Some (kv_data kv), ss_Key2Lease = Some (kv_key2Lease kv),
     ss_CurrentRev = kv_currentRev kv\<rparr>"

fun bad_revision :: "int \<Rightarrow> string \<Rightarrow> version_entry list \<Rightarrow> kv_error option" where
  "bad_revision cur key [] = None"
| "bad_revision cur key (e # es) =
     (if v_Revision e \<le> 0 \<or> v_Revision e > cur
      then Some (SnapshotInvalidRevision (v_Revision e) key) else bad_revision cur key es)"

fun check_data :: "int \<Rightarrow> (string, version_entry list) gomap \<Rightarrow> kv_error option" where
  "check_data cur [] = None"
| "check_data cur ((key, entries) # rest) =
     (case bad_revision cur key entries of Some err \<Rightarrow> Some err | None \<Rightarrow> check_data cur rest)"

definition Restore :: "kvstore \<Rightarrow> store_snapshot \<Rightarrow> kv_error + kvstore" where
  "Restore kv s =
     (case ss_Data s of
        None \<Rightarrow> Inl SnapshotDataMissing
      | Some data \<Rightarrow>
         (case ss_Key2Lease s of
            None \<Rightarrow> Inl SnapshotKey2LeaseMissing
          | Some key2Lease \<Rightarrow>
             (case check_data (ss_CurrentRev s) data of
                Some err \<Rightarrow> Inl err
              | None \<Rightarrow> Inr (kv\<lparr>kv_data := data, kv_key2Lease := key2Lease,
                               kv_currentRev := ss_CurrentRev s\<rparr>))))"

section \<open>Invariant and abstract view\<close>

definition entries_ok :: "int \<Rightarrow> version_entry list \<Rightarrow> bool" where
  "entries_ok cur es \<longleftrightarrow>
     es \<noteq> [] \<and> sorted_wrt (<) (map v_Revision es) \<and> (\<forall>e \<in> set es. 0 < v_Revision e \<and> v_Revision e \<le> cur)"

definition kv_ok :: "kvstore \<Rightarrow> bool" where
  \<comment> \<open>the versions of a key have strictly increasing revisions, none beyond \<open>currentRev\<close>\<close>
  "kv_ok kv \<longleftrightarrow>
     gomap_wf (kv_data kv) \<and> gomap_wf (kv_key2Lease kv) \<and> 0 \<le> kv_currentRev kv \<and>
     (\<forall>(k, es) \<in> set (kv_data kv). entries_ok (kv_currentRev kv) es)"

definition version_value :: "version_entry \<Rightarrow> string option" where
  "version_value e = (if v_Tombstone e then None else Some (v_Value e))"

definition read_version :: "int \<Rightarrow> version_entry list \<Rightarrow> string option \<times> int" where
  \<comment> \<open>reference definition of a read: the last version whose revision is at most \<open>r\<close>\<close>
  "read_version r entries =
     (case filter (\<lambda>e. v_Revision e \<le> r) entries of
        [] \<Rightarrow> (None, 0)
      | e # es \<Rightarrow> (version_value (last (e # es)), v_Revision (last (e # es))))"

definition version_at :: "kvstore \<Rightarrow> string \<Rightarrow> int \<Rightarrow> string option \<times> int" where
  "version_at kv key r = read_version r (entries_of kv key)"

definition kv_view :: "kvstore \<Rightarrow> string \<Rightarrow> string option" where
  \<comment> \<open>the map the store implements: the latest version of a key, unless it is a tombstone\<close>
  "kv_view kv key =
     (case latest_version (entries_of kv key) of None \<Rightarrow> None | Some e \<Rightarrow> version_value e)"

definition write_version :: "int \<Rightarrow> string \<Rightarrow> string option \<Rightarrow> kvstore \<Rightarrow> kvstore" where
  \<comment> \<open>the write every operation performs: \<open>None\<close> writes a tombstone\<close>
  "write_version n key vo kv =
     append_version (kv\<lparr>kv_currentRev := n\<rparr>) key
       \<lparr>v_Revision = n, v_Value = (case vo of None \<Rightarrow> [] | Some v \<Rightarrow> v), v_Tombstone = (vo = None)\<rparr>"

definition drop_version :: "int \<Rightarrow> string \<Rightarrow> string option \<Rightarrow> kvstore \<Rightarrow> kvstore" where
  \<comment> \<open>the same write together with the removal of the key from the lease table\<close>
  "drop_version n key vo kv =
     (write_version n key vo kv)\<lparr>kv_key2Lease := AList.delete key (kv_key2Lease kv)\<rparr>"

section \<open>The interface of a versioned store\<close>

text \<open>
  What a client of the store relies on: a write at a fresh revision leaves every older
  read alone and decides every newer one. The lemmas lift the two laws to sequences of
  writes, which is what \<open>DeletePrefix\<close> and the revocation of a lease perform.
\<close>

locale versioned_store =
  fixes inv :: "'s \<Rightarrow> bool"
    and cur :: "'s \<Rightarrow> int"
    and read_at :: "'s \<Rightarrow> 'k \<Rightarrow> int \<Rightarrow> 'v option \<times> int"
    and wr :: "int \<Rightarrow> 'k \<Rightarrow> 'v option \<Rightarrow> 's \<Rightarrow> 's"
  assumes inv_wr: "inv s \<Longrightarrow> cur s < n \<Longrightarrow> inv (wr n k v s)"
    and cur_wr: "cur (wr n k v s) = n"
    and read_old: "inv s \<Longrightarrow> cur s < n \<Longrightarrow> r < n \<Longrightarrow> read_at (wr n k v s) k' r = read_at s k' r"
    and read_new: "inv s \<Longrightarrow> cur s < n \<Longrightarrow> n \<le> r \<Longrightarrow>
      read_at (wr n k v s) k' r = (if k' = k then (v, n) else read_at s k' r)"
begin

abbreviation run :: "(int \<times> 'k \<times> 'v option) list \<Rightarrow> 's \<Rightarrow> 's" where
  "run ws s \<equiv> fold (\<lambda>(n, k, v). wr n k v) ws s"

abbreviation ascending :: "int \<Rightarrow> (int \<times> 'k \<times> 'v option) list \<Rightarrow> bool" where
  "ascending c ws \<equiv> sorted_wrt (<) (c # map fst ws)"

lemma run_inv: "inv s \<Longrightarrow> ascending (cur s) ws \<Longrightarrow> inv (run ws s)"
  by (induction ws arbitrary: s) (auto simp: cur_wr inv_wr)

lemma run_cur: "cur (run ws s) = (if ws = [] then cur s else fst (last ws))"
  by (induction ws arbitrary: s) (auto simp: cur_wr)

lemma run_read_old:
  "inv s \<Longrightarrow> ascending (cur s) ws \<Longrightarrow> r \<le> cur s \<Longrightarrow> read_at (run ws s) k r = read_at s k r"
proof (induction ws arbitrary: s)
  case Nil
  then show ?case by simp
next
  case (Cons w ws)
  obtain n k' v where w: "w = (n, k', v)" by (cases w)
  with Cons.prems have n: "cur s < n" and asc: "ascending (cur (wr n k' v s)) ws"
    by (auto simp: cur_wr)
  have "read_at (run ws (wr n k' v s)) k r = read_at (wr n k' v s) k r"
    using Cons.prems n asc by (intro Cons.IH) (auto simp: inv_wr cur_wr)
  then show ?case using Cons.prems n w by (simp add: read_old)
qed

lemma run_read_new:
  "inv s \<Longrightarrow> ascending (cur s) ws \<Longrightarrow> cur (run ws s) \<le> r \<Longrightarrow>
   read_at (run ws s) k r =
     (case map_of (map (\<lambda>(n, k, v). (k, v, n)) (rev ws)) k of None \<Rightarrow> read_at s k r | Some vn \<Rightarrow> vn)"
proof (induction ws arbitrary: s)
  case Nil
  then show ?case by simp
next
  case (Cons w ws)
  obtain n k' v where w: "w = (n, k', v)" by (cases w)
  with Cons.prems have n: "cur s < n" and asc: "ascending n ws" and inv': "inv (wr n k' v s)"
    by (auto simp: inv_wr)
  have le: "cur (run ws (wr n k' v s)) \<le> r" using Cons.prems w by simp
  have "n \<le> r"
  proof (cases "ws = []")
    case True
    with le show ?thesis by (simp add: cur_wr)
  next
    case False
    then have "n < fst (last ws)" using asc by simp
    with le False show ?thesis by (simp add: run_cur)
  qed
  then have "read_at (wr n k' v s) k r = (if k = k' then (v, n) else read_at s k r)"
    using Cons.prems n by (intro read_new) auto
  moreover have "read_at (run ws (wr n k' v s)) k r =
      (case map_of (map (\<lambda>(n, k, v). (k, v, n)) (rev ws)) k of
         None \<Rightarrow> read_at (wr n k' v s) k r | Some vn \<Rightarrow> vn)"
    using inv' asc le by (intro Cons.IH) (simp_all add: cur_wr)
  ultimately show ?case using w by (auto simp: map_add_def split: option.split)
qed

end

section \<open>The store implements the interface\<close>

lemma entries_of_append [simp]:
  "entries_of (append_version kv k e) k' = (if k' = k then entries_of kv k @ [e] else entries_of kv k')"
  by (simp add: entries_of_def append_version_def gomap_get_update)

lemma entries_of_cong [simp]:
  "entries_of (kv\<lparr>kv_key2Lease := l\<rparr>) = entries_of kv"
  "entries_of (kv\<lparr>kv_currentRev := n\<rparr>) = entries_of kv"
  by (simp_all add: entries_of_def fun_eq_iff)

lemma view_cong [simp]:
  "version_at (kv\<lparr>kv_key2Lease := l\<rparr>) = version_at kv"
  "kv_view (kv\<lparr>kv_key2Lease := l\<rparr>) = kv_view kv"
  by (simp_all add: version_at_def kv_view_def fun_eq_iff)

lemma kv_okD:
  assumes "kv_ok kv"
  shows "gomap_wf (kv_data kv)" and "gomap_wf (kv_key2Lease kv)" and "0 \<le> kv_currentRev kv"
    and "map_of (kv_data kv) k = Some es \<Longrightarrow> entries_ok (kv_currentRev kv) es"
  using assms by (auto simp: kv_ok_def dest: map_of_SomeD)

lemma entries_of_ok:
  assumes "kv_ok kv" and "e \<in> set (entries_of kv k)"
  shows "0 < v_Revision e" and "v_Revision e \<le> kv_currentRev kv"
  using assms(2) kv_okD(4) [OF assms(1), of k]
  by (cases "map_of (kv_data kv) k"; force simp: entries_of_def gomap_get_def entries_ok_def)+

lemma entries_of_sorted:
  assumes "kv_ok kv"
  shows "sorted_wrt (<) (map v_Revision (entries_of kv k))"
  using kv_okD(4) [OF assms, of k]
  by (auto simp: entries_of_def gomap_get_def entries_ok_def split: option.splits)

lemma kv_ok_key2Lease:
  "kv_ok kv \<Longrightarrow> gomap_wf l \<Longrightarrow> kv_ok (kv\<lparr>kv_key2Lease := l\<rparr>)"
  by (simp add: kv_ok_def)

lemma entries_ok_mono: "entries_ok c es \<Longrightarrow> c \<le> d \<Longrightarrow> entries_ok d es"
  by (force simp: entries_ok_def)

lemma kv_ok_append:
  assumes ok: "kv_ok kv" and n: "kv_currentRev kv < n" and e: "v_Revision e = n"
  shows "kv_ok (append_version (kv\<lparr>kv_currentRev := n\<rparr>) k e)"
proof -
  note D = kv_okD [OF ok]
  have new: "entries_ok n (entries_of kv k @ [e])"
    using entries_of_sorted [OF ok, of k] entries_of_ok [OF ok, of _ k] n e D(3)
    by (fastforce simp: entries_ok_def sorted_wrt_append)
  have old: "entries_ok n es" if "(k', es) \<in> set (kv_data kv)" for k' es
  proof -
    from that ok have "entries_ok (kv_currentRev kv) es" by (auto simp: kv_ok_def)
    then show ?thesis using n by (auto intro: entries_ok_mono)
  qed
  show ?thesis
    using D(1-3) n new old
    by (auto simp: kv_ok_def append_version_def gomap_mem_update split: if_splits)
qed

lemma write_version_simps [simp]:
  "kv_currentRev (write_version n k vo kv) = n"
  "kv_key2Lease (write_version n k vo kv) = kv_key2Lease kv"
  by (simp_all add: write_version_def append_version_def)

lemma write_version_ok [wj_inv]:
  "kv_ok kv \<Longrightarrow> kv_currentRev kv < n \<Longrightarrow> kv_ok (write_version n k vo kv)"
  unfolding write_version_def by (rule kv_ok_append) simp_all

lemma read_version_snoc:
  "read_version r (es @ [e]) =
     (if v_Revision e \<le> r then (version_value e, v_Revision e) else read_version r es)"
  by (cases "filter (\<lambda>e. v_Revision e \<le> r) es") (auto simp: read_version_def)

lemma version_at_write:
  "version_at (write_version n k vo kv) k' r =
     (if k' = k \<and> n \<le> r then (vo, n) else version_at kv k' r)"
  by (cases vo) (simp_all add: version_at_def write_version_def read_version_snoc version_value_def)

lemma kv_view_write [simp]:
  "kv_view (write_version n k vo kv) = (kv_view kv)(k := vo)"
  by (auto simp: kv_view_def write_version_def latest_version_def version_value_def split: option.splits)

lemma drop_version_ok [wj_inv]:
  "kv_ok kv \<Longrightarrow> kv_currentRev kv < n \<Longrightarrow> kv_ok (drop_version n k vo kv)"
  unfolding drop_version_def
  by (intro kv_ok_key2Lease write_version_ok) (simp_all add: kv_okD(2))

interpretation wv: versioned_store kv_ok kv_currentRev version_at write_version
  by unfold_locales (simp_all add: write_version_ok version_at_write)

interpretation dv: versioned_store kv_ok kv_currentRev version_at drop_version
  by unfold_locales (rule drop_version_ok, simp_all add: drop_version_def version_at_write)

section \<open>The operations as writes\<close>

lemma Put_write: "Put kv k v = write_version (kv_currentRev kv + 1) k (Some v) kv"
  by (simp add: Put_def write_version_def)

lemma Delete_write: "Delete kv k = write_version (kv_currentRev kv + 1) k None kv"
  by (simp add: Delete_def write_version_def)

lemma tombstone_key_write: "tombstone_key k kv = drop_version (kv_currentRev kv + 1) k None kv"
  by (simp add: tombstone_key_def drop_version_def write_version_def append_version_def)

definition rev_ok :: "kvstore \<Rightarrow> command \<Rightarrow> bool" where
  \<comment> \<open>the revision the server puts into a command: none, or one beyond the store's\<close>
  "rev_ok kv cmd \<longleftrightarrow> c_Revision cmd = 0 \<or> kv_currentRev kv < c_Revision cmd"

definition cmd_rev :: "kvstore \<Rightarrow> command \<Rightarrow> int" where
  "cmd_rev kv cmd = (if c_Revision cmd = 0 then kv_currentRev kv + 1 else c_Revision cmd)"

lemma cmd_rev_gt: "rev_ok kv cmd \<Longrightarrow> kv_currentRev kv < cmd_rev kv cmd"
  by (auto simp: rev_ok_def cmd_rev_def)

lemma assign_rev_ok:
  "rev_ok kv cmd \<Longrightarrow>
   assign_rev kv (c_Revision cmd) = (cmd_rev kv cmd, kv\<lparr>kv_currentRev := cmd_rev kv cmd\<rparr>)"
  by (auto simp: assign_rev_def rev_ok_def cmd_rev_def)

lemma Apply_CmdPut:
  "c_Type cmd = CmdPut \<Longrightarrow> rev_ok kv cmd \<Longrightarrow>
   Apply kv cmd = Ret ((write_version (cmd_rev kv cmd) (c_Key cmd) (Some (c_Value cmd)) kv)
     \<lparr>kv_key2Lease := (if c_LeaseID cmd > 0
        then AList.update (c_Key cmd) (c_LeaseID cmd) (kv_key2Lease kv)
        else AList.delete (c_Key cmd) (kv_key2Lease kv))\<rparr>, Inr [])"
  by (simp add: Apply_def assign_rev_ok write_version_def append_version_def)

lemma Apply_CmdDelete:
  "c_Type cmd = CmdDelete \<Longrightarrow> rev_ok kv cmd \<Longrightarrow>
   Apply kv cmd = Ret (drop_version (cmd_rev kv cmd) (c_Key cmd) None kv, Inr [])"
  by (simp add: Apply_def assign_rev_ok write_version_def drop_version_def append_version_def)

definition cas_matches :: "kvstore \<Rightarrow> command \<Rightarrow> bool" where
  "cas_matches kv cmd \<longleftrightarrow>
     (\<exists>e. latest_version (entries_of kv (c_Key cmd)) = Some e \<and> \<not> v_Tombstone e \<and>
          v_Revision e = c_ExpectedRev cmd)"

lemma Apply_CmdCAS:
  "c_Type cmd = CmdCAS \<Longrightarrow> rev_ok kv cmd \<Longrightarrow>
   Apply kv cmd = (if cas_matches kv cmd
     then Ret (write_version (cmd_rev kv cmd) (c_Key cmd) (Some (c_Value cmd)) kv, Inr ''OK'')
     else Ret (kv, Inr ''CAS_FAILED''))"
  by (auto simp: Apply_def assign_rev_ok write_version_def append_version_def cas_matches_def
      split: option.splits)

lemma Apply_CmdLeaseAttach:
  "c_Type cmd = CmdLeaseAttach \<Longrightarrow> rev_ok kv cmd \<Longrightarrow>
   Apply kv cmd = Ret (if c_LeaseID cmd > 0
     then (write_version (cmd_rev kv cmd) (c_Key cmd) (Some (c_Value cmd)) kv)
        \<lparr>kv_key2Lease := AList.update (c_Key cmd) (c_LeaseID cmd) (kv_key2Lease kv)\<rparr>
     else kv, Inr [])"
  by (auto simp: Apply_def assign_rev_def write_version_def append_version_def rev_ok_def cmd_rev_def
      entries_of_def Let_def)

lemma Apply_CmdGet: "c_Type cmd = CmdGet \<Longrightarrow> Apply kv cmd = Blocked"
  by (simp add: Apply_def GetAtRevision_def)

lemmas Apply_writes = Apply_CmdPut Apply_CmdDelete Apply_CmdCAS Apply_CmdLeaseAttach

lemma scan_back_read_version:
  "scan_back (rev es) r =
     (case read_version r es of (vo, n) \<Rightarrow> (case vo of None \<Rightarrow> [] | Some v \<Rightarrow> v, n))"
proof (induction es rule: rev_induct)
  case Nil
  then show ?case by (simp add: read_version_def)
next
  case (snoc e es)
  then show ?case by (auto simp: read_version_snoc version_value_def)
qed

lemma GetAtRevision_read:
  "GetAtRevision Unlocked kv k r =
     Ret (case version_at kv k (if r = 0 then max_int64 else r) of
            (vo, n) \<Rightarrow> (case vo of None \<Rightarrow> [] | Some v \<Rightarrow> v, n))"
  by (auto simp: GetAtRevision_def version_at_def entries_of_def gomap_get_def
      scan_back_read_version read_version_def split: option.splits)

lemma version_at_latest:
  assumes "kv_ok kv" and "kv_currentRev kv \<le> r"
  shows "fst (version_at kv k r) = kv_view kv k"
proof -
  have "filter (\<lambda>e. v_Revision e \<le> r) (entries_of kv k) = entries_of kv k"
    using entries_of_ok(2) [OF assms(1)] assms(2) by (force simp: filter_id_conv)
  then show ?thesis
    by (auto simp: version_at_def read_version_def kv_view_def latest_version_def
        split: list.splits)
qed

section \<open>Deletion of a prefix as a run of writes\<close>

fun numbered :: "int \<Rightarrow> string list \<Rightarrow> (int \<times> string \<times> string option) list" where
  "numbered c [] = []"
| "numbered c (k # ks) = (c + 1, k, None) # numbered (c + 1) ks"

lemma fold_tombstone_run:
  "fold tombstone_key ks kv =
     fold (\<lambda>(n, k, v). drop_version n k v) (numbered (kv_currentRev kv) ks) kv"
  by (induction ks arbitrary: kv) (simp_all add: tombstone_key_write dv.cur_wr)

lemma numbered_bounds: "w \<in> set (numbered c ks) \<Longrightarrow> c < fst w \<and> snd w \<in> set ks \<times> {None}"
  by (induction ks arbitrary: c) fastforce+

lemma numbered_ascending: "sorted_wrt (<) (c # map fst (numbered c ks))"
proof (induction ks arbitrary: c)
  case Nil
  then show ?case by simp
next
  case (Cons k ks)
  have "\<forall>n \<in> set (map fst (numbered (c + 1) ks)). c < n"
    using numbered_bounds by fastforce
  then show ?case using Cons [of "c + 1"] by simp
qed

lemma numbered_Nil_iff [simp]: "numbered c ks = [] \<longleftrightarrow> ks = []"
  by (cases ks) simp_all

lemma last_numbered: "ks \<noteq> [] \<Longrightarrow> fst (last (numbered c ks)) = c + int (length ks)"
proof (induction ks arbitrary: c)
  case Nil
  then show ?case by simp
next
  case (Cons k ks)
  then show ?case by (cases "ks = []") (simp_all add: Cons.IH)
qed

lemma numbered_keys: "(\<lambda>w. fst (snd w)) ` set (numbered c ks) = set ks"
  by (induction ks arbitrary: c) simp_all

lemma map_of_numbered:
  "map_of (map (\<lambda>(n, k, v). (k, v, n)) (rev (numbered c ks))) k = None \<longleftrightarrow> k \<notin> set ks"
  by (simp add: map_of_eq_None_iff image_image case_prod_beta numbered_keys)

lemma map_of_numbered_Some:
  assumes "map_of (map (\<lambda>(n, k, v). (k, v, n)) (rev (numbered c ks))) k = Some (v, n)"
  shows "v = None"
  using map_of_SomeD [OF assms] numbered_bounds by fastforce

lemma DeletePrefix_snd: "snd (DeletePrefix kv pre) = sort (filter (has_prefix pre) (map fst (kv_data kv)))"
  by (simp add: DeletePrefix_def Let_def)

lemma DeletePrefix_run:
  "fst (DeletePrefix kv pre) =
     fold (\<lambda>(n, k, v). drop_version n k v) (numbered (kv_currentRev kv) (snd (DeletePrefix kv pre))) kv"
  by (simp add: DeletePrefix_def Let_def fold_tombstone_run)

lemma DeletePrefix_ok [wj_inv]: "kv_ok kv \<Longrightarrow> kv_ok (fst (DeletePrefix kv pre))"
  unfolding DeletePrefix_run by (rule dv.run_inv) (simp_all only: numbered_ascending)

lemma DeletePrefix_cur:
  "kv_currentRev (fst (DeletePrefix kv pre)) =
     kv_currentRev kv + int (length (snd (DeletePrefix kv pre)))"
  unfolding DeletePrefix_run by (simp add: dv.run_cur last_numbered)

lemma DeletePrefix_read_old:
  "kv_ok kv \<Longrightarrow> r \<le> kv_currentRev kv \<Longrightarrow>
   version_at (fst (DeletePrefix kv pre)) k r = version_at kv k r"
  unfolding DeletePrefix_run by (rule dv.run_read_old) (simp_all only: numbered_ascending)

lemma set_DeletePrefix_keys:
  "set (snd (DeletePrefix kv pre)) = {k \<in> gomap_keys (kv_data kv). prefix pre k}"
  by (auto simp: DeletePrefix_snd has_prefix_iff)

lemma kv_view_absent: "k \<notin> gomap_keys (kv_data kv) \<Longrightarrow> kv_view kv k = None"
  by (simp add: kv_view_def latest_version_def entries_of_def gomap_get_def
      map_of_eq_None_iff [THEN iffD2])

lemma DeletePrefix_view:
  assumes ok: "kv_ok kv"
  shows "kv_view (fst (DeletePrefix kv pre)) k = (if prefix pre k then None else kv_view kv k)"
proof -
  let ?kv' = "fst (DeletePrefix kv pre)" and ?ks = "snd (DeletePrefix kv pre)"
  let ?m = "map_of (map (\<lambda>(n, k, v). (k, v, n)) (rev (numbered (kv_currentRev kv) ?ks))) k"
  have le: "kv_currentRev kv \<le> kv_currentRev ?kv'"
    by (simp add: DeletePrefix_cur)
  have "version_at ?kv' k (kv_currentRev ?kv') =
      (case ?m of None \<Rightarrow> version_at kv k (kv_currentRev ?kv') | Some vn \<Rightarrow> vn)"
    unfolding DeletePrefix_run [of kv pre]
    by (rule dv.run_read_new) (simp_all only: ok numbered_ascending order_refl)
  moreover have "kv_view ?kv' k = fst (version_at ?kv' k (kv_currentRev ?kv'))"
    by (simp add: version_at_latest DeletePrefix_ok ok)
  ultimately have "kv_view ?kv' k = (case ?m of None \<Rightarrow> kv_view kv k | Some vn \<Rightarrow> fst vn)"
    using version_at_latest [OF ok le] by (simp split: option.split)
  also have "\<dots> = (if k \<in> set ?ks then None else kv_view kv k)"
    using map_of_numbered [of "kv_currentRev kv" ?ks k] map_of_numbered_Some [of "kv_currentRev kv" ?ks k]
    by (auto split: option.split)
  also have "\<dots> = (if prefix pre k then None else kv_view kv k)"
    using kv_view_absent [of k kv] by (auto simp: set_DeletePrefix_keys)
  finally show ?thesis .
qed

section \<open>Abstract specification\<close>

text \<open>
  What the store promises its clients: a finite map from keys to the live value and the
  revision that wrote it. \<open>spec_apply n\<close> is the command at revision \<open>n\<close>.
\<close>

type_synonym astore = "string \<rightharpoonup> string \<times> int"

definition kv_abs :: "kvstore \<Rightarrow> astore" where
  "kv_abs kv key =
     (case latest_version (entries_of kv key) of
        None \<Rightarrow> None
      | Some e \<Rightarrow> if v_Tombstone e then None else Some (v_Value e, v_Revision e))"

definition spec_apply :: "int \<Rightarrow> command \<Rightarrow> astore \<Rightarrow> astore \<times> (kv_error + string)" where
  "spec_apply n cmd m =
     (case c_Type cmd of
        CmdPut \<Rightarrow> (m(c_Key cmd \<mapsto> (c_Value cmd, n)), Inr [])
      | CmdDelete \<Rightarrow> (m(c_Key cmd := None), Inr [])
      | CmdCAS \<Rightarrow>
          (case m (c_Key cmd) of
             Some (v, r) \<Rightarrow>
               if r = c_ExpectedRev cmd then (m(c_Key cmd \<mapsto> (c_Value cmd, n)), Inr ''OK'')
               else (m, Inr ''CAS_FAILED'')
           | None \<Rightarrow> (m, Inr ''CAS_FAILED''))
      | CmdLeaseAttach \<Rightarrow>
          (if c_LeaseID cmd > 0 then (m(c_Key cmd \<mapsto> (c_Value cmd, n)), Inr []) else (m, Inr []))
      | _ \<Rightarrow> (m, Inl UnknownCommandType))"

lemma kv_abs_write [simp]:
  "kv_abs (write_version n k vo kv) = (kv_abs kv)(k := map_option (\<lambda>v. (v, n)) vo)"
  by (auto simp: kv_abs_def write_version_def latest_version_def split: option.splits)

lemma kv_abs_cong [simp]: "kv_abs (kv\<lparr>kv_key2Lease := l\<rparr>) = kv_abs kv"
  by (simp add: kv_abs_def fun_eq_iff)

lemma kv_view_abs: "kv_view kv k = map_option fst (kv_abs kv k)"
  by (simp add: kv_view_def kv_abs_def version_value_def split: option.split)

lemma cas_matches_abs:
  "cas_matches kv cmd \<longleftrightarrow> (\<exists>v. kv_abs kv (c_Key cmd) = Some (v, c_ExpectedRev cmd))"
  by (auto simp: cas_matches_def kv_abs_def split: option.splits)

lemma Apply_ok:
  assumes "kv_ok kv" and "rev_ok kv cmd" and "Apply kv cmd = Ret (kv', res)"
  shows "kv_ok kv'" and "kv_currentRev kv \<le> kv_currentRev kv'"
    and "kv_currentRev kv' \<le> cmd_rev kv cmd"
    and "r \<le> kv_currentRev kv \<Longrightarrow> version_at kv' k r = version_at kv k r"
proof -
  note gt = cmd_rev_gt [OF assms(2)]
  have wf: "gomap_wf (kv_key2Lease kv)" using assms(1) by (rule kv_okD)
  have case_of: "c_Type cmd \<in> {CmdPut, CmdDelete, CmdCAS, CmdLeaseAttach} \<or> kv' = kv"
    using assms(3) by (cases "c_Type cmd") (simp_all add: Apply_def GetAtRevision_def)
  have wr1: "kv_ok ((write_version (cmd_rev kv cmd) k vo kv)\<lparr>kv_key2Lease := l\<rparr>)"
    if "gomap_wf l" for k vo l
    using that gt assms(1) by (intro kv_ok_key2Lease write_version_ok)
  have wr2: "kv_ok (write_version (cmd_rev kv cmd) k vo kv)" for k vo
    using gt assms(1) by (intro write_version_ok)
  show "kv_ok kv'"
    using case_of assms wf by (auto simp: Apply_writes drop_version_def intro!: wr1 wr2 split: if_splits)
  show "kv_currentRev kv \<le> kv_currentRev kv'" "kv_currentRev kv' \<le> cmd_rev kv cmd"
    using case_of assms gt by (auto simp: Apply_writes drop_version_def split: if_splits)
  show "version_at kv' k r = version_at kv k r" if "r \<le> kv_currentRev kv"
    using case_of assms gt that
    by (auto simp: Apply_writes drop_version_def version_at_write split: if_splits)
qed

lemma live_entries_view:
  "gomap_wf (kv_data kv) \<Longrightarrow> (k, es) \<in> set (kv_data kv) \<Longrightarrow>
   live_entries es \<longleftrightarrow> kv_view kv k \<noteq> None"
  by (auto simp: live_entries_def kv_view_def entries_of_def gomap_get_def version_value_def
      latest_version_def split: if_splits)

lemma kv_view_dom: "kv_view kv k \<noteq> None \<Longrightarrow> k \<in> gomap_keys (kv_data kv)"
  using kv_view_absent by metis

lemma set_Keys: "kv_ok kv \<Longrightarrow> set (Keys kv) = dom (kv_view kv)"
  using live_entries_view [OF kv_okD(1)] kv_view_dom by (force simp: Keys_def dom_def)

lemma distinct_Keys: "kv_ok kv \<Longrightarrow> distinct (Keys kv)"
  using kv_okD(1) by (auto simp: Keys_def distinct_map inj_on_def)

lemma fold_count:
  "fold (\<lambda>(k, es) n. if P es then n + 1 else n) xs n = n + length (filter (\<lambda>(k, es). P es) xs)"
  by (induction xs arbitrary: n) (auto simp: case_prod_beta)

lemma Size_Keys: "Size kv = length (Keys kv)"
  by (simp add: Size_def Keys_def fold_count case_prod_beta)

lemma set_KeysWithPrefix: "kv_ok kv \<Longrightarrow> set (KeysWithPrefix kv p) = {k \<in> dom (kv_view kv). prefix p k}"
  using live_entries_view [OF kv_okD(1)] kv_view_dom
  by (force simp: KeysWithPrefix_def dom_def has_prefix_iff)

lemma map_of_GetPrefix_step:
  "map_of (GetPrefix_step p (key, es) res) k =
     (if k = key \<and> prefix p k \<and> live_entries es then Some (v_Value (last es)) else map_of res k)"
  by (auto simp: GetPrefix_step_def has_prefix_iff live_entries_def latest_version_def
      map_of_gomap_update)

lemma fold_GetPrefix:
  assumes "distinct (map fst xs)"
  shows "map_of (fold (GetPrefix_step p) xs res) k =
    (case map_of xs k of
       None \<Rightarrow> map_of res k
     | Some es \<Rightarrow> if prefix p k \<and> live_entries es then Some (v_Value (last es)) else map_of res k)"
  using assms
proof (induction xs arbitrary: res)
  case Nil
  then show ?case by simp
next
  case (Cons x xs)
  obtain key es where x: "x = (key, es)" by (cases x)
  with Cons.prems have "map_of xs key = None" by (simp add: map_of_eq_None_iff)
  with Cons.prems show ?case
    by (auto simp: x Cons.IH map_of_GetPrefix_step split: option.split)
qed

lemma map_of_GetPrefix:
  assumes "kv_ok kv"
  shows "map_of (GetPrefix kv p) k = (if prefix p k then kv_view kv k else None)"
  using kv_okD(1) [OF assms]
  by (auto simp: GetPrefix_def fold_GetPrefix kv_view_def entries_of_def gomap_get_def
      live_entries_def latest_version_def version_value_def split: option.splits)

lemma bad_revision_None:
  "bad_revision c k es = None \<longleftrightarrow> (\<forall>e \<in> set es. 0 < v_Revision e \<and> v_Revision e \<le> c)"
  by (induction es) auto

lemma check_data_None:
  "check_data c d = None \<longleftrightarrow> (\<forall>(k, es) \<in> set d. \<forall>e \<in> set es. 0 < v_Revision e \<and> v_Revision e \<le> c)"
proof (induction d)
  case Nil
  then show ?case by simp
next
  case (Cons x d)
  moreover obtain k es where "x = (k, es)" by (cases x)
  ultimately show ?case
    using bad_revision_None [of c k es] by (auto split: option.split)
qed

section \<open>Properties\<close>

text \<open>
  every command keeps the store well formed. If the revision of the command is absent
  or beyond the store's (what the server guarantees), then after \<open>Apply\<close> the versions of
  each key still have strictly increasing revisions in \<open>1..currentRev\<close>, and \<open>currentRev\<close>
  never decreases.
\<close>

theorem kv_apply_invariant:
  assumes "kv_ok kv" and "rev_ok kv cmd" and "Apply kv cmd = Ret (kv', res)"
  shows "kv_ok kv' \<and> kv_currentRev kv \<le> kv_currentRev kv'"
  using Apply_ok [OF assms] by blast

theorem kv_apply_invariant_witness:
  "kv_ok (Put NewKVStore ''a'' ''1'') \<and>
   (\<exists>kv' res. Apply (Put NewKVStore ''a'' ''1'')
        (zero_command\<lparr>c_Key := ''a'', c_Value := ''2'', c_Revision := 5\<rparr>) = Ret (kv', res) \<and> kv_ok kv')"
proof -
  let ?kv = "Put NewKVStore ''a'' ''1''"
  let ?cmd = "zero_command\<lparr>c_Key := ''a'', c_Value := ''2'', c_Revision := 5\<rparr>"
  have ok: "kv_ok ?kv" and rv: "rev_ok ?kv ?cmd" by code_simp+
  have "c_Type ?cmd = CmdPut" by (simp add: zero_command_def)
  from Apply_CmdPut [OF this rv] obtain kv' res where ap: "Apply ?kv ?cmd = Ret (kv', res)" by blast
  show ?thesis using ok kv_apply_invariant [OF ok rv ap] ap by blast
qed

text \<open>
  multi-version reads are immutable. No command changes what \<open>GetAtRevision\<close> returns
  (value and revision) for any key at any revision that the store had already reached.
\<close>

theorem kv_history_immutable:
  assumes "kv_ok kv" and "rev_ok kv cmd" and "Apply kv cmd = Ret (kv', res)"
    and "0 < r" and "r \<le> kv_currentRev kv"
  shows "GetAtRevision Unlocked kv' key r = GetAtRevision Unlocked kv key r"
  using Apply_ok(4) [OF assms(1-3), of r key] assms(4,5) by (simp add: GetAtRevision_read)

theorem kv_history_immutable_witness:
  "GetAtRevision Unlocked (Put NewKVStore ''a'' ''1'') ''a'' 1 = Ret (''1'', 1) \<and>
   (\<exists>kv' res. Apply (Put NewKVStore ''a'' ''1'') (zero_command\<lparr>c_Type := CmdDelete, c_Key := ''a''\<rparr>) = Ret (kv', res) \<and>
      GetAtRevision Unlocked kv' ''a'' 1 = Ret (''1'', 1))"
proof -
  let ?kv = "Put NewKVStore ''a'' ''1''"
  let ?cmd = "zero_command\<lparr>c_Type := CmdDelete, c_Key := ''a''\<rparr>"
  have ok: "kv_ok ?kv" and rv: "rev_ok ?kv ?cmd" by code_simp+
  have cur: "kv_currentRev ?kv = 1" by code_simp
  have get: "GetAtRevision Unlocked ?kv ''a'' 1 = Ret (''1'', 1)" by code_simp
  have "c_Type ?cmd = CmdDelete" by simp
  from Apply_CmdDelete [OF this rv] obtain kv' res where ap: "Apply ?kv ?cmd = Ret (kv', res)" by blast
  have "GetAtRevision Unlocked kv' ''a'' 1 = GetAtRevision Unlocked ?kv ''a'' 1"
    by (rule kv_history_immutable [OF ok rv ap]) (simp_all add: cur)
  with get ap show ?thesis by auto
qed



lemma Get_live:
  assumes "kv_ok kv" "kv_currentRev kv \<le> max_int64"
  shows "Get kv key = Ret (case kv_view kv key of None \<Rightarrow> [] | Some v \<Rightarrow> v)"
  using version_at_latest [OF assms, of key]
  by (auto simp: Get_def GetAtRevision_read split: prod.splits option.splits)



text \<open>
  \<open>DeletePrefix\<close> removes exactly the live keys that start with the prefix: the other
  keys keep their value, every read at an older revision is unchanged, each matching key
  gets a tombstone at a revision of its own (in key order), and the store stays well formed.
\<close>

theorem kv_delete_prefix:
  assumes "kv_ok kv"
  shows "kv_ok (fst (DeletePrefix kv p)) \<and>
     kv_view (fst (DeletePrefix kv p)) = kv_view kv |` {k. \<not> prefix p k} \<and>
     sorted (snd (DeletePrefix kv p)) \<and> distinct (snd (DeletePrefix kv p)) \<and>
     set (snd (DeletePrefix kv p)) = {k \<in> gomap_keys (kv_data kv). prefix p k} \<and>
     kv_currentRev (fst (DeletePrefix kv p)) =
       kv_currentRev kv + int (length (snd (DeletePrefix kv p))) \<and>
     (\<forall>k r. r \<le> kv_currentRev kv \<longrightarrow>
        version_at (fst (DeletePrefix kv p)) k r = version_at kv k r)"
proof (intro conjI)
  show "kv_view (fst (DeletePrefix kv p)) = kv_view kv |` {k. \<not> prefix p k}"
    using DeletePrefix_view [OF assms] by (auto simp: fun_eq_iff restrict_map_def)
  show "distinct (snd (DeletePrefix kv p))"
    using kv_okD(1) [OF assms] by (simp add: DeletePrefix_snd)
  show "sorted (snd (DeletePrefix kv p))" by (simp add: DeletePrefix_snd)
qed (use assms in \<open>simp_all add: DeletePrefix_ok set_DeletePrefix_keys DeletePrefix_cur DeletePrefix_read_old\<close>)

theorem kv_delete_prefix_witness:
  "kv_view (fst (DeletePrefix (Put (Put NewKVStore ''ax'' ''1'') ''b'' ''2'') ''a'')) ''ax'' = None \<and>
   kv_view (fst (DeletePrefix (Put (Put NewKVStore ''ax'' ''1'') ''b'' ''2'') ''a'')) ''b'' = Some ''2''"
proof -
  let ?kv = "Put (Put NewKVStore ''ax'' ''1'') ''b'' ''2''"
  have ok: "kv_ok ?kv" by code_simp
  have v: "kv_view ?kv ''b'' = Some ''2''" by code_simp
  have "kv_view (fst (DeletePrefix ?kv ''a'')) = kv_view ?kv |` {k. \<not> prefix ''a'' k}"
    using kv_delete_prefix [OF ok] by blast
  then show ?thesis using v by (simp add: restrict_map_def)
qed

lemma Restore_Snapshot:
  assumes "kv_ok kv"
  shows "Restore kv0 (Snapshot kv) =
    Inr (kv0\<lparr>kv_data := kv_data kv, kv_key2Lease := kv_key2Lease kv, kv_currentRev := kv_currentRev kv\<rparr>)"
proof -
  have "check_data (kv_currentRev kv) (kv_data kv) = None"
    using assms by (auto simp: check_data_None kv_ok_def entries_ok_def)
  then show ?thesis by (simp add: Restore_def Snapshot_def)
qed

text \<open>
  a snapshot of a well-formed store is accepted by \<open>Restore\<close> on any store and brings
  back its versions, its lease table and its revision; and \<open>Restore\<close> accepts a snapshot
  only when both maps are present and every revision in it lies in \<open>1..currentRev\<close>.
\<close>

theorem kv_snapshot_roundtrip:
  "(kv_ok kv \<longrightarrow>
      Restore kv0 (Snapshot kv) =
        Inr (kv0\<lparr>kv_data := kv_data kv, kv_key2Lease := kv_key2Lease kv, kv_currentRev := kv_currentRev kv\<rparr>)) \<and>
   (Restore kv0 s = Inr kv' \<longrightarrow>
      ss_Data s = Some (kv_data kv') \<and> ss_Key2Lease s = Some (kv_key2Lease kv') \<and>
      (\<forall>(k, es) \<in> set (kv_data kv'). \<forall>e \<in> set es. 0 < v_Revision e \<and> v_Revision e \<le> kv_currentRev kv'))"
proof (intro conjI impI)
  assume "kv_ok kv"
  then show "Restore kv0 (Snapshot kv) =
      Inr (kv0\<lparr>kv_data := kv_data kv, kv_key2Lease := kv_key2Lease kv, kv_currentRev := kv_currentRev kv\<rparr>)"
    by (rule Restore_Snapshot)
next
  assume r: "Restore kv0 s = Inr kv'"
  show "ss_Data s = Some (kv_data kv')" "ss_Key2Lease s = Some (kv_key2Lease kv')"
    "\<forall>(k, es) \<in> set (kv_data kv'). \<forall>e \<in> set es. 0 < v_Revision e \<and> v_Revision e \<le> kv_currentRev kv'"
    using r by (auto simp: Restore_def check_data_None [symmetric] split: option.splits)
qed

theorem kv_snapshot_roundtrip_witness:
  "kv_ok (Put NewKVStore ''a'' ''1'') \<and>
   Restore NewKVStore (Snapshot (Put NewKVStore ''a'' ''1'')) = Inr (Put NewKVStore ''a'' ''1'')"
proof -
  have ok: "kv_ok (Put NewKVStore ''a'' ''1'')" by code_simp
  with kv_snapshot_roundtrip [of "Put NewKVStore ''a'' ''1''" NewKVStore]
  show ?thesis by (simp add: Put_def NewKVStore_def append_version_def Let_def)
qed

text \<open>
  \<open>Apply\<close> never returns on a \<open>CmdGet\<close>, and returns on every other command: the read
  inside \<open>Apply\<close> takes the read lock of the mutex whose write lock \<open>Apply\<close> holds.
\<close>

theorem kv_apply_get_blocks: "Apply kv cmd = Blocked \<longleftrightarrow> c_Type cmd = CmdGet"
  by (cases "c_Type cmd")
    (auto simp: Apply_def GetAtRevision_def Let_def split: prod.splits option.splits)

end
