(* ===== verification/Lease_Heap.thy ===== *)
theory Lease_Heap
  imports Wj_Prelude
begin

text \<open>
  The expiry heap of the lease manager, \<open>server/server.go\<close> (\<open>leaseItem\<close>, \<open>bubbleUp\<close>,
  \<open>bubbleDown\<close>): a binary min-heap in a slice, ordered by expiry time. The two sift loops
  restore the heap after a local change and permute the slice; the interface
  \<open>expiry_queue\<close> states what the lease manager relies on.
\<close>

section \<open>The sift loops\<close>

record lease_item =
  i_ID :: int
  i_expireAt :: int

definition swap :: "'a list \<Rightarrow> nat \<Rightarrow> nat \<Rightarrow> 'a list" where
  "swap h i j = h[i := h ! j, j := h ! i]"

function bubbleUp :: "lease_item list \<Rightarrow> nat \<Rightarrow> lease_item list" where
  "bubbleUp h i =
     (if i > 0
      then (let parent = (i - 1) div 2 in
            if i_expireAt (h ! i) \<ge> i_expireAt (h ! parent) then h
            else bubbleUp (swap h i parent) parent)
      else h)"
  by pat_completeness auto
termination
  by (relation "measure snd") auto

definition smallest_of :: "lease_item list \<Rightarrow> nat \<Rightarrow> nat" where
  \<comment> \<open>the index \<open>smallest\<close> that one iteration of \<open>bubbleDown\<close> computes\<close>
  "smallest_of h i =
     (let n = length h; left = 2 * i + 1; right = 2 * i + 2;
          s1 = (if left < n \<and> i_expireAt (h ! left) < i_expireAt (h ! i) then left else i)
      in if right < n \<and> i_expireAt (h ! right) < i_expireAt (h ! s1) then right else s1)"

lemma smallest_of_cases:
  "smallest_of h i = i \<or> (i < smallest_of h i \<and> smallest_of h i < length h)"
  by (auto simp: smallest_of_def Let_def)

function bubbleDown :: "lease_item list \<Rightarrow> nat \<Rightarrow> lease_item list" where
  "bubbleDown h i =
     (if smallest_of h i = i then h
      else bubbleDown (swap h i (smallest_of h i)) (smallest_of h i))"
  by pat_completeness auto
termination
proof (relation "measure (\<lambda>(h, i). length h - i)", goal_cases)
  case (2 h i)
  then have "i < smallest_of h i \<and> smallest_of h i < length h"
    using smallest_of_cases [of h i] by blast
  then show ?case by (auto simp: swap_def)
qed simp

declare bubbleUp.simps [simp del] bubbleDown.simps [simp del]

fun heapify :: "nat \<Rightarrow> lease_item list \<Rightarrow> lease_item list" where
  \<comment> \<open>\<open>for i := n/2 - 1; i >= 0; i--\<close> of \<open>Restore\<close>: \<open>heapify i\<close> runs the indices below \<open>i\<close>\<close>
  "heapify 0 h = h"
| "heapify (Suc i) h = heapify i (bubbleDown h i)"

section \<open>Swapping\<close>

lemma length_swap [simp]: "length (swap h i j) = length h"
  by (simp add: swap_def)

lemma mset_swap_heap [simp]: "i < length h \<Longrightarrow> j < length h \<Longrightarrow> mset (swap h i j) = mset h"
  by (simp add: swap_def mset_swap)

lemma nth_swap:
  "i < length h \<Longrightarrow> j < length h \<Longrightarrow> x < length h \<Longrightarrow>
   swap h i j ! x = (if x = j then h ! i else if x = i then h ! j else h ! x)"
  by (simp add: swap_def nth_list_update)

section \<open>The heap order\<close>

abbreviation hpar :: "nat \<Rightarrow> nat" where
  "hpar j \<equiv> (j - 1) div 2"

abbreviation hkey :: "lease_item list \<Rightarrow> nat \<Rightarrow> int" where
  "hkey h j \<equiv> i_expireAt (h ! j)"

lemma par_eq_iff: "0 < j \<Longrightarrow> hpar j = i \<longleftrightarrow> j = 2 * i + 1 \<or> j = 2 * i + 2"
  by arith

lemma par_less: "0 < j \<Longrightarrow> hpar j < j"
  by arith

definition heap_from :: "nat \<Rightarrow> lease_item list \<Rightarrow> bool" where
  \<comment> \<open>every parent with index at least \<open>k\<close> is no later than its children\<close>
  "heap_from k h \<longleftrightarrow> (\<forall>j < length h. 0 < j \<longrightarrow> k \<le> hpar j \<longrightarrow> hkey h (hpar j) \<le> hkey h j)"

abbreviation heap_ok :: "lease_item list \<Rightarrow> bool" where
  "heap_ok h \<equiv> heap_from 0 h"

definition grand_ok :: "nat \<Rightarrow> lease_item list \<Rightarrow> nat \<Rightarrow> bool" where
  "grand_ok k h i \<longleftrightarrow>
     (0 < i \<longrightarrow> k \<le> hpar i \<longrightarrow>
      (\<forall>j < length h. 0 < j \<longrightarrow> hpar j = i \<longrightarrow> hkey h (hpar i) \<le> hkey h j))"

definition up_hole :: "nat \<Rightarrow> lease_item list \<Rightarrow> nat \<Rightarrow> bool" where
  \<comment> \<open>a heap but for the order between \<open>i\<close> and its parent\<close>
  "up_hole k h i \<longleftrightarrow>
     (\<forall>j < length h. 0 < j \<longrightarrow> k \<le> hpar j \<longrightarrow> j \<noteq> i \<longrightarrow> hkey h (hpar j) \<le> hkey h j) \<and>
     grand_ok k h i"

definition hole :: "nat \<Rightarrow> lease_item list \<Rightarrow> nat \<Rightarrow> bool" where
  \<comment> \<open>a heap but for the element at \<open>i\<close>, which may be anything\<close>
  "hole k h i \<longleftrightarrow>
     (\<forall>j < length h. 0 < j \<longrightarrow> k \<le> hpar j \<longrightarrow> j \<noteq> i \<longrightarrow> hpar j \<noteq> i \<longrightarrow> hkey h (hpar j) \<le> hkey h j) \<and>
     grand_ok k h i"

lemma smallest_of_spec:
  assumes "i < length h"
  shows "\<forall>j < length h. 0 < j \<longrightarrow> hpar j = i \<longrightarrow> hkey h (smallest_of h i) \<le> hkey h j"
    and "hkey h (smallest_of h i) \<le> hkey h i"
    and "smallest_of h i \<noteq> i \<Longrightarrow> 0 < smallest_of h i \<and> hpar (smallest_of h i) = i"
proof -
  have s: "smallest_of h i = i \<or> smallest_of h i = 2 * i + 1 \<or> smallest_of h i = 2 * i + 2"
    by (auto simp: smallest_of_def Let_def)
  then show "smallest_of h i \<noteq> i \<Longrightarrow> 0 < smallest_of h i \<and> hpar (smallest_of h i) = i" by auto
  show "hkey h (smallest_of h i) \<le> hkey h i"
    by (auto simp: smallest_of_def Let_def)
  have child: "2 * i + 1 < length h \<Longrightarrow> hkey h (smallest_of h i) \<le> hkey h (2 * i + 1)"
    "2 * i + 2 < length h \<Longrightarrow> hkey h (smallest_of h i) \<le> hkey h (2 * i + 2)"
    by (auto simp: smallest_of_def Let_def)
  show "\<forall>j < length h. 0 < j \<longrightarrow> hpar j = i \<longrightarrow> hkey h (smallest_of h i) \<le> hkey h j"
  proof (intro allI impI)
    fix j assume "j < length h" "0 < j" "hpar j = i"
    moreover from this have "j = 2 * i + 1 \<or> j = 2 * i + 2" by (simp only: par_eq_iff)
    ultimately show "hkey h (smallest_of h i) \<le> hkey h j" using child by (elim disjE) simp_all
  qed
qed

section \<open>bubbleDown\<close>

lemma hole_step:
  assumes "hole k h i" and "i < length h" and "k \<le> i" and "smallest_of h i \<noteq> i"
  shows "hole k (swap h i (smallest_of h i)) (smallest_of h i)"
    and "0 < i \<Longrightarrow> k \<le> hpar i \<Longrightarrow> hkey h (hpar i) \<le> hkey (swap h i (smallest_of h i)) i"
proof -
  let ?c = "smallest_of h i" let ?h = "swap h i ?c"
  have c: "i < ?c" "?c < length h" using smallest_of_cases [of h i] assms(4) by auto
  note sm = smallest_of_spec [OF assms(2)]
  have pc: "0 < ?c" "hpar ?c = i" using sm(3) assms(4) by auto
  have H: "\<And>j. j < length h \<Longrightarrow> 0 < j \<Longrightarrow> k \<le> hpar j \<Longrightarrow> j \<noteq> i \<Longrightarrow> hpar j \<noteq> i \<Longrightarrow> hkey h (hpar j) \<le> hkey h j"
    and G: "\<And>j. 0 < i \<Longrightarrow> k \<le> hpar i \<Longrightarrow> j < length h \<Longrightarrow> 0 < j \<Longrightarrow> hpar j = i \<Longrightarrow> hkey h (hpar i) \<le> hkey h j"
    using assms(1) by (auto simp: hole_def grand_ok_def)
  show up: "0 < i \<Longrightarrow> k \<le> hpar i \<Longrightarrow> hkey h (hpar i) \<le> hkey ?h i"
    using G [of ?c] c pc assms(2) by (simp add: nth_swap)
  have "hkey ?h (hpar j) \<le> hkey ?h j"
    if j: "j < length h" "0 < j" "k \<le> hpar j" "j \<noteq> ?c" "hpar j \<noteq> ?c" for j
  proof -
    have pj: "hpar j < length h" using j par_less [of j] by simp
    consider "j = i" | "j \<noteq> i" "hpar j = i" | "j \<noteq> i" "hpar j \<noteq> i" by blast
    then show ?thesis
    proof cases
      case 1
      then have "hpar j \<noteq> i" using par_less [of j] j by simp
      with 1 up j pj c assms(2) show ?thesis by (simp add: nth_swap)
    next
      case 2
      then show ?thesis using sm(1) j pj c assms(2) by (simp add: nth_swap)
    next
      case 3
      then show ?thesis using H [of j] j pj c assms(2) by (simp add: nth_swap)
    qed
  qed
  moreover have "grand_ok k ?h ?c"
    unfolding grand_ok_def
  proof (intro impI allI)
    fix j assume j: "j < length ?h" "0 < j" "hpar j = ?c"
    have "j \<noteq> i" "j \<noteq> ?c" using par_less [of j] j c by auto
    moreover have "hkey h ?c \<le> hkey h j" using H [of j] j c assms(3) \<open>j \<noteq> i\<close> by simp
    ultimately show "hkey ?h (hpar ?c) \<le> hkey ?h j" using pc j c assms(2) by (simp add: nth_swap)
  qed
  ultimately show "hole k ?h ?c" by (simp add: hole_def)
qed

lemma bubbleDown_frame:
  assumes "i < length h"
  shows "length (bubbleDown h i) = length h \<and> mset (bubbleDown h i) = mset h \<and>
    (\<forall>j < i. bubbleDown h i ! j = h ! j)"
  using assms
proof (induction h i rule: bubbleDown.induct)
  case (1 h i)
  show ?case
  proof (cases "smallest_of h i = i")
    case True
    then show ?thesis by (simp add: bubbleDown.simps)
  next
    case False
    then have "i < smallest_of h i" "smallest_of h i < length h"
      using smallest_of_cases [of h i] by auto
    with 1 False show ?thesis
      by (subst (1 2 3) bubbleDown.simps) (auto simp: nth_swap)
  qed
qed

lemma length_bubbleDown [simp]: "i < length h \<Longrightarrow> length (bubbleDown h i) = length h"
  using bubbleDown_frame by blast

lemma bubbleDown_lower:
  assumes "i < length h" and "b \<le> hkey h i"
    and "\<forall>j < length h. 0 < j \<longrightarrow> hpar j = i \<longrightarrow> b \<le> hkey h j"
  shows "b \<le> hkey (bubbleDown h i) i"
proof (cases "smallest_of h i = i")
  case True
  then show ?thesis using assms(2) by (simp add: bubbleDown.simps)
next
  case False
  then have c: "i < smallest_of h i" "smallest_of h i < length h"
    using smallest_of_cases [of h i] by auto
  have "bubbleDown h i ! i = swap h i (smallest_of h i) ! i"
    using bubbleDown_frame [of "smallest_of h i" "swap h i (smallest_of h i)"] c False
    by (subst bubbleDown.simps) simp
  then show ?thesis using c assms smallest_of_spec(3) [OF assms(1) False] by (simp add: nth_swap)
qed

lemma bubbleDown_up_hole:
  assumes "hole k h i" and "i < length h" and "k \<le> i"
  shows "up_hole k (bubbleDown h i) i"
  using assms
proof (induction h i rule: bubbleDown.induct)
  case (1 h i)
  note sm = smallest_of_spec [OF 1(3)]
  show ?case
  proof (cases "smallest_of h i = i")
    case True
    then show ?thesis using 1(2) sm(1) by (auto simp: bubbleDown.simps hole_def up_hole_def)
  next
    case False
    let ?c = "smallest_of h i" let ?h = "swap h i ?c" let ?r = "bubbleDown ?h ?c"
    have c: "i < ?c" "?c < length h" using smallest_of_cases [of h i] False by auto
    have pc: "0 < ?c" "hpar ?c = i" using sm(3) False by auto
    have step: "hole k ?h ?c" by (rule hole_step(1) [OF 1(2-4) False])
    have IH: "up_hole k ?r ?c" using 1(1) [OF False step] c 1(4) by simp
    have fr: "length ?r = length h" "\<And>j. j < ?c \<Longrightarrow> ?r ! j = ?h ! j"
      using bubbleDown_frame [of ?c ?h] c by simp_all
    have "hkey ?h i \<le> hkey ?r ?c"
    proof (rule bubbleDown_lower)
      show "hkey ?h i \<le> hkey ?h ?c" using sm(2) c 1(3) by (simp add: nth_swap)
      show "\<forall>j < length ?h. 0 < j \<longrightarrow> hpar j = ?c \<longrightarrow> hkey ?h i \<le> hkey ?h j"
        using step pc c 1(4) by (auto simp: hole_def grand_ok_def)
    qed (use c in simp)
    then have link_c: "hkey ?r (hpar ?c) \<le> hkey ?r ?c" using fr(2) [of i] c pc by simp
    have links: "hkey ?r (hpar j) \<le> hkey ?r j" if "j < length ?r" "0 < j" "k \<le> hpar j" for j
      using IH link_c that by (cases "j = ?c") (auto simp: up_hole_def)
    have "grand_ok k ?r i"
      unfolding grand_ok_def
    proof (intro impI allI)
      fix j assume j: "0 < i" "k \<le> hpar i" "j < length ?r" "0 < j" "hpar j = i"
      have "hkey ?r (hpar i) \<le> hkey ?r i" using links [of i] j fr 1(3) by simp
      also have "\<dots> \<le> hkey ?r j" using links [of j] j 1(4) by simp
      finally show "hkey ?r (hpar i) \<le> hkey ?r j" .
    qed
    with links show ?thesis using False by (subst bubbleDown.simps) (simp add: up_hole_def)
  qed
qed

section \<open>bubbleUp\<close>

lemma up_hole_step:
  assumes "up_hole 0 h i" and "i < length h" and "0 < i" and "hkey h i < hkey h (hpar i)"
  shows "up_hole 0 (swap h i (hpar i)) (hpar i)"
proof -
  let ?p = "hpar i" let ?h = "swap h i ?p"
  have p: "?p < i" "?p < length h" using par_less [of i] assms(2,3) by auto
  have U: "\<And>j. j < length h \<Longrightarrow> 0 < j \<Longrightarrow> j \<noteq> i \<Longrightarrow> hkey h (hpar j) \<le> hkey h j"
    and G: "\<And>j. j < length h \<Longrightarrow> 0 < j \<Longrightarrow> hpar j = i \<Longrightarrow> hkey h ?p \<le> hkey h j"
    using assms(1,3) by (auto simp: up_hole_def grand_ok_def)
  have links: "hkey ?h (hpar j) \<le> hkey ?h j" if j: "j < length h" "0 < j" "j \<noteq> ?p" for j
  proof -
    have pj: "hpar j < j" "hpar j < length h" using par_less [of j] j by auto
    consider "j = i" | "j \<noteq> i" "hpar j = i" | "j \<noteq> i" "hpar j = ?p" | "j \<noteq> i" "hpar j \<noteq> i" "hpar j \<noteq> ?p"
      by blast
    then show ?thesis
    proof cases
      case 1
      then show ?thesis using assms(2,4) p by (simp add: nth_swap)
    next
      case 2
      then show ?thesis using G [of j] j p assms(2) by (simp add: nth_swap)
    next
      case 3
      then show ?thesis using U [of j] j pj p assms(2,4) by (simp add: nth_swap)
    next
      case 4
      then show ?thesis using U [of j] j pj p assms(2) by (simp add: nth_swap)
    qed
  qed
  have grand: "grand_ok 0 ?h ?p"
    unfolding grand_ok_def
  proof (intro impI allI)
    fix j assume j: "0 < ?p" "j < length ?h" "0 < j" "hpar j = ?p"
    have pp: "hpar ?p < ?p" using par_less [OF j(1)] .
    have up: "hkey h (hpar ?p) \<le> hkey h ?p" using U [of ?p] j(1) p by simp
    show "hkey ?h (hpar ?p) \<le> hkey ?h j"
    proof (cases "j = i")
      case True
      then show ?thesis using up pp p assms(2) by (simp add: nth_swap)
    next
      case False
      then have "hkey h ?p \<le> hkey h j" using U [of j] j by simp
      with up have le: "hkey h (hpar ?p) \<le> hkey h j" by (rule order_trans)
      have "j \<noteq> ?p" using par_less [OF j(3)] j(4) by simp
      then have "?h ! j = h ! j" using False j(2) p(2) assms(2) by (simp add: nth_swap)
      moreover have "?h ! hpar ?p = h ! hpar ?p"
        using pp p assms(2) by (subst nth_swap) simp_all
      ultimately show ?thesis using le by simp
    qed
  qed
  show ?thesis
    unfolding up_hole_def length_swap using links grand by blast
qed

lemma bubbleUp_heap:
  assumes "i < length h"
  shows "length (bubbleUp h i) = length h \<and> mset (bubbleUp h i) = mset h \<and>
    (up_hole 0 h i \<longrightarrow> heap_ok (bubbleUp h i))"
  using assms
proof (induction h i rule: bubbleUp.induct)
  case (1 h i)
  show ?case
  proof (cases "0 < i \<and> hkey h i < hkey h (hpar i)")
    case True
    then have p: "hpar i < length h" using par_less [of i] 1(2) by auto
    have eq: "bubbleUp h i = bubbleUp (swap h i (hpar i)) (hpar i)"
      using True by (subst bubbleUp.simps) (simp add: Let_def)
    have "length (bubbleUp (swap h i (hpar i)) (hpar i)) = length h \<and>
        mset (bubbleUp (swap h i (hpar i)) (hpar i)) = mset h \<and>
        (up_hole 0 (swap h i (hpar i)) (hpar i) \<longrightarrow> heap_ok (bubbleUp (swap h i (hpar i)) (hpar i)))"
      using 1(1) [OF _ refl] True p 1(2) by simp
    then show ?thesis using up_hole_step [of h i] True 1(2) eq by simp
  next
    case False
    then have "bubbleUp h i = h" by (subst bubbleUp.simps) (auto simp: Let_def)
    then show ?thesis using False
      by (auto simp: up_hole_def heap_from_def not_less)
  qed
qed

lemma heap_ok_hole:
  assumes "heap_ok h" and "i < length h"
  shows "hole 0 (h[i := x]) i"
  unfolding hole_def grand_ok_def
proof (intro conjI impI allI)
  fix j assume "j < length (h[i := x])" "0 < j" "j \<noteq> i" "hpar j \<noteq> i"
  then show "hkey (h[i := x]) (hpar j) \<le> hkey (h[i := x]) j"
    using assms by (simp add: heap_from_def)
next
  fix j assume j: "0 < i" "j < length (h[i := x])" "0 < j" "hpar j = i"
  then have ne: "j \<noteq> i" "hpar i \<noteq> i" using par_less [of j] par_less [of i] by auto
  have "hkey h (hpar i) \<le> hkey h i" "hkey h i \<le> hkey h j"
    using assms j by (auto simp: heap_from_def)
  then show "hkey (h[i := x]) (hpar i) \<le> hkey (h[i := x]) j" using ne by simp
qed

definition sift :: "lease_item list \<Rightarrow> nat \<Rightarrow> lease_item list" where
  \<comment> \<open>\<open>le.bubbleDown(i); le.bubbleUp(i)\<close>\<close>
  "sift h i = bubbleUp (bubbleDown h i) i"

lemma sift_heap:
  assumes "hole 0 h i" and "i < length h"
  shows "heap_ok (sift h i)" and "mset (sift h i) = mset h" and "length (sift h i) = length h"
proof -
  have "up_hole 0 (bubbleDown h i) i" using assms by (intro bubbleDown_up_hole) simp_all
  then show "heap_ok (sift h i)" "mset (sift h i) = mset h" "length (sift h i) = length h"
    using bubbleUp_heap [of i "bubbleDown h i"] bubbleDown_frame [OF assms(2)] assms(2)
    by (simp_all add: sift_def)
qed

section \<open>The queue operations of the lease manager\<close>

definition heap_push :: "lease_item \<Rightarrow> lease_item list \<Rightarrow> lease_item list" where
  \<comment> \<open>the end of \<open>GrantUntil\<close>\<close>
  "heap_push item h = bubbleUp (h @ [item]) (length h)"

fun index_of :: "int \<Rightarrow> lease_item list \<Rightarrow> nat option" where
  \<comment> \<open>the \<open>for i, item := range le.heap\<close> search that stops at the first item with the id\<close>
  "index_of leaseId [] = None"
| "index_of leaseId (item # h) =
     (if i_ID item = leaseId then Some 0 else map_option Suc (index_of leaseId h))"

definition heap_update :: "int \<Rightarrow> int \<Rightarrow> lease_item list \<Rightarrow> lease_item list" where
  \<comment> \<open>the loop of \<open>KeepAliveUntil\<close>\<close>
  "heap_update leaseId expireAt h =
     (case index_of leaseId h of
        None \<Rightarrow> h
      | Some i \<Rightarrow> sift (h[i := (h ! i)\<lparr>i_expireAt := expireAt\<rparr>]) i)"

definition heap_remove_at :: "nat \<Rightarrow> lease_item list \<Rightarrow> lease_item list" where
  \<comment> \<open>the last item takes the place of the removed one, then the slice is cut\<close>
  "heap_remove_at i h = butlast (h[i := last h])"

definition heap_remove :: "int \<Rightarrow> lease_item list \<Rightarrow> lease_item list" where
  \<comment> \<open>the loop of \<open>revokeLeaseLocked\<close>\<close>
  "heap_remove leaseId h =
     (case index_of leaseId h of
        None \<Rightarrow> h
      | Some i \<Rightarrow>
          (let h' = heap_remove_at i h in if i < length h' then sift h' i else h'))"

definition heap_top :: "lease_item list \<Rightarrow> lease_item option" where
  \<comment> \<open>\<open>GetExpiringLease\<close>\<close>
  "heap_top h = (if length h = 0 then None else Some (h ! 0))"

definition heap_build :: "lease_item list \<Rightarrow> lease_item list" where
  \<comment> \<open>the end of \<open>Restore\<close>\<close>
  "heap_build h = heapify (length h div 2) h"

lemma index_of_SomeD: "index_of a h = Some i \<Longrightarrow> i < length h \<and> i_ID (h ! i) = a"
  by (induction h arbitrary: i) (auto split: if_splits)

lemma index_of_NoneD: "index_of a h = None \<Longrightarrow> \<forall>x \<in> set h. i_ID x \<noteq> a"
  by (induction h) (auto split: if_splits)

lemma heap_push_heap:
  assumes "heap_ok h"
  shows "heap_ok (heap_push x h)" and "mset (heap_push x h) = add_mset x (mset h)"
proof -
  have "up_hole 0 (h @ [x]) (length h)"
    unfolding up_hole_def grand_ok_def
  proof (intro conjI impI allI)
    fix j assume j: "j < length (h @ [x])" "0 < j" "j \<noteq> length h"
    then have "j < length h" "hpar j < length h" using par_less [of j] by auto
    then show "hkey (h @ [x]) (hpar j) \<le> hkey (h @ [x]) j"
      using assms j by (simp add: heap_from_def nth_append)
  next
    fix j assume "j < length (h @ [x])" "0 < j" "hpar j = length h"
    then show "hkey (h @ [x]) (hpar (length h)) \<le> hkey (h @ [x]) j" using par_less [of j] by auto
  qed
  then show "heap_ok (heap_push x h)" "mset (heap_push x h) = add_mset x (mset h)"
    using bubbleUp_heap [of "length h" "h @ [x]"] by (simp_all add: heap_push_def)
qed

lemma heap_ok_butlast: "heap_ok h \<Longrightarrow> heap_ok (butlast h)"
proof -
  assume h: "heap_ok h"
  have "hkey (butlast h) (hpar j) \<le> hkey (butlast h) j" if j: "j < length (butlast h)" "0 < j" for j
    using h j par_less [of j] by (simp add: heap_from_def nth_butlast)
  then show ?thesis by (simp add: heap_from_def)
qed

lemma hole_butlast:
  assumes "hole 0 h i" and "i < length (butlast h)"
  shows "hole 0 (butlast h) i"
proof -
  have "hkey (butlast h) (hpar j) = hkey h (hpar j)" "hkey (butlast h) j = hkey h j"
    if "j < length (butlast h)" "0 < j" for j
    using that par_less [of j] by (simp_all add: nth_butlast)
  moreover have "hkey (butlast h) (hpar i) = hkey h (hpar i)" if "0 < i"
    using that par_less [of i] assms(2) by (simp add: nth_butlast)
  ultimately show ?thesis using assms by (auto simp: hole_def grand_ok_def)
qed

lemma mset_remove_at: "i < length h \<Longrightarrow> mset (heap_remove_at i h) = mset h - {#h ! i#}"
proof -
  assume i: "i < length h"
  then obtain g z where h: "h = g @ [z]" by (cases h rule: rev_cases) auto
  show ?thesis
  proof (cases "i = length g")
    case True
    then show ?thesis by (simp add: h heap_remove_at_def)
  next
    case False
    with i have "i < length g" by (simp add: h)
    then show ?thesis
      by (simp add: h heap_remove_at_def list_update_append nth_append mset_update butlast_append)
  qed
qed

lemma length_remove_at [simp]: "length (heap_remove_at i h) = length h - 1"
  by (simp add: heap_remove_at_def)

lemma heap_remove_at_hole:
  assumes "heap_ok h" and "i < length h"
  shows "i < length (heap_remove_at i h) \<Longrightarrow> hole 0 (heap_remove_at i h) i"
    and "\<not> i < length (heap_remove_at i h) \<Longrightarrow> heap_ok (heap_remove_at i h)"
proof -
  show "hole 0 (heap_remove_at i h) i" if "i < length (heap_remove_at i h)"
    using that assms unfolding heap_remove_at_def by (intro hole_butlast heap_ok_hole) simp_all
  show "heap_ok (heap_remove_at i h)" if "\<not> i < length (heap_remove_at i h)"
  proof -
    from that assms(2) have i: "i = length h - 1" by (simp add: heap_remove_at_def) 
    then have "last h = h ! i" using assms(2) by (metis last_conv_nth length_0_conv less_nat_zero_code)
    then show ?thesis using assms(1) by (simp add: heap_remove_at_def heap_ok_butlast)
  qed
qed

lemma heapify_heap:
  assumes "heap_from i h" and "i \<le> length h"
  shows "heap_ok (heapify i h) \<and> mset (heapify i h) = mset h"
  using assms
proof (induction i arbitrary: h)
  case 0
  then show ?case by simp
next
  case (Suc i)
  have "hole i h i"
    unfolding hole_def grand_ok_def
  proof (intro conjI impI allI)
    fix j assume "j < length h" "0 < j" "i \<le> hpar j" "j \<noteq> i" "hpar j \<noteq> i"
    then show "hkey h (hpar j) \<le> hkey h j" using Suc.prems(1) by (simp add: heap_from_def)
  next
    fix j assume "0 < i" "i \<le> hpar i"
    then show "hkey h (hpar i) \<le> hkey h j" using par_less [of i] by simp
  qed
  then have "up_hole i (bubbleDown h i) i"
    using Suc.prems by (intro bubbleDown_up_hole) simp_all
  then have "heap_from i (bubbleDown h i)"
    using par_less [of i] by (auto simp: up_hole_def heap_from_def)
  then show ?case using Suc.IH [of "bubbleDown h i"] bubbleDown_frame [of i h] Suc.prems by simp
qed

lemma heap_build_heap: "heap_ok (heap_build h)" "mset (heap_build h) = mset h"
proof -
  have "heap_from (length h div 2) h" by (auto simp: heap_from_def)
  then show "heap_ok (heap_build h)" "mset (heap_build h) = mset h"
    using heapify_heap [of "length h div 2" h] by (simp_all add: heap_build_def)
qed

lemma heap_top_min:
  assumes "heap_ok h" and "i < length h"
  shows "hkey h 0 \<le> hkey h i"
  using assms(2)
proof (induction i rule: less_induct)
  case (less i)
  show ?case
  proof (cases "i = 0")
    case True
    then show ?thesis by simp
  next
    case False
    then have "hkey h 0 \<le> hkey h (hpar i)" using less par_less [of i] by simp
    also have "\<dots> \<le> hkey h i" using assms(1) less.prems False by (simp add: heap_from_def)
    finally show ?thesis .
  qed
qed

section \<open>The interface the lease manager relies on\<close>

text \<open>
  A queue of lease items, seen as the multiset of its items. The lemmas keep it in step
  with a table of expiry times and give the meaning of its top.
\<close>

definition items_of :: "(int \<rightharpoonup> int) \<Rightarrow> lease_item multiset" where
  "items_of m = image_mset (\<lambda>a. \<lparr>i_ID = a, i_expireAt = the (m a)\<rparr>) (mset_set (dom m))"

lemma items_of_upd_new:
  assumes "finite (dom m)" and "a \<notin> dom m"
  shows "items_of (m(a \<mapsto> e)) = add_mset \<lparr>i_ID = a, i_expireAt = e\<rparr> (items_of m)"
proof -
  have "image_mset (\<lambda>b. \<lparr>i_ID = b, i_expireAt = the ((m(a \<mapsto> e)) b)\<rparr>) (mset_set (dom m)) =
      image_mset (\<lambda>b. \<lparr>i_ID = b, i_expireAt = the (m b)\<rparr>) (mset_set (dom m))"
    using assms by (intro image_mset_cong) auto
  then show ?thesis using assms by (simp add: items_of_def)
qed

lemma items_of_remove:
  assumes "finite (dom m)"
  shows "items_of (m(a := None)) = filter_mset (\<lambda>x. i_ID x \<noteq> a) (items_of m)"
proof -
  have "filter_mset (\<lambda>x. i_ID x \<noteq> a) (items_of m) =
      image_mset (\<lambda>b. \<lparr>i_ID = b, i_expireAt = the (m b)\<rparr>) (filter_mset (\<lambda>b. b \<noteq> a) (mset_set (dom m)))"
    by (simp add: items_of_def filter_mset_image_mset)
  also have "filter_mset (\<lambda>b. b \<noteq> a) (mset_set (dom m)) = mset_set (dom m - {a})"
    using assms by (simp add: set_diff_eq)
  also have "image_mset (\<lambda>b. \<lparr>i_ID = b, i_expireAt = the (m b)\<rparr>) (mset_set (dom m - {a})) =
      items_of (m(a := None))"
    using assms by (auto simp: items_of_def intro!: image_mset_cong)
  finally show ?thesis by simp
qed

lemma items_of_change:
  assumes "finite (dom m)" and "a \<in> dom m"
  shows "items_of (m(a \<mapsto> e)) =
    image_mset (\<lambda>x. if i_ID x = a then x\<lparr>i_expireAt := e\<rparr> else x) (items_of m)"
  using assms by (auto simp: items_of_def image_mset.compositionality o_def insert_absorb intro!: image_mset_cong)

lemma mem_items_of:
  "finite (dom m) \<Longrightarrow> x \<in># items_of m \<longleftrightarrow> m (i_ID x) = Some (i_expireAt x)"
  by (cases x) (auto simp: items_of_def image_iff dom_def)

locale expiry_queue =
  fixes qinv :: "'q \<Rightarrow> bool"
    and items :: "'q \<Rightarrow> lease_item multiset"
    and push :: "lease_item \<Rightarrow> 'q \<Rightarrow> 'q"
    and change :: "int \<Rightarrow> int \<Rightarrow> 'q \<Rightarrow> 'q"
    and remove :: "int \<Rightarrow> 'q \<Rightarrow> 'q"
    and top :: "'q \<Rightarrow> lease_item option"
  assumes qinv_push: "qinv q \<Longrightarrow> qinv (push x q)"
    and items_push: "qinv q \<Longrightarrow> items (push x q) = add_mset x (items q)"
    and qinv_change: "qinv q \<Longrightarrow> qinv (change a e q)"
    and items_change: "qinv q \<Longrightarrow> items q = items_of m \<Longrightarrow> finite (dom m) \<Longrightarrow>
      items (change a e q) = image_mset (\<lambda>x. if i_ID x = a then x\<lparr>i_expireAt := e\<rparr> else x) (items q)"
    and qinv_remove: "qinv q \<Longrightarrow> qinv (remove a q)"
    and items_remove: "qinv q \<Longrightarrow> items q = items_of m \<Longrightarrow> finite (dom m) \<Longrightarrow>
      items (remove a q) = filter_mset (\<lambda>x. i_ID x \<noteq> a) (items q)"
    and top_None: "qinv q \<Longrightarrow> top q = None \<longleftrightarrow> items q = {#}"
    and top_Some: "qinv q \<Longrightarrow> top q = Some x \<Longrightarrow>
      x \<in># items q \<and> (\<forall>y \<in># items q. i_expireAt x \<le> i_expireAt y)"
begin

abbreviation sync :: "'q \<Rightarrow> (int \<rightharpoonup> int) \<Rightarrow> bool" where
  "sync q m \<equiv> qinv q \<and> finite (dom m) \<and> items q = items_of m"

lemma sync_push:
  "sync q m \<Longrightarrow> a \<notin> dom m \<Longrightarrow> sync (push \<lparr>i_ID = a, i_expireAt = e\<rparr> q) (m(a \<mapsto> e))"
  by (simp add: qinv_push items_push items_of_upd_new)

lemma sync_change: "sync q m \<Longrightarrow> a \<in> dom m \<Longrightarrow> sync (change a e q) (m(a \<mapsto> e))"
  by (simp add: qinv_change items_change items_of_change)

lemma sync_remove: "sync q m \<Longrightarrow> sync (remove a q) (m(a := None))"
  by (simp add: qinv_remove items_remove items_of_remove)

lemma sync_top_None: "sync q m \<Longrightarrow> top q = None \<longleftrightarrow> m = (\<lambda>_. None)"
  by (auto simp: top_None items_of_def mset_set_empty_iff dom_eq_empty_conv)

lemma sync_top_Some:
  assumes "sync q m" and "top q = Some x"
  shows "m (i_ID x) = Some (i_expireAt x)" and "m b = Some e \<Longrightarrow> i_expireAt x \<le> e"
proof -
  have "x \<in># items_of m" and min: "\<And>y. y \<in># items_of m \<Longrightarrow> i_expireAt x \<le> i_expireAt y"
    using assms top_Some [of q x] by auto
  then show "m (i_ID x) = Some (i_expireAt x)" using assms by (simp add: mem_items_of)
  show "i_expireAt x \<le> e" if "m b = Some e"
    using min [of "\<lparr>i_ID = b, i_expireAt = e\<rparr>"] that assms by (simp add: mem_items_of)
qed

end

section \<open>The slice implements the interface\<close>

lemma items_of_index:
  assumes "mset h = items_of m" and "finite (dom m)" and "index_of a h = Some i"
  shows "mset h = add_mset (h ! i) (filter_mset (\<lambda>x. i_ID x \<noteq> a) (mset h))"
proof -
  note i = index_of_SomeD [OF assms(3)]
  have mem: "h ! i \<in># items_of m" using i assms(1) by (metis nth_mem set_mset_mset)
  have ma: "m a = Some (i_expireAt (h ! i))" using mem i assms(2) by (simp add: mem_items_of)
  then have upd: "m = (m(a := None))(a \<mapsto> i_expireAt (h ! i))" by auto
  have x: "h ! i = \<lparr>i_ID = a, i_expireAt = i_expireAt (h ! i)\<rparr>" using i by simp
  have "items_of m = add_mset (h ! i) (items_of (m(a := None)))"
    using assms(2) x by (subst upd) (subst items_of_upd_new, simp_all)
  then show ?thesis using assms(1,2) by (simp add: items_of_remove)
qed

lemma mset_heap_remove:
  assumes "heap_ok h" and "mset h = items_of m" and "finite (dom m)"
  shows "mset (heap_remove a h) = filter_mset (\<lambda>x. i_ID x \<noteq> a) (mset h)"
proof (cases "index_of a h")
  case None
  have "filter (\<lambda>x. i_ID x \<noteq> a) h = h" using index_of_NoneD [OF None] by (intro filter_True) auto
  then show ?thesis using None by (simp add: heap_remove_def flip: mset_filter)
next
  case (Some i)
  then have i: "i < length h" using index_of_SomeD by blast
  have "mset (heap_remove a h) = mset (heap_remove_at i h)"
    using Some heap_remove_at_hole(1) [OF assms(1) i] sift_heap(2) [of "heap_remove_at i h" i]
    by (cases "i < length (heap_remove_at i h)") (simp_all add: heap_remove_def Let_def)
  also have "\<dots> = mset h - {#h ! i#}" by (rule mset_remove_at [OF i])
  also have "\<dots> = filter_mset (\<lambda>x. i_ID x \<noteq> a) (mset h)"
    using items_of_index [OF assms(2,3) Some] by (metis add_mset_remove_trivial)
  finally show ?thesis .
qed

lemma mset_heap_update:
  assumes "heap_ok h" and "mset h = items_of m" and "finite (dom m)"
  shows "mset (heap_update a e h) =
    image_mset (\<lambda>x. if i_ID x = a then x\<lparr>i_expireAt := e\<rparr> else x) (mset h)"
proof (cases "index_of a h")
  case None
  then have "image_mset (\<lambda>x. if i_ID x = a then x\<lparr>i_expireAt := e\<rparr> else x) (mset h) = image_mset id (mset h)"
    using index_of_NoneD [OF None] by (intro image_mset_cong) auto
  then show ?thesis using None by (simp add: heap_update_def)
next
  case (Some i)
  let ?f = "\<lambda>x. if i_ID x = a then x\<lparr>i_expireAt := e\<rparr> else x" and ?y = "(h ! i)\<lparr>i_expireAt := e\<rparr>"
  let ?rest = "filter_mset (\<lambda>x. i_ID x \<noteq> a) (mset h)"
  have i: "i < length h" "i_ID (h ! i) = a" using index_of_SomeD [OF Some] by auto
  note dec = items_of_index [OF assms(2,3) Some]
  have "mset (heap_update a e h) = mset (h[i := ?y])"
    using Some i heap_ok_hole [OF assms(1) i(1)] by (simp add: heap_update_def sift_heap(2))
  also have "\<dots> = add_mset ?y (mset h - {#h ! i#})" using i by (simp add: mset_update)
  also have "mset h - {#h ! i#} = ?rest" using dec by (metis add_mset_remove_trivial)
  also have "add_mset ?y ?rest = image_mset ?f (add_mset (h ! i) ?rest)"
  proof -
    have "image_mset ?f ?rest = image_mset id ?rest" by (intro image_mset_cong) auto
    then show ?thesis using i by simp
  qed
  also have "\<dots> = image_mset ?f (mset h)" using dec by simp
  finally show ?thesis .
qed

lemma heap_ok_update: "heap_ok h \<Longrightarrow> heap_ok (heap_update a e h)"
  using index_of_SomeD [of a h] by (auto simp: heap_update_def sift_heap heap_ok_hole split: option.split)

lemma heap_ok_remove: "heap_ok h \<Longrightarrow> heap_ok (heap_remove a h)"
  using index_of_SomeD [of a h] heap_remove_at_hole [of h]
  by (auto simp: heap_remove_def Let_def sift_heap split: option.split)

interpretation hq: expiry_queue heap_ok mset heap_push heap_update heap_remove heap_top
proof (unfold_locales, goal_cases)
  case (8 h x)
  then have "h \<noteq> []" and x: "x = h ! 0" by (auto simp: heap_top_def split: if_splits)
  moreover have "\<And>y. y \<in> set h \<Longrightarrow> i_expireAt (h ! 0) \<le> i_expireAt y"
    using heap_top_min [OF 8(1)] by (metis in_set_conv_nth)
  ultimately show ?case by simp
qed (simp_all add: heap_push_heap heap_ok_update mset_heap_update heap_ok_remove mset_heap_remove heap_top_def)

end
