(* ===== verification/Lease_Manager.thy ===== *)
theory Lease_Manager
  imports Lease_Heap
begin

text \<open>
  The \<open>LeaseManager\<close> of \<open>server/server.go\<close>: the table of leases together with the heap of
  expiry times, every operation on them, the invariant that the heap and the table agree,
  the abstract table that the manager implements and the round trip of its snapshot.
\<close>

section \<open>State\<close>

record lease =
  l_ID :: int
  l_TTL :: int
  l_expireAt :: int
  l_Keys :: "(string, string) gomap"

record lease_mgr =
  lm_leases :: "(int, lease) gomap"
  lm_leaseID :: int
  lm_heap :: "lease_item list"

record lease_state_entry =
  ls_ID :: int
  ls_TTL :: int
  ls_ExpireAt :: int
  ls_Keys :: "(string, string) gomap"

record lease_snapshot =
  ls_LeaseID :: int
  ls_Leases :: "lease_state_entry list"

datatype lease_error =
    InvalidLeaseEntry int
  | DuplicateLeaseEntry int
  | LeaseCounterBelow int int

section \<open>Operations\<close>

definition NewLeaseManager :: lease_mgr where
  "NewLeaseManager = \<lparr>lm_leases = [], lm_leaseID = 0, lm_heap = []\<rparr>"

definition Snapshot_leases :: "lease_mgr \<Rightarrow> lease_snapshot" where
  "Snapshot_leases le =
     \<lparr>ls_LeaseID = lm_leaseID le,
      ls_Leases = map (\<lambda>(_, l). \<lparr>ls_ID = l_ID l, ls_TTL = l_TTL l, ls_ExpireAt = l_expireAt l,
                                 ls_Keys = l_Keys l\<rparr>) (lm_leases le)\<rparr>"

fun Restore_entries ::
  "lease_state_entry list \<Rightarrow> (int, lease) gomap \<Rightarrow> lease_item list \<Rightarrow> int \<Rightarrow>
   lease_error + (int, lease) gomap \<times> lease_item list \<times> int" where
  \<comment> \<open>the loop of \<open>Restore\<close>\<close>
  "Restore_entries [] leases h maxLeaseID = Inr (leases, h, maxLeaseID)"
| "Restore_entries (entry # rest) leases h maxLeaseID =
     (if ls_ID entry \<le> 0 \<or> ls_TTL entry \<le> 0 \<or> ls_ExpireAt entry \<le> 0
      then Inl (InvalidLeaseEntry (ls_ID entry))
      else if map_of leases (ls_ID entry) \<noteq> None
      then Inl (DuplicateLeaseEntry (ls_ID entry))
      else Restore_entries rest
             (AList.update (ls_ID entry)
                \<lparr>l_ID = ls_ID entry, l_TTL = ls_TTL entry, l_expireAt = ls_ExpireAt entry,
                 l_Keys = ls_Keys entry\<rparr> leases)
             (h @ [\<lparr>i_ID = ls_ID entry, i_expireAt = ls_ExpireAt entry\<rparr>])
             (if ls_ID entry > maxLeaseID then ls_ID entry else maxLeaseID))"

definition Restore_leases :: "lease_mgr \<Rightarrow> lease_snapshot \<Rightarrow> lease_error + lease_mgr" where
  "Restore_leases le s =
     (case Restore_entries (ls_Leases s) [] [] 0 of
        Inl err \<Rightarrow> Inl err
      | Inr (leases, h, maxLeaseID) \<Rightarrow>
          if ls_LeaseID s < maxLeaseID then Inl (LeaseCounterBelow (ls_LeaseID s) maxLeaseID)
          else Inr (le\<lparr>lm_leaseID := ls_LeaseID s, lm_leases := leases, lm_heap := heap_build h\<rparr>))"

definition deadline :: "int \<Rightarrow> int \<Rightarrow> int" where
  \<comment> \<open>\<open>time.Now().UnixNano()+ttl*1e9\<close>, in \<open>int64\<close>\<close>
  "deadline now ttl = wrap64 (now + wrap64 (ttl * 1000000000))"

definition GrantUntil :: "lease_mgr \<Rightarrow> int \<Rightarrow> int \<Rightarrow> lease_mgr \<times> int" where
  "GrantUntil le ttl expireAt =
     (let id = lm_leaseID le + 1
      in (le\<lparr>lm_leaseID := id,
             lm_leases := AList.update id
               \<lparr>l_ID = id, l_TTL = ttl, l_expireAt = expireAt, l_Keys = []\<rparr> (lm_leases le),
             lm_heap := heap_push \<lparr>i_ID = id, i_expireAt = expireAt\<rparr> (lm_heap le)\<rparr>, id))"

definition Grant :: "int \<Rightarrow> lease_mgr \<Rightarrow> int \<Rightarrow> lease_mgr \<times> int" where
  "Grant now le ttl = GrantUntil le ttl (deadline now ttl)"

definition Attach :: "lease_mgr \<Rightarrow> int \<Rightarrow> string \<Rightarrow> string \<Rightarrow> lease_mgr" where
  "Attach le leaseId key val =
     (case map_of (lm_leases le) leaseId of
        None \<Rightarrow> le
      | Some l \<Rightarrow> le\<lparr>lm_leases :=
          AList.update leaseId (l\<lparr>l_Keys := AList.update key val (l_Keys l)\<rparr>) (lm_leases le)\<rparr>)"

definition Revoke :: "lease_mgr \<Rightarrow> string \<Rightarrow> lease_mgr \<times> int" where
  \<comment> \<open>the first lease, in iteration order, that holds the key loses it\<close>
  "Revoke le key =
     (case List.find (\<lambda>(_, l). map_of (l_Keys l) key \<noteq> None) (lm_leases le) of
        None \<Rightarrow> (le, 0)
      | Some (leaseId, l) \<Rightarrow>
          (le\<lparr>lm_leases := AList.update leaseId (l\<lparr>l_Keys := AList.delete key (l_Keys l)\<rparr>) (lm_leases le)\<rparr>,
           leaseId))"

definition GetLease :: "lease_mgr \<Rightarrow> int \<Rightarrow> lease option" where
  "GetLease le leaseId = map_of (lm_leases le) leaseId"

definition KeepAliveUntil :: "lease_mgr \<Rightarrow> int \<Rightarrow> int \<Rightarrow> int \<Rightarrow> lease_mgr \<times> bool" where
  "KeepAliveUntil le leaseId ttl expireAt =
     (case map_of (lm_leases le) leaseId of
        None \<Rightarrow> (le, False)
      | Some l \<Rightarrow>
          (le\<lparr>lm_leases := AList.update leaseId (l\<lparr>l_TTL := ttl, l_expireAt := expireAt\<rparr>) (lm_leases le),
              lm_heap := heap_update leaseId expireAt (lm_heap le)\<rparr>, True))"

definition KeepAlive :: "int \<Rightarrow> lease_mgr \<Rightarrow> int \<Rightarrow> int \<Rightarrow> lease_mgr \<times> bool" where
  "KeepAlive now le leaseId ttl = KeepAliveUntil le leaseId ttl (deadline now ttl)"

definition revokeLeaseLocked :: "lease_mgr \<Rightarrow> int \<Rightarrow> lease_mgr \<times> string list" where
  "revokeLeaseLocked le leaseId =
     (case map_of (lm_leases le) leaseId of
        None \<Rightarrow> (le, [])
      | Some l \<Rightarrow>
          (le\<lparr>lm_leases := AList.delete leaseId (lm_leases le),
              lm_heap := heap_remove leaseId (lm_heap le)\<rparr>, sort (map fst (l_Keys l))))"

definition RevokeLease :: "lease_mgr \<Rightarrow> int \<Rightarrow> lease_mgr \<times> string list" where
  "RevokeLease le leaseId = revokeLeaseLocked le leaseId"

definition RevokeLeaseIfMatches :: "lease_mgr \<Rightarrow> int \<Rightarrow> int \<Rightarrow> lease_mgr \<times> string list" where
  "RevokeLeaseIfMatches le leaseId expectedExpireAt =
     (case map_of (lm_leases le) leaseId of
        None \<Rightarrow> (le, [])
      | Some l \<Rightarrow>
          if l_expireAt l \<noteq> expectedExpireAt then (le, []) else revokeLeaseLocked le leaseId)"

definition GetExpiringLease :: "lease_mgr \<Rightarrow> lease_item option" where
  "GetExpiringLease le = heap_top (lm_heap le)"

definition RemoveExpiredLease :: "int \<Rightarrow> lease_mgr \<Rightarrow> lease_mgr \<times> string list \<times> int" where
  "RemoveExpiredLease now le =
     (if length (lm_heap le) = 0 then (le, [], 0)
      else let item = lm_heap le ! 0 in
        if i_expireAt item > now then (le, [], 0)
        else case map_of (lm_leases le) (i_ID item) of
               None \<Rightarrow> (le, [], 0)
             | Some l \<Rightarrow>
                 (let h = heap_remove_at 0 (lm_heap le)
                  in (le\<lparr>lm_leases := AList.delete (i_ID item) (lm_leases le),
                         lm_heap := (if length h > 0 then bubbleDown h 0 else h)\<rparr>,
                      map fst (l_Keys l), i_ID item)))"

section \<open>Invariant\<close>

declare map_of_eq_Some_iff [simp del]

definition expiries :: "(int, lease) gomap \<Rightarrow> int \<rightharpoonup> int" where
  "expiries leases a = map_option l_expireAt (map_of leases a)"

definition lease_ok :: "int \<Rightarrow> int \<Rightarrow> lease \<Rightarrow> bool" where
  "lease_ok n a l \<longleftrightarrow> l_ID l = a \<and> 0 < a \<and> a \<le> n \<and> gomap_wf (l_Keys l)"

definition lm_ok :: "lease_mgr \<Rightarrow> bool" where
  \<comment> \<open>ids come from the counter, and the heap holds exactly the leases with their expiry\<close>
  "lm_ok le \<longleftrightarrow>
     gomap_wf (lm_leases le) \<and> 0 \<le> lm_leaseID le \<and>
     (\<forall>(a, l) \<in> set (lm_leases le). lease_ok (lm_leaseID le) a l) \<and>
     heap_ok (lm_heap le) \<and> mset (lm_heap le) = items_of (expiries (lm_leases le))"

lemma finite_expiries [simp]: "finite (dom (expiries leases))"
  by (rule finite_subset [OF _ finite_dom_map_of [of leases]]) (auto simp: expiries_def)

lemma expiries_dom: "a \<in> dom (expiries leases) \<longleftrightarrow> map_of leases a \<noteq> None"
  by (simp add: domIff expiries_def)

lemma expiries_update: "expiries (AList.update a l m) = (expiries m)(a \<mapsto> l_expireAt l)"
  by (simp add: fun_eq_iff expiries_def map_of_gomap_update)

lemma expiries_delete: "expiries (AList.delete a m) = (expiries m)(a := None)"
  by (simp add: fun_eq_iff expiries_def map_of_gomap_delete)

lemma lm_ok_wf: "lm_ok le \<Longrightarrow> gomap_wf (lm_leases le)"
  by (simp add: lm_ok_def)

lemma lm_ok_counter: "lm_ok le \<Longrightarrow> 0 \<le> lm_leaseID le"
  by (simp add: lm_ok_def)

lemma lm_ok_lease:
  assumes "lm_ok le" and "map_of (lm_leases le) a = Some l"
  shows "lease_ok (lm_leaseID le) a l"
  using assms map_of_SomeD by (fastforce simp: lm_ok_def)

lemma lm_ok_sync: "lm_ok le \<Longrightarrow> hq.sync (lm_heap le) (expiries (lm_leases le))"
  by (simp add: lm_ok_def)

lemma lm_okI:
  assumes "gomap_wf (lm_leases le)" and "0 \<le> lm_leaseID le"
    and "hq.sync (lm_heap le) (expiries (lm_leases le))"
    and "\<And>a l. map_of (lm_leases le) a = Some l \<Longrightarrow> lease_ok (lm_leaseID le) a l"
  shows "lm_ok le"
proof -
  have "\<forall>(a, l) \<in> set (lm_leases le). lease_ok (lm_leaseID le) a l"
    using assms(4) map_of_is_SomeI [OF assms(1)] by blast
  then show ?thesis using assms(1-3) by (simp add: lm_ok_def)
qed

lemma lease_fresh:
  assumes "lm_ok le"
  shows "map_of (lm_leases le) (lm_leaseID le + 1) = None"
  using lm_ok_lease [OF assms, of "lm_leaseID le + 1"]
  by (cases "map_of (lm_leases le) (lm_leaseID le + 1)") (auto simp: lease_ok_def)

lemma lm_ok_New [wj_inv]: "lm_ok NewLeaseManager"
  by (simp add: NewLeaseManager_def lm_ok_def items_of_def heap_from_def expiries_def dom_def)

lemma lease_ok_mono: "lease_ok n a l \<Longrightarrow> n \<le> m \<Longrightarrow> lease_ok m a l"
  by (auto simp: lease_ok_def)

lemma lm_ok_GrantUntil [wj_inv]:
  assumes "lm_ok le"
  shows "lm_ok (fst (GrantUntil le ttl e))"
proof (rule lm_okI)
  let ?id = "lm_leaseID le + 1"
  have "?id \<notin> dom (expiries (lm_leases le))" using lease_fresh [OF assms] by (simp add: expiries_dom)
  from hq.sync_push [OF lm_ok_sync [OF assms] this]
  show "hq.sync (lm_heap (fst (GrantUntil le ttl e))) (expiries (lm_leases (fst (GrantUntil le ttl e))))"
    by (simp add: GrantUntil_def Let_def expiries_update)
  show "lease_ok (lm_leaseID (fst (GrantUntil le ttl e))) a l"
    if "map_of (lm_leases (fst (GrantUntil le ttl e))) a = Some l" for a l
  proof (cases "a = ?id")
    case True
    then show ?thesis using that lm_ok_counter [OF assms]
      by (auto simp: GrantUntil_def Let_def map_of_gomap_update lease_ok_def)
  next
    case False
    then have "map_of (lm_leases le) a = Some l"
      using that by (simp add: GrantUntil_def Let_def map_of_gomap_update)
    from lease_ok_mono [OF lm_ok_lease [OF assms this], of ?id]
    show ?thesis by (simp add: GrantUntil_def Let_def)
  qed
qed (use assms in \<open>simp_all add: GrantUntil_def Let_def lm_ok_wf lm_ok_counter\<close>)

lemma lm_ok_change_lease:
  \<comment> \<open>a lease is replaced by one with the same id, and the heap follows its expiry\<close>
  assumes "lm_ok le" and "map_of (lm_leases le) a = Some l"
    and "l_ID l' = l_ID l" and "gomap_wf (l_Keys l')"
    and "hq.sync h ((expiries (lm_leases le))(a \<mapsto> l_expireAt l'))"
  shows "lm_ok (le\<lparr>lm_leases := AList.update a l' (lm_leases le), lm_heap := h\<rparr>)"
proof (rule lm_okI)
  fix b m
  assume "map_of (lm_leases (le\<lparr>lm_leases := AList.update a l' (lm_leases le), lm_heap := h\<rparr>)) b = Some m"
  then have "b = a \<and> m = l' \<or> map_of (lm_leases le) b = Some m"
    by (simp add: map_of_gomap_update split: if_splits)
  then show "lease_ok (lm_leaseID (le\<lparr>lm_leases := AList.update a l' (lm_leases le), lm_heap := h\<rparr>)) b m"
    using lm_ok_lease [OF assms(1)] assms(2-4) by (auto simp: lease_ok_def)
qed (use assms in \<open>simp_all add: lm_ok_wf lm_ok_counter expiries_update\<close>)

lemma lm_ok_change_keys:
  assumes "lm_ok le" and "map_of (lm_leases le) a = Some l" and "gomap_wf ks"
  shows "lm_ok (le\<lparr>lm_leases := AList.update a (l\<lparr>l_Keys := ks\<rparr>) (lm_leases le)\<rparr>)"
proof -
  have "(expiries (lm_leases le))(a \<mapsto> l_expireAt l) = expiries (lm_leases le)"
    using assms(2) by (auto simp: expiries_def)
  then have "hq.sync (lm_heap le) ((expiries (lm_leases le))(a \<mapsto> l_expireAt (l\<lparr>l_Keys := ks\<rparr>)))"
    using lm_ok_sync [OF assms(1)] by simp
  from lm_ok_change_lease [OF assms(1,2) _ _ this] assms(3) show ?thesis by simp
qed

lemma lease_keys_wf: "lm_ok le \<Longrightarrow> map_of (lm_leases le) a = Some l \<Longrightarrow> gomap_wf (l_Keys l)"
  using lm_ok_lease by (auto simp: lease_ok_def)

lemma lm_ok_Attach [wj_inv]:
  assumes "lm_ok le"
  shows "lm_ok (Attach le a k v)"
proof (cases "map_of (lm_leases le) a")
  case None
  then show ?thesis using assms by (simp add: Attach_def)
next
  case (Some l)
  from lm_ok_change_keys [OF assms this] lease_keys_wf [OF assms this]
  show ?thesis using Some by (simp add: Attach_def)
qed

lemma Revoke_cases:
  assumes "lm_ok le"
  obtains (none) "Revoke le k = (le, 0)" "\<And>a l. map_of (lm_leases le) a = Some l \<Longrightarrow> map_of (l_Keys l) k = None"
  | (some) a l where "map_of (lm_leases le) a = Some l" "map_of (l_Keys l) k \<noteq> None"
      "Revoke le k = (le\<lparr>lm_leases := AList.update a (l\<lparr>l_Keys := AList.delete k (l_Keys l)\<rparr>) (lm_leases le)\<rparr>, a)"
proof (cases "List.find (\<lambda>(_, l). map_of (l_Keys l) k \<noteq> None) (lm_leases le)")
  case None
  show thesis
  proof (rule none)
    show "Revoke le k = (le, 0)" using None by (simp add: Revoke_def)
    show "map_of (l_Keys l) k = None" if "map_of (lm_leases le) a = Some l" for a l
      using None map_of_SomeD [OF that] unfolding find_None_iff by fastforce
  qed
next
  case (Some p)
  obtain a l where p: "p = (a, l)" by (cases p)
  have "p \<in> set (lm_leases le)" and "case p of (_, l) \<Rightarrow> map_of (l_Keys l) k \<noteq> None"
    using find_SomeD [OF Some] by simp_all
  then have mem: "(a, l) \<in> set (lm_leases le)" and held: "map_of (l_Keys l) k \<noteq> None"
    using p by simp_all
  have "map_of (lm_leases le) a = Some l" using mem assms gomap_mem_iff lm_ok_wf by metis
  then show thesis using Some p held by (intro some) (simp_all add: Revoke_def)
qed

lemma lm_ok_Revoke [wj_inv]:
  assumes "lm_ok le"
  shows "lm_ok (fst (Revoke le k))"
  using assms
proof (cases rule: Revoke_cases [of le k])
  case none
  then show ?thesis using assms by simp
next
  case (some a l)
  from lm_ok_change_keys [OF assms some(1)] lease_keys_wf [OF assms some(1)]
  show ?thesis using some(3) by simp
qed

lemma lm_ok_KeepAliveUntil [wj_inv]:
  assumes "lm_ok le"
  shows "lm_ok (fst (KeepAliveUntil le a ttl e))"
proof (cases "map_of (lm_leases le) a")
  case None
  then show ?thesis using assms by (simp add: KeepAliveUntil_def)
next
  case (Some l)
  have "a \<in> dom (expiries (lm_leases le))" using Some by (simp add: expiries_dom)
  from hq.sync_change [OF lm_ok_sync [OF assms] this, of e]
  have "lm_ok (le\<lparr>lm_leases := AList.update a (l\<lparr>l_TTL := ttl, l_expireAt := e\<rparr>) (lm_leases le),
      lm_heap := heap_update a e (lm_heap le)\<rparr>)"
    using lease_keys_wf [OF assms Some] by (intro lm_ok_change_lease [OF assms Some]) simp_all
  then show ?thesis using Some by (simp add: KeepAliveUntil_def)
qed

lemma lm_ok_drop_lease:
  assumes "lm_ok le" and "hq.sync h ((expiries (lm_leases le))(a := None))"
  shows "lm_ok (le\<lparr>lm_leases := AList.delete a (lm_leases le), lm_heap := h\<rparr>)"
proof (rule lm_okI)
  show "gomap_wf (lm_leases (le\<lparr>lm_leases := AList.delete a (lm_leases le), lm_heap := h\<rparr>))"
    using lm_ok_wf [OF assms(1)] by simp
  show "0 \<le> lm_leaseID (le\<lparr>lm_leases := AList.delete a (lm_leases le), lm_heap := h\<rparr>)"
    using lm_ok_counter [OF assms(1)] by simp
  show "hq.sync (lm_heap (le\<lparr>lm_leases := AList.delete a (lm_leases le), lm_heap := h\<rparr>))
      (expiries (lm_leases (le\<lparr>lm_leases := AList.delete a (lm_leases le), lm_heap := h\<rparr>)))"
    using assms(2) by (simp add: expiries_delete)
next
  fix b m
  assume "map_of (lm_leases (le\<lparr>lm_leases := AList.delete a (lm_leases le), lm_heap := h\<rparr>)) b = Some m"
  then have "map_of (lm_leases le) b = Some m" by (simp add: map_of_gomap_delete split: if_splits)
  then show "lease_ok (lm_leaseID (le\<lparr>lm_leases := AList.delete a (lm_leases le), lm_heap := h\<rparr>)) b m"
    using lm_ok_lease [OF assms(1)] by simp
qed

lemma lm_ok_revokeLeaseLocked [wj_inv]:
  assumes "lm_ok le"
  shows "lm_ok (fst (revokeLeaseLocked le a))"
proof (cases "map_of (lm_leases le) a")
  case None
  then show ?thesis using assms by (simp add: revokeLeaseLocked_def)
next
  case (Some l)
  have "hq.sync (heap_remove a (lm_heap le)) ((expiries (lm_leases le))(a := None))"
    by (rule hq.sync_remove [OF lm_ok_sync [OF assms]])
  from lm_ok_drop_lease [OF assms this] show ?thesis using Some by (simp add: revokeLeaseLocked_def)
qed

lemma lm_ok_RevokeLeaseIfMatches [wj_inv]: "lm_ok le \<Longrightarrow> lm_ok (fst (RevokeLeaseIfMatches le a e))"
  by (auto simp: RevokeLeaseIfMatches_def lm_ok_revokeLeaseLocked split: option.split)

lemma sift_root: "sift h 0 = bubbleDown h 0"
  by (simp add: sift_def bubbleUp.simps [of _ 0])

lemma RemoveExpired_revoke:
  \<comment> \<open>removing the expired root is revoking the lease it names\<close>
  assumes "lm_ok le"
  shows "fst (RemoveExpiredLease now le) =
    (case GetExpiringLease le of
       None \<Rightarrow> le
     | Some item \<Rightarrow> if i_expireAt item > now then le else fst (revokeLeaseLocked le (i_ID item)))"
proof (cases "lm_heap le = []")
  case True
  then show ?thesis by (simp add: RemoveExpiredLease_def GetExpiringLease_def heap_top_def)
next
  case False
  let ?x = "lm_heap le ! 0"
  have top: "heap_top (lm_heap le) = Some ?x" using False by (simp add: heap_top_def)
  obtain l where l: "map_of (lm_leases le) (i_ID ?x) = Some l"
    using hq.sync_top_Some(1) [OF lm_ok_sync [OF assms] top] by (auto simp: expiries_def)
  have idx: "index_of (i_ID ?x) (lm_heap le) = Some 0"
    using False by (cases "lm_heap le") simp_all
  have h: "heap_remove (i_ID ?x) (lm_heap le) =
      (if length (heap_remove_at 0 (lm_heap le)) > 0 then bubbleDown (heap_remove_at 0 (lm_heap le)) 0
       else heap_remove_at 0 (lm_heap le))"
    using idx by (simp add: heap_remove_def Let_def sift_root del: length_greater_0_conv)
  show ?thesis
    using False top l
    by (simp add: RemoveExpiredLease_def GetExpiringLease_def revokeLeaseLocked_def Let_def h
        del: length_greater_0_conv)
qed

lemma lm_ok_RemoveExpired [wj_inv]: "lm_ok le \<Longrightarrow> lm_ok (fst (RemoveExpiredLease now le))"
  by (auto simp: RemoveExpired_revoke lm_ok_revokeLeaseLocked split: option.split)

section \<open>The table the manager implements\<close>

type_synonym lease_table = "int \<rightharpoonup> int \<times> int \<times> (string \<rightharpoonup> string)"

definition lease_view :: "lease_mgr \<Rightarrow> lease_table" where
  "lease_view le a = map_option (\<lambda>l. (l_TTL l, l_expireAt l, map_of (l_Keys l))) (map_of (lm_leases le) a)"

definition single_holder :: "lease_mgr \<Rightarrow> bool" where
  \<comment> \<open>no key is attached to two leases\<close>
  "single_holder le \<longleftrightarrow>
     (\<forall>(a, l) \<in> set (lm_leases le). \<forall>(b, m) \<in> set (lm_leases le). \<forall>k \<in> gomap_keys (l_Keys l).
        k \<in> gomap_keys (l_Keys m) \<longrightarrow> a = b)"

lemma single_holderD:
  assumes "single_holder le" and "map_of (lm_leases le) a = Some l" and "map_of (lm_leases le) b = Some m"
    and "map_of (l_Keys l) k \<noteq> None" and "map_of (l_Keys m) k \<noteq> None"
  shows "a = b"
proof -
  have "k \<in> gomap_keys (l_Keys l)" "k \<in> gomap_keys (l_Keys m)"
    using assms(4,5) by (metis map_of_eq_None_iff)+
  moreover have "\<forall>k \<in> gomap_keys (l_Keys l). k \<in> gomap_keys (l_Keys m) \<longrightarrow> a = b"
    using bspec [OF assms(1) [unfolded single_holder_def] map_of_SomeD [OF assms(2)]]
      map_of_SomeD [OF assms(3)] by (simp only: prod.case) (drule bspec, assumption, simp only: prod.case)
  ultimately show ?thesis by blast
qed

lemma view_GrantUntil:
  "lease_view (fst (GrantUntil le ttl e)) = (lease_view le)(lm_leaseID le + 1 \<mapsto> (ttl, e, Map.empty))"
  by (simp add: fun_eq_iff lease_view_def GrantUntil_def Let_def map_of_gomap_update)

lemma view_Attach:
  "lease_view (Attach le a k v) =
    (case lease_view le a of None \<Rightarrow> lease_view le
     | Some (ttl, e, ks) \<Rightarrow> (lease_view le)(a \<mapsto> (ttl, e, ks(k \<mapsto> v))))"
  by (cases "map_of (lm_leases le) a")
    (auto simp: fun_eq_iff lease_view_def Attach_def map_of_gomap_update)

lemma view_Revoke:
  assumes "lm_ok le" and "single_holder le"
  shows "lease_view (fst (Revoke le k)) =
    (\<lambda>a. map_option (\<lambda>(ttl, e, ks). (ttl, e, ks(k := None))) (lease_view le a))"
  using assms(1)
proof (cases rule: Revoke_cases [of le k])
  case none
  have "map_option f (map_of (lm_leases le) b) = map_option g (map_option f (map_of (lm_leases le) b))"
    if "f = (\<lambda>l. (l_TTL l, l_expireAt l, map_of (l_Keys l)))" and "g = (\<lambda>(ttl, e, ks). (ttl, e, ks(k := None)))"
    for b f and g :: "int \<times> int \<times> (string \<rightharpoonup> string) \<Rightarrow> int \<times> int \<times> (string \<rightharpoonup> string)"
    using none(2) [of b] that by (cases "map_of (lm_leases le) b") (simp_all add: fun_upd_idem)
  then show ?thesis using none(1) by (simp add: fun_eq_iff lease_view_def)
next
  case (some a l)
  have other: "map_of (l_Keys m) k = None" if "map_of (lm_leases le) b = Some m" "b \<noteq> a" for b m
    using single_holderD [OF assms(2) some(1) that(1)] some(2) that(2) by blast
  show ?thesis
  proof
    fix b
    show "lease_view (fst (Revoke le k)) b =
        map_option (\<lambda>(ttl, e, ks). (ttl, e, ks(k := None))) (lease_view le b)"
    proof (cases "b = a")
      case True
      then show ?thesis using some by (auto simp: lease_view_def map_of_gomap_update map_of_gomap_delete)
    next
      case False
      then show ?thesis using some(3) other [of b]
        by (cases "map_of (lm_leases le) b") (auto simp: lease_view_def map_of_gomap_update)
    qed
  qed
qed

lemma view_KeepAliveUntil:
  "lease_view (fst (KeepAliveUntil le a ttl e)) =
    (case lease_view le a of None \<Rightarrow> lease_view le
     | Some (_, _, ks) \<Rightarrow> (lease_view le)(a \<mapsto> (ttl, e, ks)))"
  by (cases "map_of (lm_leases le) a")
    (auto simp: fun_eq_iff lease_view_def KeepAliveUntil_def map_of_gomap_update)

lemma view_revokeLeaseLocked:
  "lease_view (fst (revokeLeaseLocked le a)) = (lease_view le)(a := None)"
  by (cases "map_of (lm_leases le) a")
    (auto simp: fun_eq_iff lease_view_def revokeLeaseLocked_def map_of_gomap_delete)

lemmas lease_views = view_GrantUntil view_Attach view_Revoke view_KeepAliveUntil view_revokeLeaseLocked

section \<open>Snapshot and restore\<close>

definition entry_lease :: "lease_state_entry \<Rightarrow> int \<times> lease" where
  "entry_lease entry = (ls_ID entry, \<lparr>l_ID = ls_ID entry, l_TTL = ls_TTL entry,
     l_expireAt = ls_ExpireAt entry, l_Keys = ls_Keys entry\<rparr>)"

definition lease_entry :: "int \<times> lease \<Rightarrow> lease_state_entry" where
  "lease_entry = (\<lambda>(_, l). \<lparr>ls_ID = l_ID l, ls_TTL = l_TTL l, ls_ExpireAt = l_expireAt l,
     ls_Keys = l_Keys l\<rparr>)"

definition entry_item :: "lease_state_entry \<Rightarrow> lease_item" where
  "entry_item entry = \<lparr>i_ID = ls_ID entry, i_expireAt = ls_ExpireAt entry\<rparr>"

definition entry_valid :: "lease_state_entry \<Rightarrow> bool" where
  "entry_valid entry \<longleftrightarrow> 0 < ls_ID entry \<and> 0 < ls_TTL entry \<and> 0 < ls_ExpireAt entry"

definition snapshot_valid :: "lease_snapshot \<Rightarrow> bool" where
  \<comment> \<open>what \<open>Restore\<close> accepts\<close>
  "snapshot_valid s \<longleftrightarrow>
     (\<forall>entry \<in> set (ls_Leases s). entry_valid entry \<and> ls_ID entry \<le> ls_LeaseID s) \<and>
     distinct (map ls_ID (ls_Leases s)) \<and> 0 \<le> ls_LeaseID s"

lemma Restore_entries_Inr:
  "Restore_entries es leases h mx = Inr (leases', h', mx') \<longleftrightarrow>
     (\<forall>e \<in> set es. entry_valid e \<and> map_of leases (ls_ID e) = None) \<and> distinct (map ls_ID es) \<and>
     leases' = leases @ map entry_lease es \<and> h' = h @ map entry_item es \<and>
     mx' = fold max (map ls_ID es) mx"
proof (induction es arbitrary: leases h mx)
  case (Cons e es)
  let ?ok = "entry_valid e \<and> map_of leases (ls_ID e) = None"
  have max: "(if ls_ID e > mx then ls_ID e else mx) = max (ls_ID e) mx" by simp
  show ?case
  proof (cases ?ok)
    case True
    then have step: "Restore_entries (e # es) leases h mx =
        Restore_entries es (leases @ [entry_lease e]) (h @ [entry_item e]) (max (ls_ID e) mx)"
      by (simp add: entry_valid_def not_le gomap_update_fresh entry_lease_def entry_item_def max)
    have fresh: "map_of (leases @ [entry_lease e]) a = None \<longleftrightarrow> map_of leases a = None \<and> a \<noteq> ls_ID e" for a
      by (auto simp: map_add_def entry_lease_def split: option.split)
    show ?thesis using True unfolding step Cons.IH fresh
      by (simp add: image_iff) (metis (full_types))
  next
    case False
    then have "\<exists>err. Restore_entries (e # es) leases h mx = Inl err"
      by (auto simp: entry_valid_def not_less)
    then show ?thesis using False by auto
  qed
qed auto

lemma Restore_leases_iff:
  "Restore_leases le s = Inr le' \<longleftrightarrow>
     snapshot_valid s \<and>
     le' = le\<lparr>lm_leaseID := ls_LeaseID s, lm_leases := map entry_lease (ls_Leases s),
              lm_heap := heap_build (map entry_item (ls_Leases s))\<rparr>"
proof (cases "Restore_entries (ls_Leases s) [] [] 0")
  case (Inl err)
  then have "\<not> ((\<forall>e \<in> set (ls_Leases s). entry_valid e) \<and> distinct (map ls_ID (ls_Leases s)))"
    using Restore_entries_Inr [of "ls_Leases s" "[]" "[]" 0] by auto
  then show ?thesis using Inl by (auto simp: Restore_leases_def snapshot_valid_def)
next
  case (Inr r)
  obtain leases h mx where r: "r = (leases, h, mx)" by (cases r)
  note p = Inr [unfolded r Restore_entries_Inr]
  have "mx \<le> ls_LeaseID s \<longleftrightarrow> 0 \<le> ls_LeaseID s \<and> (\<forall>e \<in> set (ls_Leases s). ls_ID e \<le> ls_LeaseID s)"
    using p by (simp add: fold_max_le)
  then show ?thesis using Inr p r by (auto simp: Restore_leases_def snapshot_valid_def not_less)
qed

lemma items_of_leases:
  "gomap_wf leases \<Longrightarrow> items_of (expiries leases) = mset (map (\<lambda>(a, l). \<lparr>i_ID = a, i_expireAt = l_expireAt l\<rparr>) leases)"
proof (induction leases)
  case Nil
  then show ?case by (simp add: items_of_def expiries_def dom_def)
next
  case (Cons p leases)
  obtain a l where p: "p = (a, l)" by (cases p)
  have "expiries (p # leases) = (expiries leases)(a \<mapsto> l_expireAt l)"
    using p by (auto simp: expiries_def)
  moreover have "a \<notin> dom (expiries leases)"
    using Cons.prems p by (simp add: expiries_dom map_of_eq_None_iff)
  ultimately have "items_of (expiries (p # leases)) =
      add_mset \<lparr>i_ID = a, i_expireAt = l_expireAt l\<rparr> (items_of (expiries leases))"
    using items_of_upd_new [OF finite_expiries] by presburger
  then show ?case using Cons p by simp
qed

lemma lm_ok_Restore [wj_inv]:
  assumes "Restore_leases le s = Inr le'" and "\<forall>entry \<in> set (ls_Leases s). gomap_wf (ls_Keys entry)"
  shows "lm_ok le'"
proof -
  let ?es = "ls_Leases s"
  from assms(1) have s: "snapshot_valid s"
    and le': "lm_leaseID le' = ls_LeaseID s" "lm_leases le' = map entry_lease ?es"
      "lm_heap le' = heap_build (map entry_item ?es)"
    unfolding Restore_leases_iff by simp_all
  have fst: "map fst (map entry_lease ?es) = map ls_ID ?es" by (simp add: entry_lease_def)
  have "gomap_wf (map entry_lease ?es)" unfolding fst using s by (simp add: snapshot_valid_def)
  then have "mset (map entry_item ?es) = items_of (expiries (map entry_lease ?es))"
    by (simp add: items_of_leases entry_lease_def entry_item_def [abs_def] o_def)
  then show ?thesis
    using s assms(2) \<open>gomap_wf (map entry_lease ?es)\<close>
    by (auto simp: lm_ok_def le' heap_build_heap snapshot_valid_def entry_valid_def lease_ok_def entry_lease_def)
qed

section \<open>Operations as a command language, and their specification\<close>

datatype lease_op =
    OpGrant int int
  | OpAttach int string string
  | OpRevokeKey string
  | OpKeepAlive int int int
  | OpRevokeLease int
  | OpRevokeIfMatches int int
  | OpRemoveExpired int

fun lease_step :: "lease_op \<Rightarrow> lease_mgr \<Rightarrow> lease_mgr" where
  "lease_step (OpGrant ttl e) le = fst (GrantUntil le ttl e)"
| "lease_step (OpAttach a k v) le = Attach le a k v"
| "lease_step (OpRevokeKey k) le = fst (Revoke le k)"
| "lease_step (OpKeepAlive a ttl e) le = fst (KeepAliveUntil le a ttl e)"
| "lease_step (OpRevokeLease a) le = fst (RevokeLease le a)"
| "lease_step (OpRevokeIfMatches a e) le = fst (RevokeLeaseIfMatches le a e)"
| "lease_step (OpRemoveExpired now) le = fst (RemoveExpiredLease now le)"

definition run_leases :: "lease_op list \<Rightarrow> lease_mgr" where
  "run_leases ops = fold lease_step ops NewLeaseManager"

fun spec_lease :: "lease_op \<Rightarrow> lease_table \<times> int \<Rightarrow> lease_table \<times> int" where
  "spec_lease (OpGrant ttl e) (t, n) = (t(n + 1 \<mapsto> (ttl, e, Map.empty)), n + 1)"
| "spec_lease (OpAttach a k v) (t, n) =
     (case t a of None \<Rightarrow> t | Some (ttl, e, ks) \<Rightarrow> t(a \<mapsto> (ttl, e, ks(k \<mapsto> v))), n)"
| "spec_lease (OpRevokeKey k) (t, n) =
     (\<lambda>a. map_option (\<lambda>(ttl, e, ks). (ttl, e, ks(k := None))) (t a), n)"
| "spec_lease (OpKeepAlive a ttl e) (t, n) =
     (case t a of None \<Rightarrow> t | Some (_, _, ks) \<Rightarrow> t(a \<mapsto> (ttl, e, ks)), n)"
| "spec_lease (OpRevokeLease a) (t, n) = (t(a := None), n)"
| "spec_lease (OpRevokeIfMatches a e) (t, n) =
     (case t a of None \<Rightarrow> t | Some (_, e', _) \<Rightarrow> if e' = e then t(a := None) else t, n)"
| "spec_lease (OpRemoveExpired now) (t, n) = (t, n)"

lemma lm_ok_step [wj_inv]: "lm_ok le \<Longrightarrow> lm_ok (lease_step op le)"
  by (cases op) (simp_all add: wj_inv RevokeLease_def)

lemma lm_ok_run: "lm_ok (run_leases ops)"
  unfolding run_leases_def by (rule fold_invariant) (simp_all add: lm_ok_New lm_ok_step)

lemma GetExpiringLease_earliest:
  assumes "lm_ok le"
  shows "GetExpiringLease le = None \<longleftrightarrow> lm_leases le = []"
    and "GetExpiringLease le = Some item \<Longrightarrow>
      \<exists>l. GetLease le (i_ID item) = Some l \<and> l_expireAt l = i_expireAt item"
    and "GetExpiringLease le = Some item \<Longrightarrow> GetLease le a = Some l \<Longrightarrow> i_expireAt item \<le> l_expireAt l"
proof -
  have "expiries (lm_leases le) = (\<lambda>_. None) \<longleftrightarrow> lm_leases le = []"
    by (cases "lm_leases le") (auto simp: expiries_def fun_eq_iff)
  then show "GetExpiringLease le = None \<longleftrightarrow> lm_leases le = []"
    using hq.sync_top_None [OF lm_ok_sync [OF assms]] by (simp add: GetExpiringLease_def)
  show "\<exists>l. GetLease le (i_ID item) = Some l \<and> l_expireAt l = i_expireAt item"
    if "GetExpiringLease le = Some item"
    using hq.sync_top_Some(1) [OF lm_ok_sync [OF assms]] that
    by (auto simp: GetExpiringLease_def GetLease_def expiries_def)
  show "i_expireAt item \<le> l_expireAt l"
    if "GetExpiringLease le = Some item" "GetLease le a = Some l"
    using hq.sync_top_Some(2) [OF lm_ok_sync [OF assms], of item a "l_expireAt l"] that
    by (simp add: GetExpiringLease_def GetLease_def expiries_def)
qed

lemma lm_counter:
  "lm_leaseID (fst (GrantUntil le ttl e)) = lm_leaseID le + 1"
  "lm_leaseID (Attach le a k v) = lm_leaseID le"
  "lm_leaseID (fst (Revoke le k)) = lm_leaseID le"
  "lm_leaseID (fst (KeepAliveUntil le a ttl e)) = lm_leaseID le"
  "lm_leaseID (fst (revokeLeaseLocked le a)) = lm_leaseID le"
  by (simp_all add: GrantUntil_def Let_def Attach_def Revoke_def KeepAliveUntil_def
      revokeLeaseLocked_def split: option.split prod.split)

section \<open>Properties\<close>

text \<open>
  C17: the expiry heap and the lease table never disagree. After any sequence of lease
  operations the invariant holds, \<open>GetExpiringLease\<close> finds nothing exactly when there is no
  lease, and otherwise the item it returns names a live lease with that lease's current
  expiry time, which no other lease precedes.
\<close>

theorem lease_expiring_earliest:
  "lm_ok (run_leases ops) \<and>
   (GetExpiringLease (run_leases ops) = None \<longleftrightarrow> lm_leases (run_leases ops) = []) \<and>
   (\<forall>item. GetExpiringLease (run_leases ops) = Some item \<longrightarrow>
      (\<exists>l. GetLease (run_leases ops) (i_ID item) = Some l \<and> l_expireAt l = i_expireAt item) \<and>
      (\<forall>a l. GetLease (run_leases ops) a = Some l \<longrightarrow> i_expireAt item \<le> l_expireAt l))"
  using lm_ok_run [of ops] GetExpiringLease_earliest [OF lm_ok_run [of ops]] by blast

theorem lease_expiring_earliest_witness:
  "GetExpiringLease (run_leases [OpGrant 5 100, OpGrant 5 50, OpGrant 9 70, OpKeepAlive 2 5 200]) =
     Some \<lparr>i_ID = 3, i_expireAt = 70\<rparr> \<and>
   (\<exists>l. GetLease (run_leases [OpGrant 5 100, OpGrant 5 50, OpGrant 9 70, OpKeepAlive 2 5 200]) 3 = Some l \<and>
      l_expireAt l = 70)"
proof -
  let ?ops = "[OpGrant 5 100, OpGrant 5 50, OpGrant 9 70, OpKeepAlive 2 5 200]"
  have "GetExpiringLease (run_leases ?ops) = Some \<lparr>i_ID = 3, i_expireAt = 70\<rparr>" by code_simp
  then show ?thesis using lease_expiring_earliest [of ?ops] by fastforce
qed

text \<open>
  C24: the lease manager implements a table from lease ids to a TTL, an expiry time and the
  attached keys. Each operation acts on the table as specified, and the id counter only
  moves on a grant; a key that is attached to at most one lease is detached from it whatever
  the order in which the map of leases is visited.
\<close>

theorem lease_refines:
  assumes "lm_ok le" and "single_holder le" and "\<And>now. op \<noteq> OpRemoveExpired now"
  shows "(lease_view (lease_step op le), lm_leaseID (lease_step op le)) =
    spec_lease op (lease_view le, lm_leaseID le)"
proof (cases op)
  case (OpRevokeIfMatches a e)
  then show ?thesis
    by (cases "map_of (lm_leases le) a")
      (auto simp: RevokeLeaseIfMatches_def view_revokeLeaseLocked lm_counter lease_view_def)
qed (use assms in \<open>simp_all add: lease_views lm_counter RevokeLease_def\<close>)

theorem lease_refines_witness:
  "lm_ok (run_leases [OpGrant 5 100, OpAttach 1 ''k'' ''v'', OpGrant 5 50]) \<and>
   single_holder (run_leases [OpGrant 5 100, OpAttach 1 ''k'' ''v'', OpGrant 5 50]) \<and>
   lease_view (lease_step (OpRevokeKey ''k'') (run_leases [OpGrant 5 100, OpAttach 1 ''k'' ''v'', OpGrant 5 50])) 1 =
     Some (5, 100, Map.empty)"
proof -
  let ?le = "run_leases [OpGrant 5 100, OpAttach 1 ''k'' ''v'', OpGrant 5 50]"
  have h: "single_holder ?le" by code_simp
  have leases: "lm_leases ?le =
      [(1, \<lparr>l_ID = 1, l_TTL = 5, l_expireAt = 100, l_Keys = [(''k'', ''v'')]\<rparr>),
       (2, \<lparr>l_ID = 2, l_TTL = 5, l_expireAt = 50, l_Keys = []\<rparr>)]"
    by code_simp
  have "(lease_view (lease_step (OpRevokeKey ''k'') ?le), lm_leaseID (lease_step (OpRevokeKey ''k'') ?le)) =
      spec_lease (OpRevokeKey ''k'') (lease_view ?le, lm_leaseID ?le)"
    by (rule lease_refines [OF lm_ok_run h]) simp
  then have "lease_view (lease_step (OpRevokeKey ''k'') ?le) =
      (\<lambda>a. map_option (\<lambda>(ttl, e, ks). (ttl, e, ks(''k'' := None))) (lease_view ?le a))"
    unfolding spec_lease.simps prod.inject by (rule conjunct1)
  moreover have "lease_view ?le 1 = Some (5, 100, [''k'' \<mapsto> ''v''])"
    unfolding lease_view_def leases by simp
  ultimately have "lease_view (lease_step (OpRevokeKey ''k'') ?le) 1 = Some (5, 100, Map.empty)"
    by (simp only: option.map prod.case fun_upd_upd) simp
  then show ?thesis using h lm_ok_run by blast
qed

definition persistable :: "lease_mgr \<Rightarrow> bool" where
  \<comment> \<open>what \<open>Restore\<close> demands of every lease that \<open>Snapshot\<close> wrote\<close>
  "persistable le \<longleftrightarrow> (\<forall>(_, l) \<in> set (lm_leases le). 0 < l_TTL l \<and> 0 < l_expireAt l)"

lemma lease_entry_inverse: "lm_ok le \<Longrightarrow> map entry_lease (map lease_entry (lm_leases le)) = lm_leases le"
  by (auto simp: lm_ok_def lease_ok_def entry_lease_def lease_entry_def intro!: map_idI)

lemma Snapshot_leases_entries:
  "ls_Leases (Snapshot_leases le) = map lease_entry (lm_leases le)"
  "ls_LeaseID (Snapshot_leases le) = lm_leaseID le"
  by (simp_all add: Snapshot_leases_def lease_entry_def)

lemma snapshot_valid_iff:
  assumes "lm_ok le"
  shows "snapshot_valid (Snapshot_leases le) \<longleftrightarrow> persistable le"
proof -
  have "map ls_ID (map lease_entry (lm_leases le)) = map fst (lm_leases le)"
    using assms by (auto simp: lm_ok_def lease_ok_def lease_entry_def)
  then have "distinct (map ls_ID (map lease_entry (lm_leases le)))" using lm_ok_wf [OF assms] by (simp only:)
  then show ?thesis using assms
    by (fastforce simp: snapshot_valid_def Snapshot_leases_entries persistable_def entry_valid_def
        lease_entry_def lm_ok_def lease_ok_def)
qed

lemma Restore_Snapshot_leases:
  assumes "lm_ok le"
  shows "case Restore_leases le0 (Snapshot_leases le) of
      Inl _ \<Rightarrow> \<not> persistable le
    | Inr le' \<Rightarrow> persistable le \<and> lm_leases le' = lm_leases le \<and>
        lm_leaseID le' = lm_leaseID le \<and> lm_ok le'"
proof (cases "Restore_leases le0 (Snapshot_leases le)")
  case (Inl err)
  then have "\<not> snapshot_valid (Snapshot_leases le)" using Restore_leases_iff [of le0] by force
  then show ?thesis using Inl snapshot_valid_iff [OF assms] by simp
next
  case (Inr le')
  have "\<forall>entry \<in> set (ls_Leases (Snapshot_leases le)). gomap_wf (ls_Keys entry)"
    using assms by (auto simp: Snapshot_leases_entries lease_entry_def lm_ok_def lease_ok_def)
  then have "lm_ok le'" by (rule lm_ok_Restore [OF Inr])
  moreover note Inr [unfolded Restore_leases_iff snapshot_valid_iff [OF assms]]
  ultimately show ?thesis
    using Inr lease_entry_inverse [OF assms] by (simp add: Snapshot_leases_entries)
qed

text \<open>
  a lease snapshot brings back the table. \<open>Restore\<close> accepts what \<open>Snapshot\<close> wrote
  exactly when every lease has a positive TTL and a positive expiry time; then the restored
  manager has the same leases with their absolute expiry times and keys, the same id counter
  and a heap in order, whatever the manager it is restored into held before.
\<close>

theorem lease_snapshot_roundtrip:
  assumes "lm_ok le"
  shows "case Restore_leases le0 (Snapshot_leases le) of
      Inl _ \<Rightarrow> \<not> persistable le
    | Inr le' \<Rightarrow> persistable le \<and> lm_leases le' = lm_leases le \<and>
        lm_leaseID le' = lm_leaseID le \<and> lm_ok le'"
  by (rule Restore_Snapshot_leases [OF assms])

theorem lease_snapshot_roundtrip_witness:
  "lm_ok (run_leases [OpGrant 5 100, OpAttach 1 ''k'' ''v'', OpGrant 5 50]) \<and>
   persistable (run_leases [OpGrant 5 100, OpAttach 1 ''k'' ''v'', OpGrant 5 50]) \<and>
   (\<exists>le'. Restore_leases NewLeaseManager
       (Snapshot_leases (run_leases [OpGrant 5 100, OpAttach 1 ''k'' ''v'', OpGrant 5 50])) = Inr le' \<and>
     lm_leases le' = lm_leases (run_leases [OpGrant 5 100, OpAttach 1 ''k'' ''v'', OpGrant 5 50]))"
proof -
  let ?le = "run_leases [OpGrant 5 100, OpAttach 1 ''k'' ''v'', OpGrant 5 50]"
  have "persistable ?le" by code_simp
  then show ?thesis
    using lease_snapshot_roundtrip [OF lm_ok_run, of "[OpGrant 5 100, OpAttach 1 ''k'' ''v'', OpGrant 5 50]" NewLeaseManager]
    by (auto simp: lm_ok_run split: sum.splits)
qed

text \<open>
  an expiration that was decided before a keep-alive does not undo it. Once the lease
  has been extended to another expiry time, a revocation that carries the old one changes
  nothing and returns no keys; when the expiry time is still the one observed, it removes
  the lease and returns its keys in order.
\<close>

theorem lease_stale_revoke:
  assumes "GetLease le a = Some l"
  shows "(e \<noteq> e' \<longrightarrow>
      RevokeLeaseIfMatches (fst (KeepAliveUntil le a ttl e')) a e = (fst (KeepAliveUntil le a ttl e'), [])) \<and>
    GetLease (fst (RevokeLeaseIfMatches (fst (KeepAliveUntil le a ttl e')) a e')) a = None \<and>
    snd (RevokeLeaseIfMatches (fst (KeepAliveUntil le a ttl e')) a e') = sort (map fst (l_Keys l))"
  using assms
  by (simp add: GetLease_def KeepAliveUntil_def RevokeLeaseIfMatches_def revokeLeaseLocked_def
      map_of_gomap_update map_of_gomap_delete)

theorem lease_stale_revoke_witness:
  "GetLease (run_leases [OpGrant 5 100, OpAttach 1 ''k'' ''v'']) 1 =
     Some \<lparr>l_ID = 1, l_TTL = 5, l_expireAt = 100, l_Keys = [(''k'', ''v'')]\<rparr> \<and>
   snd (RevokeLeaseIfMatches
     (fst (KeepAliveUntil (run_leases [OpGrant 5 100, OpAttach 1 ''k'' ''v'']) 1 5 200)) 1 100) = [] \<and>
   snd (RevokeLeaseIfMatches
     (fst (KeepAliveUntil (run_leases [OpGrant 5 100, OpAttach 1 ''k'' ''v'']) 1 5 200)) 1 200) = [''k'']"
proof -
  let ?le = "run_leases [OpGrant 5 100, OpAttach 1 ''k'' ''v'']"
  have l: "GetLease ?le 1 = Some \<lparr>l_ID = 1, l_TTL = 5, l_expireAt = 100, l_Keys = [(''k'', ''v'')]\<rparr>"
    by code_simp
  show ?thesis
    using l lease_stale_revoke [OF l, of 100 200 5] by simp
qed

text \<open>
  C31: the arithmetic of expiry times. While the TTL in nanoseconds added to the clock fits
  in an \<open>int64\<close>, a grant at time \<open>now\<close> produces a new lease, with a fresh positive id, that
  expires exactly \<open>ttl\<close> seconds later and holds no key.
\<close>

theorem lease_grant_deadline:
  assumes "lm_ok le" and "0 \<le> now" and "0 < ttl" and "now + ttl * 1000000000 \<le> max_int64"
  shows "GetLease le (snd (Grant now le ttl)) = None \<and> 0 < snd (Grant now le ttl) \<and>
    lease_view (fst (Grant now le ttl)) =
      (lease_view le)(snd (Grant now le ttl) \<mapsto> (ttl, now + ttl * 1000000000, Map.empty))"
proof -
  have "wrap64 (ttl * 1000000000) = ttl * 1000000000" using assms by (intro wrap64_id) simp_all
  moreover have "wrap64 (now + ttl * 1000000000) = now + ttl * 1000000000"
    using assms by (intro wrap64_id) simp_all
  ultimately have "deadline now ttl = now + ttl * 1000000000" by (simp add: deadline_def)
  moreover have "snd (GrantUntil le ttl e) = lm_leaseID le + 1" for e by (simp add: GrantUntil_def Let_def)
  ultimately show ?thesis
    using lease_fresh [OF assms(1)] lm_ok_counter [OF assms(1)]
    by (simp add: Grant_def GetLease_def view_GrantUntil)
qed

theorem lease_grant_deadline_witness:
  "lm_ok NewLeaseManager \<and>
   lease_view (fst (Grant 1700000000000000000 NewLeaseManager 10)) 1 = Some (10, 1700000010000000000, Map.empty)"
  using lease_grant_deadline [of NewLeaseManager 1700000000000000000 10] lm_ok_New
  by (simp add: max_int64_def Grant_def GrantUntil_def Let_def NewLeaseManager_def)

lemma deadline_overflow:
  \<comment> \<open>a TTL that does not fit gives a lease that is expired when it is granted\<close>
  "deadline 1700000000000000000 9223372036 < 0"
  by (simp add: deadline_def wrap64_def)

end
