(* ===== verification/State_Machine.thy ===== *)
theory State_Machine
  imports Kv_Store Lease_Manager
begin

text \<open>
  The state machine that the log replicates, on its own: the store, the leases and the server's
  revision counter, and what a committed command does to them. \<open>applyLoop\<close> (theory
  \<open>Server_Apply\<close>) and the replay of the journal (theory \<open>Recovery\<close>) are both shown to implement
  it. The invariant ties the two tables together: a key that a lease holds points back to it.
\<close>

section \<open>The reference machine\<close>

type_synonym core = "kvstore \<times> lease_mgr \<times> int"

definition core_init :: core where
  "core_init = (NewKVStore, NewLeaseManager, 0)"

definition is_write :: "command_type \<Rightarrow> bool" where
  \<comment> \<open>the commands that consume a revision\<close>
  "is_write ty \<longleftrightarrow> ty \<in> {CmdPut, CmdDelete, CmdCAS, CmdLeaseAttach, CmdDeletePrefix}"

definition ttl_of :: "command \<Rightarrow> int" where
  "ttl_of cmd = (if c_TTL cmd \<le> 0 then 10 else c_TTL cmd)"

definition kv_apply :: "kvstore \<Rightarrow> command \<Rightarrow> kvstore" where
  "kv_apply kv cmd = (case Apply kv cmd of Blocked \<Rightarrow> kv | Ret (kv', _) \<Rightarrow> kv')"

definition delete_at :: "string \<Rightarrow> int \<Rightarrow> command" where
  "delete_at key r = zero_command\<lparr>c_Type := CmdDelete, c_Key := key, c_Revision := r\<rparr>"

fun del_keys :: "string list \<Rightarrow> kvstore \<times> int \<Rightarrow> kvstore \<times> int" where
  "del_keys [] s = s"
| "del_keys (key # keys) (kv, r) = del_keys keys (kv_apply kv (delete_at key (r + 1)), r + 1)"

definition revoke_choice :: "command \<Rightarrow> lease_mgr \<Rightarrow> lease_mgr \<times> string list" where
  "revoke_choice cmd le =
     (if c_ExpireAt cmd > 0 then RevokeLeaseIfMatches le (c_LeaseID cmd) (c_ExpireAt cmd)
      else RevokeLease le (c_LeaseID cmd))"

fun core_step :: "command \<Rightarrow> core \<Rightarrow> core" where
  "core_step cmd (kv, le, r) =
     (case c_Type cmd of
        CmdPut \<Rightarrow>
          (kv_apply kv cmd,
           (if c_LeaseID cmd > 0 then Attach (fst (Revoke le (c_Key cmd))) (c_LeaseID cmd) (c_Key cmd) (c_Value cmd)
            else fst (Revoke le (c_Key cmd))), r)
      | CmdDelete \<Rightarrow> (kv_apply kv cmd, fst (Revoke le (c_Key cmd)), r)
      | CmdCAS \<Rightarrow>
          (kv_apply kv cmd,
           (if cas_matches kv cmd \<and> GetKeyLease kv (c_Key cmd) > 0
            then Attach le (GetKeyLease kv (c_Key cmd)) (c_Key cmd) (c_Value cmd) else le), r)
      | CmdLeaseAttach \<Rightarrow>
          (if c_LeaseID cmd > 0
           then (kv_apply kv cmd,
                 Attach (fst (Revoke le (c_Key cmd))) (c_LeaseID cmd) (c_Key cmd) (c_Value cmd), r)
           else (kv, le, r))
      | CmdLeaseGrant \<Rightarrow> (kv, fst (GrantUntil le (ttl_of cmd) (c_ExpireAt cmd)), r)
      | CmdLeaseKeepAlive \<Rightarrow> (kv, fst (KeepAliveUntil le (c_LeaseID cmd) (ttl_of cmd) (c_ExpireAt cmd)), r)
      | CmdLeaseRevoke \<Rightarrow>
          (let (le', keys) = revoke_choice cmd le; (kv', r') = del_keys keys (kv, r) in (kv', le', r'))
      | CmdDeletePrefix \<Rightarrow>
          (let (kv', keys) = DeletePrefix kv (c_Prefix cmd)
           in (kv', fold (\<lambda>key le. fst (Revoke le key)) keys le, max r (kv_currentRev kv')))
      | _ \<Rightarrow> (kv, le, r))"

fun core_apply :: "command \<Rightarrow> core \<Rightarrow> core" where
  \<comment> \<open>a committed command: a write takes the next revision\<close>
  "core_apply cmd (kv, le, r) =
     (if is_write (c_Type cmd) then core_step (cmd\<lparr>c_Revision := r + 1\<rparr>) (kv, le, r + 1)
      else core_step cmd (kv, le, r))"

declare core_step.simps [simp del] core_apply.simps [simp del]

section \<open>The invariant\<close>

definition linked :: "kvstore \<Rightarrow> lease_mgr \<Rightarrow> bool" where
  \<comment> \<open>the two tables agree on who holds a key\<close>
  "linked kv le \<longleftrightarrow>
     (\<forall>a ttl e ks k v. lease_view le a = Some (ttl, e, ks) \<longrightarrow> ks k = Some v \<longrightarrow>
        map_of (kv_key2Lease kv) k = Some a)"

fun core_ok :: "core \<Rightarrow> bool" where
  "core_ok (kv, le, r) \<longleftrightarrow> kv_ok kv \<and> lm_ok le \<and> kv_currentRev kv \<le> r \<and> linked kv le"

lemma linkedI:
  "(\<And>a ttl e ks k v. lease_view le a = Some (ttl, e, ks) \<Longrightarrow> ks k = Some v \<Longrightarrow>
     map_of (kv_key2Lease kv) k = Some a) \<Longrightarrow> linked kv le"
  unfolding linked_def by blast

lemma linkedD:
  "linked kv le \<Longrightarrow> lease_view le a = Some (ttl, e, ks) \<Longrightarrow> ks k = Some v \<Longrightarrow>
     map_of (kv_key2Lease kv) k = Some a"
  unfolding linked_def by blast

lemma linked_single:
  assumes "linked kv le" and "lm_ok le"
  shows "single_holder le"
  unfolding single_holder_def
proof (clarsimp simp del: not_None_eq)
  fix a l b m k x y
  assume a: "(a, l) \<in> set (lm_leases le)" and b: "(b, m) \<in> set (lm_leases le)"
    and k: "(k, x) \<in> set (l_Keys l)" "(k, y) \<in> set (l_Keys m)"
  have "map_of (lm_leases le) a = Some l" "map_of (lm_leases le) b = Some m"
    using a b gomap_mem_iff [OF lm_ok_wf [OF assms(2)]] by auto
  moreover obtain v w where "map_of (l_Keys l) k = Some v" "map_of (l_Keys m) k = Some w"
    using k by (metis map_of_eq_None_iff fst_conv image_eqI not_None_eq)
  ultimately have "map_of (kv_key2Lease kv) k = Some a" "map_of (kv_key2Lease kv) k = Some b"
    using linkedD [OF assms(1)] by (simp_all add: lease_view_def)
  then show "a = b" by simp
qed

text \<open>How each lease operation moves the link, for a store that may change the entry of one key.\<close>

lemma linked_Revoke:
  assumes "linked kv le" and "lm_ok le"
    and "\<And>k'. k' \<noteq> k \<Longrightarrow> map_of (kv_key2Lease kv') k' = map_of (kv_key2Lease kv) k'"
  shows "linked kv' (fst (Revoke le k))"
proof (rule linkedI)
  fix a ttl e ks k' v
  assume "lease_view (fst (Revoke le k)) a = Some (ttl, e, ks)" and k': "ks k' = Some v"
  then obtain ks0 where "lease_view le a = Some (ttl, e, ks0)" "ks = ks0(k := None)"
    unfolding view_Revoke [OF assms(2) linked_single [OF assms(1,2)]] by auto
  moreover from this k' have "k' \<noteq> k" and "ks0 k' = Some v" by (auto split: if_splits)
  ultimately show "map_of (kv_key2Lease kv') k' = Some a"
    using linkedD [OF assms(1)] assms(3) by simp
qed

lemma linked_Attach:
  "linked kv le \<Longrightarrow> map_of (kv_key2Lease kv) k = Some a \<Longrightarrow> linked kv (Attach le a k v)"
  by (rule linkedI) (auto simp: view_Attach split: option.splits if_splits, (metis linkedD)+)

lemma linked_Grant: "linked kv le \<Longrightarrow> linked kv (fst (GrantUntil le ttl e))"
  by (rule linkedI) (auto simp: view_GrantUntil split: if_splits intro: linkedD)

lemma linked_KeepAlive: "linked kv le \<Longrightarrow> linked kv (fst (KeepAliveUntil le a ttl e))"
  by (rule linkedI) (auto simp: view_KeepAliveUntil split: option.splits if_splits intro: linkedD)

lemma linked_mono:
  assumes "linked kv le" and "\<And>a ttl e ks k v. lease_view le' a = Some (ttl, e, ks) \<Longrightarrow> ks k = Some v \<Longrightarrow>
      lease_view le a = Some (ttl, e, ks) \<and> map_of (kv_key2Lease kv') k = map_of (kv_key2Lease kv) k"
  shows "linked kv' le'"
  using assms by (intro linkedI) (metis linkedD)

section \<open>Preservation\<close>

lemma kv_apply_ok:
  assumes "kv_ok kv" and "rev_ok kv cmd"
  shows "kv_ok (kv_apply kv cmd)" and "kv_currentRev kv \<le> kv_currentRev (kv_apply kv cmd)"
    and "kv_currentRev (kv_apply kv cmd) \<le> cmd_rev kv cmd"
    and "r \<le> kv_currentRev kv \<Longrightarrow> version_at (kv_apply kv cmd) k r = version_at kv k r"
proof -
  have "kv_ok (kv_apply kv cmd) \<and> kv_currentRev kv \<le> kv_currentRev (kv_apply kv cmd) \<and>
      kv_currentRev (kv_apply kv cmd) \<le> cmd_rev kv cmd \<and>
      (r \<le> kv_currentRev kv \<longrightarrow> version_at (kv_apply kv cmd) k r = version_at kv k r)" for r k
  proof (cases "Apply kv cmd")
    case Blocked
    then show ?thesis using assms cmd_rev_gt [OF assms(2)] by (simp add: kv_apply_def)
  next
    case (Ret p)
    obtain kv' res where p: "p = (kv', res)" by (cases p)
    note Apply_ok [OF assms Ret [unfolded p]]
    then show ?thesis using Ret p by (simp add: kv_apply_def)
  qed
  then show "kv_ok (kv_apply kv cmd)" and "kv_currentRev kv \<le> kv_currentRev (kv_apply kv cmd)"
    and "kv_currentRev (kv_apply kv cmd) \<le> cmd_rev kv cmd"
    and "r \<le> kv_currentRev kv \<Longrightarrow> version_at (kv_apply kv cmd) k r = version_at kv k r"
    by blast+
qed

lemma kv_apply_key2Lease:
  assumes "rev_ok kv cmd"
  shows "map_of (kv_key2Lease (kv_apply kv cmd)) k =
    (if k = c_Key cmd
     then (case c_Type cmd of
             CmdPut \<Rightarrow> if c_LeaseID cmd > 0 then Some (c_LeaseID cmd) else None
           | CmdDelete \<Rightarrow> None
           | CmdLeaseAttach \<Rightarrow> if c_LeaseID cmd > 0 then Some (c_LeaseID cmd) else map_of (kv_key2Lease kv) k
           | _ \<Rightarrow> map_of (kv_key2Lease kv) k)
     else map_of (kv_key2Lease kv) k)"
proof (cases "c_Type cmd")
  case CmdPut
  then show ?thesis using assms by (simp add: kv_apply_def Apply_CmdPut go_map)
next
  case CmdDelete
  then show ?thesis using assms by (simp add: kv_apply_def Apply_CmdDelete drop_version_def go_map)
next
  case CmdCAS
  then show ?thesis using assms by (simp add: kv_apply_def Apply_CmdCAS)
next
  case CmdLeaseAttach
  then show ?thesis using assms by (simp add: kv_apply_def Apply_CmdLeaseAttach go_map)
qed (simp_all add: kv_apply_def Apply_def GetAtRevision_def)

lemma delete_at_simps [simp]:
  "c_Type (delete_at k r) = CmdDelete" "c_Key (delete_at k r) = k" "c_Revision (delete_at k r) = r"
  by (simp_all add: delete_at_def)

lemma kv_apply_delete_at:
  "kv_currentRev kv < r \<Longrightarrow> 0 < r \<Longrightarrow> kv_apply kv (delete_at k r) = drop_version r k None kv"
  by (simp add: kv_apply_def Apply_CmdDelete rev_ok_def cmd_rev_def)

lemma kv_ok_cur: "kv_ok kv \<Longrightarrow> 0 \<le> kv_currentRev kv"
  by (simp add: kv_ok_def)

lemma del_keys_run:
  assumes "kv_ok kv" and "kv_currentRev kv \<le> r"
  shows "del_keys ks (kv, r) =
    (fold (\<lambda>(n, k, v). drop_version n k v) (numbered r ks) kv, r + int (length ks))"
  using assms
proof (induction ks arbitrary: kv r)
  case (Cons k ks)
  have "0 \<le> r" using Cons.prems kv_ok_cur [of kv] by linarith
  then have 1: "kv_apply kv (delete_at k (r + 1)) = drop_version (r + 1) k None kv"
    using Cons.prems by (intro kv_apply_delete_at) simp_all
  have "kv_ok (drop_version (r + 1) k None kv)" "kv_currentRev (drop_version (r + 1) k None kv) \<le> r + 1"
    using Cons.prems dv.inv_wr [of kv "r + 1"] by (simp_all add: dv.cur_wr)
  then show ?case using Cons.IH 1 by simp
qed simp

lemma numbered_ascending_from: "c \<le> r \<Longrightarrow> sorted_wrt (<) (c # map fst (numbered r ks))"
  using numbered_ascending [of r ks] by auto

lemma drop_run_key2Lease:
  "map_of (kv_key2Lease (fold (\<lambda>(n, k, v). drop_version n k v) (numbered r ks) kv)) k =
    (if k \<in> set ks then None else map_of (kv_key2Lease kv) k)"
  by (induction ks arbitrary: kv r) (auto simp: drop_version_def map_of_gomap_delete)

lemma del_keys_ok:
  assumes "kv_ok kv" and "kv_currentRev kv \<le> r" and "del_keys ks (kv, r) = (kv', r')"
  shows "kv_ok kv'" and "kv_currentRev kv' \<le> r'" and "r' = r + int (length ks)"
    and "map_of (kv_key2Lease kv') k = (if k \<in> set ks then None else map_of (kv_key2Lease kv) k)"
    and "n \<le> kv_currentRev kv \<Longrightarrow> version_at kv' k n = version_at kv k n"
proof -
  let ?run = "fold (\<lambda>(n, k, v). drop_version n k v) (numbered r ks) kv"
  have kv': "kv' = ?run" and r': "r' = r + int (length ks)"
    using assms(3) by (simp_all add: del_keys_run [OF assms(1,2)])
  note asc = numbered_ascending_from [OF assms(2), of ks]
  show "kv_ok kv'" unfolding kv' by (rule dv.run_inv [OF assms(1) asc])
  show "r' = r + int (length ks)" by (rule r')
  show "kv_currentRev kv' \<le> r'"
    unfolding kv' r' using assms(2) by (simp add: dv.run_cur last_numbered)
  show "map_of (kv_key2Lease kv') k = (if k \<in> set ks then None else map_of (kv_key2Lease kv) k)"
    unfolding kv' by (rule drop_run_key2Lease)
  show "version_at kv' k n = version_at kv k n" if "n \<le> kv_currentRev kv"
    unfolding kv' by (rule dv.run_read_old [OF assms(1) asc that])
qed

lemma DeletePrefix_key2Lease:
  "map_of (kv_key2Lease (fst (DeletePrefix kv p))) k =
    (if k \<in> set (snd (DeletePrefix kv p)) then None else map_of (kv_key2Lease kv) k)"
  unfolding DeletePrefix_run by (rule drop_run_key2Lease)

lemma fold_Revoke_ok:
  assumes "linked kv le" and "lm_ok le"
    and "\<And>k. k \<notin> set ks \<Longrightarrow> map_of (kv_key2Lease kv') k = map_of (kv_key2Lease kv) k"
  shows "linked kv' (fold (\<lambda>key le. fst (Revoke le key)) ks le) \<and> lm_ok (fold (\<lambda>key le. fst (Revoke le key)) ks le)"
  using assms
proof (induction ks arbitrary: kv le)
  case Nil
  then show ?case by (auto simp: linked_def)
next
  case (Cons k ks)
  let ?kv2 = "kv\<lparr>kv_key2Lease := (case map_of (kv_key2Lease kv') k of None \<Rightarrow> AList.delete k (kv_key2Lease kv)
     | Some a \<Rightarrow> AList.update k a (kv_key2Lease kv))\<rparr>"
  have "linked ?kv2 (fst (Revoke le k))"
    by (rule linked_Revoke [OF Cons.prems(1,2)]) (auto simp: go_map split: option.split)
  moreover have "map_of (kv_key2Lease kv') k' = map_of (kv_key2Lease ?kv2) k'" if "k' \<notin> set ks" for k'
    using Cons.prems(3) [of k'] that by (cases "k' = k") (auto simp: go_map split: option.split)
  ultimately show ?case
    using Cons.IH [of ?kv2 "fst (Revoke le k)"] lm_ok_Revoke [OF Cons.prems(2)] by simp
qed

lemma revoke_choice_cases:
  assumes "lm_ok le" and "revoke_choice cmd le = (le', keys)"
  obtains (unchanged) "le' = le" "keys = []"
  | (revoked) l where "map_of (lm_leases le) (c_LeaseID cmd) = Some l" "keys = sort (map fst (l_Keys l))"
      "le' = fst (revokeLeaseLocked le (c_LeaseID cmd))"
proof (cases "map_of (lm_leases le) (c_LeaseID cmd)")
  case None
  then show thesis using assms(2) unchanged
    by (auto simp: revoke_choice_def RevokeLeaseIfMatches_def RevokeLease_def revokeLeaseLocked_def split: if_splits)
next
  case (Some l)
  show thesis
  proof (cases "c_ExpireAt cmd > 0 \<and> l_expireAt l \<noteq> c_ExpireAt cmd")
    case True
    then show thesis using assms(2) Some unchanged by (simp add: revoke_choice_def RevokeLeaseIfMatches_def)
  next
    case False
    then have "revokeLeaseLocked le (c_LeaseID cmd) = (le', keys)"
      using assms(2) Some by (auto simp: revoke_choice_def RevokeLeaseIfMatches_def RevokeLease_def split: if_splits)
    then show thesis using revoked [OF Some] Some by (auto simp: revokeLeaseLocked_def)
  qed
qed

lemma core_ok_revoke:
  assumes ok: "core_ok (kv, le, r)" and rc: "revoke_choice cmd le = (le', keys)" and dk: "del_keys keys (kv, r) = (kv', r')"
  shows "core_ok (kv', le', r')"
proof -
  have le: "lm_ok le" using ok by simp
  from le rc show ?thesis
  proof (cases rule: revoke_choice_cases)
    case unchanged
    then show ?thesis using ok dk by simp
  next
    case (revoked l)
    let ?a = "c_LeaseID cmd"
    have kv: "kv_ok kv" "kv_currentRev kv \<le> r" and lk: "linked kv le" using ok by simp_all
    note d = del_keys_ok [OF kv dk]
    have view: "lease_view le' = (lease_view le)(?a := None)" unfolding revoked(3) by (rule view_revokeLeaseLocked)
    have "linked kv' le'"
    proof (rule linkedI)
      fix b ttl e ks k v
      assume b: "lease_view le' b = Some (ttl, e, ks)" and k: "ks k = Some v"
      have old: "lease_view le b = Some (ttl, e, ks)" and ne: "b \<noteq> ?a" using b view by (auto split: if_splits)
      have kb: "map_of (kv_key2Lease kv) k = Some b" by (rule linkedD [OF lk old k])
      have "k \<notin> set keys"
      proof
        assume "k \<in> set keys"
        then have "k \<in> fst ` set (l_Keys l)" using revoked(2) by simp
        then obtain w where "map_of (l_Keys l) k = Some w" by (metis map_of_eq_None_iff not_None_eq)
        then have "map_of (kv_key2Lease kv) k = Some ?a"
          using linkedD [OF lk, of ?a] revoked(1) by (simp add: lease_view_def)
        then show False using kb ne by simp
      qed
      then show "map_of (kv_key2Lease kv') k = Some b" using d(4) kb by simp
    qed
    moreover have "lm_ok le'" unfolding revoked(3) by (rule lm_ok_revokeLeaseLocked [OF le])
    ultimately show ?thesis using d(1,2) by simp
  qed
qed

lemma linked_cong_key2Lease:
  "(\<And>k. map_of (kv_key2Lease kv') k = map_of (kv_key2Lease kv) k) \<Longrightarrow> linked kv le \<Longrightarrow> linked kv' le"
  by (simp add: linked_def)

lemma core_ok_put:
  \<comment> \<open>a write that takes the key away from its lease and gives it to \<open>a\<close>, if there is one\<close>
  assumes ok: "core_ok (kv, le, r)"
    and rv: "rev_ok kv cmd" and bound: "cmd_rev kv cmd \<le> r'"
    and key: "\<And>k. k \<noteq> c_Key cmd \<Longrightarrow> map_of (kv_key2Lease (kv_apply kv cmd)) k = map_of (kv_key2Lease kv) k"
    and holder: "b \<Longrightarrow> map_of (kv_key2Lease (kv_apply kv cmd)) (c_Key cmd) = Some a"
  shows "core_ok (kv_apply kv cmd,
    if b then Attach (fst (Revoke le (c_Key cmd))) a (c_Key cmd) v else fst (Revoke le (c_Key cmd)), r')"
proof -
  have kv: "kv_ok kv" and le: "lm_ok le" and lk: "linked kv le" using ok by simp_all
  have "linked (kv_apply kv cmd) (fst (Revoke le (c_Key cmd)))"
    by (rule linked_Revoke [OF lk le]) (rule key)
  then show ?thesis
    using kv_apply_ok [OF kv rv] bound lm_ok_Revoke [OF le] lm_ok_Attach holder linked_Attach
    by simp
qed

lemma core_ok_step:
  assumes ok: "core_ok (kv, le, r)"
    and fresh: "is_write (c_Type cmd) \<Longrightarrow> c_Revision cmd = r \<and> kv_currentRev kv < r"
  shows "core_ok (core_step cmd (kv, le, r))"
proof -
  have kv: "kv_ok kv" and le: "lm_ok le" and lk: "linked kv le" and cur: "kv_currentRev kv \<le> r"
    using ok by simp_all
  have rv: "rev_ok kv cmd" and bd: "cmd_rev kv cmd \<le> r" if "is_write (c_Type cmd)"
    using fresh [OF that] kv_ok_cur [OF kv] by (auto simp: rev_ok_def cmd_rev_def)
  note put = core_ok_put [OF ok rv bd]
  show ?thesis
  proof (cases "c_Type cmd")
    case CmdPut
    then have w: "is_write (c_Type cmd)" by (simp add: is_write_def)
    show ?thesis
      using put [OF w w, of "c_LeaseID cmd > 0" "c_LeaseID cmd" "c_Value cmd"] CmdPut
      by (simp add: core_step.simps kv_apply_key2Lease [OF rv [OF w]])
  next
    case CmdDelete
    then have w: "is_write (c_Type cmd)" by (simp add: is_write_def)
    show ?thesis
      using put [OF w w, of False] CmdDelete by (simp add: core_step.simps kv_apply_key2Lease [OF rv [OF w]])
  next
    case CmdLeaseAttach
    then have w: "is_write (c_Type cmd)" by (simp add: is_write_def)
    show ?thesis
      using put [OF w w, of True "c_LeaseID cmd" "c_Value cmd"] CmdLeaseAttach ok
      by (simp add: core_step.simps kv_apply_key2Lease [OF rv [OF w]])
  next
    case CmdCAS
    then have w: "is_write (c_Type cmd)" by (simp add: is_write_def)
    note k2 = kv_apply_key2Lease [OF rv [OF w]]
    have "linked (kv_apply kv cmd) le"
      by (rule linked_cong_key2Lease [OF _ lk]) (simp add: k2 CmdCAS)
    moreover have "map_of (kv_key2Lease (kv_apply kv cmd)) (c_Key cmd) = Some (GetKeyLease kv (c_Key cmd))"
      if "GetKeyLease kv (c_Key cmd) > 0"
      using that by (auto simp: k2 CmdCAS GetKeyLease_def gomap_get_def split: option.splits)
    ultimately show ?thesis
      using kv_apply_ok [OF kv rv [OF w]] bd [OF w] le CmdCAS
      by (auto simp: core_step.simps lm_ok_Attach linked_Attach)
  next
    case CmdLeaseGrant
    then show ?thesis using ok by (simp add: core_step.simps lm_ok_GrantUntil linked_Grant)
  next
    case CmdLeaseKeepAlive
    then show ?thesis using ok by (simp add: core_step.simps lm_ok_KeepAliveUntil linked_KeepAlive)
  next
    case CmdLeaseRevoke
    obtain le' keys where rc: "revoke_choice cmd le = (le', keys)" by fastforce
    obtain kv' r' where dk: "del_keys keys (kv, r) = (kv', r')" by fastforce
    show ?thesis using core_ok_revoke [OF ok rc dk] CmdLeaseRevoke rc dk by (simp add: core_step.simps)
  next
    case CmdDeletePrefix
    obtain kv' keys where dp: "DeletePrefix kv (c_Prefix cmd) = (kv', keys)" by fastforce
    have "map_of (kv_key2Lease kv') k = map_of (kv_key2Lease kv) k" if "k \<notin> set keys" for k
      using DeletePrefix_key2Lease [of kv "c_Prefix cmd" k] dp that by simp
    from fold_Revoke_ok [OF lk le this] show ?thesis
      using CmdDeletePrefix dp DeletePrefix_ok [OF kv, of "c_Prefix cmd"] by (simp add: core_step.simps)
  qed (use ok in \<open>simp_all add: core_step.simps\<close>)
qed

lemma core_ok_apply [wj_inv]: "core_ok c \<Longrightarrow> core_ok (core_apply cmd c)"
proof -
  assume ok: "core_ok c"
  obtain kv le r where c: "c = (kv, le, r)" by (cases c)
  have "core_ok (core_step (cmd\<lparr>c_Revision := r + 1\<rparr>) (kv, le, r + 1))"
    using ok c by (intro core_ok_step) auto
  moreover have "\<not> is_write (c_Type cmd) \<Longrightarrow> core_ok (core_step cmd (kv, le, r))"
    using ok c by (intro core_ok_step) auto
  ultimately show ?thesis by (simp add: c core_apply.simps)
qed

lemma core_ok_init [wj_inv]: "core_ok core_init"
proof -
  have "kv_ok NewKVStore" by (simp add: NewKVStore_def kv_ok_def)
  moreover have "linked NewKVStore NewLeaseManager"
    by (simp add: linked_def lease_view_def NewLeaseManager_def)
  ultimately show ?thesis by (simp add: core_init_def lm_ok_New NewKVStore_def)
qed

lemma core_ok_run: "core_ok c \<Longrightarrow> core_ok (fold core_apply cmds c)"
  by (rule fold_invariant) (simp_all add: core_ok_apply)

section \<open>What the machine promises\<close>

lemma kv_abs_del_keys:
  assumes "kv_ok kv" and "kv_currentRev kv \<le> r"
  shows "kv_abs (fst (del_keys ks (kv, r))) k = (if k \<in> set ks then None else kv_abs kv k)"
  unfolding del_keys_run [OF assms] fst_conv
  by (induction ks arbitrary: kv r) (auto simp: drop_version_def)

lemma core_revoke_effect:
  assumes ok: "core_ok (kv, le, r)" and ty: "c_Type cmd = CmdLeaseRevoke"
    and view: "lease_view le (c_LeaseID cmd) = Some (ttl, e, ks)"
    and ex: "c_ExpireAt cmd \<le> 0 \<or> c_ExpireAt cmd = e"
    and step: "core_apply cmd (kv, le, r) = (kv', le', r')"
  shows "kv_abs kv' k = (if k \<in> dom ks then None else kv_abs kv k)"
    and "lease_view le' = (lease_view le)(c_LeaseID cmd := None)"
    and "r' = r + int (card (dom ks))"
proof -
  obtain l where l: "map_of (lm_leases le) (c_LeaseID cmd) = Some l" "l_expireAt l = e" "ks = map_of (l_Keys l)"
    using view by (auto simp: lease_view_def split: option.splits)
  obtain keys where rc: "revoke_choice cmd le = (le', keys)" and dk: "del_keys keys (kv, r) = (kv', r')"
    using step ty by (auto simp: core_apply.simps core_step.simps is_write_def split: prod.splits)
  have "revoke_choice cmd le = revokeLeaseLocked le (c_LeaseID cmd)"
    using l ex by (auto simp: revoke_choice_def RevokeLeaseIfMatches_def RevokeLease_def)
  with rc have rl: "revokeLeaseLocked le (c_LeaseID cmd) = (le', keys)" by simp
  have kv: "kv_ok kv" "kv_currentRev kv \<le> r" and le: "lm_ok le" using ok by simp_all
  have "keys = sort (map fst (l_Keys l))" using rl l(1) by (auto simp: revokeLeaseLocked_def)
  then have "set keys = dom ks" "distinct keys"
    using l(3) lm_ok_lease [OF le l(1)] by (simp_all add: dom_map_of_conv_image_fst lease_ok_def)
  then show "kv_abs kv' k = (if k \<in> dom ks then None else kv_abs kv k)" "r' = r + int (card (dom ks))"
    using kv_abs_del_keys [OF kv, of keys k] del_keys_ok(3) [OF kv dk] dk by (auto simp: distinct_card [symmetric])
  show "lease_view le' = (lease_view le)(c_LeaseID cmd := None)"
    using view_revokeLeaseLocked [of le "c_LeaseID cmd"] rl by simp
qed

lemma core_apply_history:
  assumes ok: "core_ok (kv, le, r)" and step: "core_apply cmd (kv, le, r) = (kv', le', r')"
  shows "kv_currentRev kv \<le> kv_currentRev kv'" and "n \<le> kv_currentRev kv \<Longrightarrow> version_at kv' k n = version_at kv k n"
proof -
  have kv: "kv_ok kv" "kv_currentRev kv \<le> r" using ok by simp_all
  have rv: "rev_ok kv (cmd\<lparr>c_Revision := r + 1\<rparr>)" using kv by (simp add: rev_ok_def)
  consider (put) "kv' = kv_apply kv (cmd\<lparr>c_Revision := r + 1\<rparr>)" | (same) "kv' = kv"
    | (pre) "kv' = fst (DeletePrefix kv (c_Prefix cmd))"
    | (revoke) keys where "del_keys keys (kv, r) = (kv', r')"
    using step
    by (cases "c_Type cmd") (auto simp: core_apply.simps core_step.simps is_write_def split: prod.splits if_splits)
  then have "kv_currentRev kv \<le> kv_currentRev kv' \<and> (n \<le> kv_currentRev kv \<longrightarrow> version_at kv' k n = version_at kv k n)"
  proof cases
    case put
    then show ?thesis using kv_apply_ok [OF kv(1) rv] by simp
  next
    case pre
    then show ?thesis using DeletePrefix_read_old [OF kv(1)] DeletePrefix_cur [of kv] by simp
  next
    case (revoke keys)
    have "kv_currentRev kv \<le> kv_currentRev (fst (del_keys keys (kv, r)))"
      unfolding del_keys_run [OF kv] using kv(2) by (simp add: dv.run_cur last_numbered)
    then show ?thesis using del_keys_ok(5) [OF kv revoke] revoke by simp
  qed simp
  then show "kv_currentRev kv \<le> kv_currentRev kv'" and "n \<le> kv_currentRev kv \<Longrightarrow> version_at kv' k n = version_at kv k n"
    by simp_all
qed

end
