(* ===== verification/Watch_Manager.thy ===== *)
theory Watch_Manager
  imports Kv_Store "HOL-Library.Monad_Syntax"
begin

text \<open>
  The \<open>WatchManager\<close> of \<open>server/server.go\<close> and the notification functions of the server:
  watchers on a key or on a prefix, their buffered channels, the history they replay, one-shot
  watchers and the expiry of watchers. A send on, or a second close of, a closed channel
  panics in Go; it is \<open>None\<close> here, and the theorems show that it does not happen.
\<close>

section \<open>State\<close>

text \<open>\<open>Event\<close> of the server has the fields of \<open>kv.WatchEvent\<close>.\<close>

type_synonym event = watch_event

record chan =
  ch_buf :: "event list"
  ch_closed :: bool

record watcher_info =
  w_id :: int
  w_persistent :: bool
  w_expireAt :: int
  w_fromRev :: int

type_synonym watcher_map = "(int, watcher_info) gomap"
type_synonym chans = "(int, chan) gomap"

record watch_mgr =
  wm_watchers :: "(string, watcher_map) gomap"
  wm_prefixWatchers :: "(string, watcher_map) gomap"
  wm_nextID :: int
  wm_eventLog :: "event list"
  wm_chans :: chans  \<comment> \<open>the heap of channels: watcher \<open>id\<close> owns channel \<open>id\<close>\<close>

section \<open>Channels\<close>

definition chan_cap :: nat where
  "chan_cap = 100"

definition try_send :: "int \<Rightarrow> event \<Rightarrow> chans \<Rightarrow> (chans \<times> bool) option" where
  \<comment> \<open>\<open>select { case info.ch <- ev: ... default: }\<close>; the flag tells which branch ran\<close>
  "try_send i ev chs =
     (case map_of chs i of
        None \<Rightarrow> Some (chs, False)
      | Some c \<Rightarrow>
          if ch_closed c then None
          else if length (ch_buf c) < chan_cap
          then Some (AList.update i (c\<lparr>ch_buf := ch_buf c @ [ev]\<rparr>) chs, True)
          else Some (chs, False))"

definition close_chan :: "int \<Rightarrow> chans \<Rightarrow> chans option" where
  "close_chan i chs =
     (case map_of chs i of
        None \<Rightarrow> None
      | Some c \<Rightarrow> if ch_closed c then None else Some (AList.update i (c\<lparr>ch_closed := True\<rparr>) chs))"

definition recv :: "int \<Rightarrow> watch_mgr \<Rightarrow> watch_mgr \<times> event option" where
  \<comment> \<open>a client of the channel takes its oldest event\<close>
  "recv i wa =
     (case map_of (wm_chans wa) i of
        None \<Rightarrow> (wa, None)
      | Some c \<Rightarrow>
          (case ch_buf c of
             [] \<Rightarrow> (wa, None)
           | ev # evs \<Rightarrow> (wa\<lparr>wm_chans := AList.update i (c\<lparr>ch_buf := evs\<rparr>) (wm_chans wa)\<rparr>, Some ev)))"

section \<open>Operations\<close>

definition NewWatchManager :: watch_mgr where
  "NewWatchManager = \<lparr>wm_watchers = [], wm_prefixWatchers = [], wm_nextID = 0, wm_eventLog = [], wm_chans = []\<rparr>"

definition addWatcherInternal ::
  "int \<Rightarrow> watch_mgr \<Rightarrow> string \<Rightarrow> string \<Rightarrow> bool \<Rightarrow> int \<Rightarrow> int \<Rightarrow> watch_mgr \<times> int" where
  "addWatcherInternal now wa key pre persistent timeout fromRev =
     (let i = wm_nextID wa + 1;
          expireAt = (if timeout > 0 then wrap64 (now + timeout) else 0);
          info = \<lparr>w_id = i, w_persistent = persistent, w_expireAt = expireAt, w_fromRev = fromRev\<rparr>;
          wa1 = wa\<lparr>wm_nextID := i,
                   wm_chans := AList.update i \<lparr>ch_buf = [], ch_closed = False\<rparr> (wm_chans wa)\<rparr>
      in (if pre \<noteq> []
          then wa1\<lparr>wm_prefixWatchers :=
                 AList.update pre (AList.update i info (gomap_get [] (wm_prefixWatchers wa1) pre))
                   (wm_prefixWatchers wa1)\<rparr>
          else wa1\<lparr>wm_watchers :=
                 AList.update key (AList.update i info (gomap_get [] (wm_watchers wa1) key))
                   (wm_watchers wa1)\<rparr>, i))"

definition AddWatcher :: "int \<Rightarrow> watch_mgr \<Rightarrow> string \<Rightarrow> bool \<Rightarrow> int \<Rightarrow> int \<Rightarrow> watch_mgr \<times> int" where
  "AddWatcher now wa key persistent timeout fromRev =
     addWatcherInternal now wa key [] persistent timeout fromRev"

definition AddPrefixWatcher :: "int \<Rightarrow> watch_mgr \<Rightarrow> string \<Rightarrow> bool \<Rightarrow> int \<Rightarrow> int \<Rightarrow> watch_mgr \<times> int" where
  "AddPrefixWatcher now wa pre persistent timeout fromRev =
     addWatcherInternal now wa [] pre persistent timeout fromRev"

definition drop_watcher ::
  "string \<Rightarrow> int \<Rightarrow> (string, watcher_map) gomap \<Rightarrow> chans \<Rightarrow> ((string, watcher_map) gomap \<times> chans) option" where
  \<comment> \<open>the common body of \<open>RemoveWatcher\<close> and \<open>RemovePrefixWatcher\<close>\<close>
  "drop_watcher key i m chs =
     (case map_of m key of
        None \<Rightarrow> Some (m, chs)
      | Some ws \<Rightarrow>
          (case map_of ws i of
             None \<Rightarrow> Some (m, chs)
           | Some info \<Rightarrow>
               do { chs' \<leftarrow> close_chan (w_id info) chs;
                    Some (AList.update key (AList.delete i ws) m, chs') }))"

definition RemoveWatcher :: "watch_mgr \<Rightarrow> string \<Rightarrow> int \<Rightarrow> watch_mgr option" where
  "RemoveWatcher wa key i =
     do { (m, chs) \<leftarrow> drop_watcher key i (wm_watchers wa) (wm_chans wa);
          Some (wa\<lparr>wm_watchers := m, wm_chans := chs\<rparr>) }"

definition RemovePrefixWatcher :: "watch_mgr \<Rightarrow> string \<Rightarrow> int \<Rightarrow> watch_mgr option" where
  "RemovePrefixWatcher wa pre i =
     do { (m, chs) \<leftarrow> drop_watcher pre i (wm_prefixWatchers wa) (wm_chans wa);
          Some (wa\<lparr>wm_prefixWatchers := m, wm_chans := chs\<rparr>) }"

fun sweep :: "(watcher_info \<Rightarrow> chans \<Rightarrow> (chans \<times> bool) option) \<Rightarrow> watcher_map \<Rightarrow> chans \<Rightarrow>
    (watcher_map \<times> chans) option" where
  \<comment> \<open>\<open>for id, info := range watchers\<close> with a body that may delete the entry it visits\<close>
  "sweep body [] chs = Some ([], chs)"
| "sweep body ((i, info) # ws) chs =
     do { (chs1, gone) \<leftarrow> body info chs;
          (ws', chs2) \<leftarrow> sweep body ws chs1;
          Some (if gone then ws' else (i, info) # ws', chs2) }"

fun sweep_map :: "(string \<Rightarrow> bool) \<Rightarrow> (string \<Rightarrow> watcher_info \<Rightarrow> chans \<Rightarrow> (chans \<times> bool) option) \<Rightarrow>
    (string, watcher_map) gomap \<Rightarrow> chans \<Rightarrow> ((string, watcher_map) gomap \<times> chans) option" where
  \<comment> \<open>the outer loop over the map; an entry that is left without watchers is deleted\<close>
  "sweep_map sel body [] chs = Some ([], chs)"
| "sweep_map sel body ((k, ws) # m) chs =
     (if sel k
      then do { (ws', chs1) \<leftarrow> sweep (body k) ws chs;
                (m', chs2) \<leftarrow> sweep_map sel body m chs1;
                Some (if length ws' = 0 then m' else (k, ws') # m', chs2) }
      else do { (m', chs2) \<leftarrow> sweep_map sel body m chs;
                Some ((k, ws) # m', chs2) })"

definition expire_watcher :: "int \<Rightarrow> watcher_info \<Rightarrow> chans \<Rightarrow> (chans \<times> bool) option" where
  "expire_watcher now info chs =
     (if w_expireAt info > 0 \<and> now > w_expireAt info
      then do { chs' \<leftarrow> close_chan (w_id info) chs; Some (chs', True) }
      else Some (chs, False))"

definition CleanupExpired :: "int \<Rightarrow> watch_mgr \<Rightarrow> watch_mgr option" where
  "CleanupExpired now wa =
     do { (m, chs) \<leftarrow> sweep_map (\<lambda>_. True) (\<lambda>_. expire_watcher now) (wm_watchers wa) (wm_chans wa);
          Some (wa\<lparr>wm_watchers := m, wm_chans := chs\<rparr>) }"

fun send_all :: "int \<Rightarrow> event list \<Rightarrow> chans \<Rightarrow> chans option" where
  "send_all i [] chs = Some chs"
| "send_all i (ev # evs) chs = do { (chs', _) \<leftarrow> try_send i ev chs; send_all i evs chs' }"

definition history :: "(event \<Rightarrow> bool) \<Rightarrow> event list \<Rightarrow> event \<Rightarrow> int \<Rightarrow> event list" where
  \<comment> \<open>the \<open>histEvent\<close>s that precede an event: no \<open>Revision\<close> is set in them\<close>
  "history matches log ev fromRev =
     (if fromRev > 0
      then map (\<lambda>h. \<lparr>e_Key = e_Key h, e_Value = e_Value h, e_Type = e_Type h, e_Revision = 0\<rparr>)
             (filter (\<lambda>h. matches h \<and> e_Revision h \<ge> fromRev \<and> e_Revision h < e_Revision ev) log)
      else [])"

definition notify_one :: "(event \<Rightarrow> bool) \<Rightarrow> event list \<Rightarrow> event \<Rightarrow> watcher_info \<Rightarrow> chans \<Rightarrow> (chans \<times> bool) option" where
  \<comment> \<open>the loop body of \<open>notifyExactWatchers\<close> and \<open>notifyPrefixWatchers\<close>\<close>
  "notify_one matches log ev info chs =
     do { chs1 \<leftarrow> send_all (w_id info) (history matches log ev (w_fromRev info)) chs;
          (chs2, sent) \<leftarrow> try_send (w_id info) ev chs1;
          if sent \<and> \<not> w_persistent info
          then do { chs3 \<leftarrow> close_chan (w_id info) chs2; Some (chs3, True) }
          else Some (chs2, False) }"

definition notifyExactWatchers :: "watch_mgr \<Rightarrow> string \<Rightarrow> event \<Rightarrow> watch_mgr option" where
  "notifyExactWatchers wa key ev =
     (case map_of (wm_watchers wa) key of
        None \<Rightarrow> Some wa
      | Some ws \<Rightarrow>
          do { (ws', chs) \<leftarrow> sweep (notify_one (\<lambda>h. e_Key h = key) (wm_eventLog wa) ev) ws (wm_chans wa);
               Some (wa\<lparr>wm_watchers := (if length ws' = 0 then AList.delete key (wm_watchers wa)
                                         else AList.update key ws' (wm_watchers wa)),
                        wm_chans := chs\<rparr>) })"

definition notifyPrefixWatchers :: "watch_mgr \<Rightarrow> string \<Rightarrow> event \<Rightarrow> watch_mgr option" where
  "notifyPrefixWatchers wa key ev =
     do { (m, chs) \<leftarrow> sweep_map (\<lambda>pre. has_prefix pre key)
                        (\<lambda>pre. notify_one (\<lambda>h. has_prefix pre (e_Key h)) (wm_eventLog wa) ev)
                        (wm_prefixWatchers wa) (wm_chans wa);
          Some (wa\<lparr>wm_prefixWatchers := m, wm_chans := chs\<rparr>) }"

definition event_type :: "command_type \<Rightarrow> string option" where
  "event_type ty =
     (case ty of CmdPut \<Rightarrow> Some ''PUT'' | CmdDelete \<Rightarrow> Some ''DELETE''
      | CmdDeletePrefix \<Rightarrow> Some ''DELETE'' | _ \<Rightarrow> None)"

definition notifyWatchers :: "watch_mgr \<Rightarrow> command \<Rightarrow> watch_mgr option" where
  "notifyWatchers wa cmd =
     (case event_type (c_Type cmd) of
        None \<Rightarrow> Some wa
      | Some ty \<Rightarrow>
          (let ev = \<lparr>e_Key = c_Key cmd, e_Value = c_Value cmd, e_Type = ty, e_Revision = c_Revision cmd\<rparr>;
               wa0 = wa\<lparr>wm_eventLog := wm_eventLog wa @ [ev]\<rparr>
           in do { wa1 \<leftarrow> notifyExactWatchers wa0 (c_Key cmd) ev;
                   notifyPrefixWatchers wa1 (c_Key cmd) ev }))"

section \<open>Invariant\<close>

definition chan_ok :: "chan \<Rightarrow> bool" where
  "chan_ok c \<longleftrightarrow> \<not> ch_closed c \<and> length (ch_buf c) \<le> chan_cap"

definition regs :: "(string, watcher_map) gomap \<Rightarrow> int list" where
  \<comment> \<open>the ids registered in a map of watchers\<close>
  "regs m = concat (map (\<lambda>(k, ws). map fst ws) m)"

definition watcher_ok :: "int \<Rightarrow> chans \<Rightarrow> int \<times> watcher_info \<Rightarrow> bool" where
  "watcher_ok n chs = (\<lambda>(i, info). w_id info = i \<and> 0 < i \<and> i \<le> n \<and>
     (case map_of chs i of None \<Rightarrow> False | Some c \<Rightarrow> chan_ok c))"

definition maps_ok ::
  "int \<Rightarrow> (string, watcher_map) gomap \<Rightarrow> (string, watcher_map) gomap \<Rightarrow> chans \<Rightarrow> bool" where
  \<comment> \<open>a registered watcher owns an open channel, and no two entries share an id\<close>
  "maps_ok n m1 m2 chs \<longleftrightarrow>
     gomap_wf m1 \<and> gomap_wf m2 \<and> distinct (regs m1 @ regs m2) \<and>
     (\<forall>(k, ws) \<in> set m1 \<union> set m2. \<forall>w \<in> set ws. watcher_ok n chs w)"

definition wm_ok :: "watch_mgr \<Rightarrow> bool" where
  "wm_ok wa \<longleftrightarrow>
     0 \<le> wm_nextID wa \<and> maps_ok (wm_nextID wa) (wm_watchers wa) (wm_prefixWatchers wa) (wm_chans wa)"

lemma maps_ok_sym: "maps_ok n m1 m2 chs \<longleftrightarrow> maps_ok n m2 m1 chs"
  by (auto simp: maps_ok_def ball_Un)

lemma regs_simps [simp]: "regs [] = []" "regs ((k, ws) # m) = map fst ws @ regs m"
  by (simp_all add: regs_def)

lemma mem_regs: "i \<in> set (regs m) \<longleftrightarrow> (\<exists>(k, ws) \<in> set m. i \<in> fst ` set ws)"
  by (auto simp: regs_def)

lemma regsI: "(k, ws) \<in> set m \<Longrightarrow> (i, info) \<in> set ws \<Longrightarrow> i \<in> set (regs m)"
  by (force simp: mem_regs)

section \<open>The interface of a loop body over watchers\<close>

text \<open>
  A body that visits a watcher acts on the watcher's own channel only, by a function \<open>eff\<close>
  that also decides whether the entry is deleted, and an entry that stays keeps its channel
  open. The two loops then act on every channel by \<open>eff\<close> at once, without a panic and
  whatever the order of the visit.
\<close>

locale watcher_body =
  fixes body :: "string \<Rightarrow> watcher_info \<Rightarrow> chans \<Rightarrow> (chans \<times> bool) option"
    and eff :: "string \<Rightarrow> watcher_info \<Rightarrow> chan \<Rightarrow> chan \<times> bool"
  assumes body_open: "map_of chs (w_id info) = Some c \<Longrightarrow> chan_ok c \<Longrightarrow>
      \<exists>chs'. body k info chs = Some (chs', snd (eff k info c)) \<and>
        map_of chs' = (map_of chs)(w_id info \<mapsto> fst (eff k info c))"
    and eff_ok: "chan_ok c \<Longrightarrow> \<not> snd (eff k info c) \<Longrightarrow> chan_ok (fst (eff k info c))"
begin

abbreviation ready :: "chans \<Rightarrow> watcher_map \<Rightarrow> bool" where
  "ready chs ws \<equiv> \<forall>(i, info) \<in> set ws. w_id info = i \<and> (\<exists>c. map_of chs i = Some c \<and> chan_ok c)"

abbreviation stays :: "chans \<Rightarrow> string \<Rightarrow> int \<times> watcher_info \<Rightarrow> bool" where
  "stays chs k \<equiv> \<lambda>(i, info). \<not> snd (eff k info (the (map_of chs i)))"

abbreviation acted :: "chans \<Rightarrow> string \<Rightarrow> int \<Rightarrow> watcher_info \<Rightarrow> chan" where
  "acted chs k i info \<equiv> fst (eff k info (the (map_of chs i)))"

lemma sweep_ok:
  assumes "distinct (map fst ws)" and "ready chs ws"
  shows "\<exists>chs'. sweep (body k) ws chs = Some (filter (stays chs k) ws, chs') \<and>
    (\<forall>(i, info) \<in> set ws. map_of chs' i = Some (acted chs k i info)) \<and>
    (\<forall>j. j \<notin> fst ` set ws \<longrightarrow> map_of chs' j = map_of chs j)"
  using assms
proof (induction ws arbitrary: chs)
  case (Cons w ws)
  obtain i info where w: "w = (i, info)" by (cases w)
  obtain c where c: "w_id info = i" "map_of chs i = Some c" "chan_ok c" using Cons.prems(2) w by auto
  obtain chs1 where b: "body k info chs = Some (chs1, snd (eff k info c))"
    and chs1: "map_of chs1 = (map_of chs)(i \<mapsto> fst (eff k info c))"
    using body_open [of chs info c k] c by auto
  have fresh: "i \<notin> fst ` set ws" and d: "distinct (map fst ws)" using Cons.prems(1) w by auto
  then have same: "map_of chs1 j = map_of chs j" if "(j, f) \<in> set ws" for j f
    using that chs1 by force
  have "ready chs1 ws" using Cons.prems(2) same w by (fastforce simp: chs1)
  from Cons.IH [OF d this] obtain chs2 where
    s: "sweep (body k) ws chs1 = Some (filter (stays chs1 k) ws, chs2)"
    and in2: "\<forall>(j, f) \<in> set ws. map_of chs2 j = Some (acted chs1 k j f)"
    and out2: "\<forall>j. j \<notin> fst ` set ws \<longrightarrow> map_of chs2 j = map_of chs1 j" by blast
  have "filter (stays chs1 k) ws = filter (stays chs k) ws"
    using same by (intro filter_cong) auto
  then have "sweep (body k) (w # ws) chs = Some (filter (stays chs k) (w # ws), chs2)"
    using b s c w by simp
  moreover have "\<forall>(j, f) \<in> set (w # ws). map_of chs2 j = Some (acted chs k j f)"
    using in2 out2 fresh same w c by (auto simp: chs1)
  moreover have "\<forall>j. j \<notin> fst ` set (w # ws) \<longrightarrow> map_of chs2 j = map_of chs j"
    using out2 w by (simp add: chs1)
  ultimately show ?case by blast
qed simp

abbreviation survivors :: "(string \<Rightarrow> bool) \<Rightarrow> chans \<Rightarrow> (string, watcher_map) gomap \<Rightarrow> (string, watcher_map) gomap" where
  "survivors sel chs m \<equiv> filter (\<lambda>(k, ws). \<not> (sel k \<and> ws = []))
     (map (\<lambda>(k, ws). (k, if sel k then filter (stays chs k) ws else ws)) m)"

lemma survivors_cong:
  assumes "\<And>i. i \<in> set (regs m) \<Longrightarrow> map_of chs1 i = map_of chs i"
  shows "survivors sel chs1 m = survivors sel chs m"
proof -
  have "filter (stays chs1 k) ws = filter (stays chs k) ws" if "(k, ws) \<in> set m" for k ws
    using assms that by (intro filter_cong) (fastforce simp: mem_regs)+
  then have "map (\<lambda>(k, ws). (k, if sel k then filter (stays chs1 k) ws else ws)) m =
      map (\<lambda>(k, ws). (k, if sel k then filter (stays chs k) ws else ws)) m"
    by (intro map_cong) auto
  then show ?thesis by (rule arg_cong)
qed

lemma sweep_map_ok:
  assumes "distinct (regs m)" and "\<forall>(k, ws) \<in> set m. ready chs ws"
  shows "\<exists>chs'. sweep_map sel body m chs = Some (survivors sel chs m, chs') \<and>
    (\<forall>(k, ws) \<in> set m. \<forall>(i, info) \<in> set ws.
       map_of chs' i = (if sel k then Some (acted chs k i info) else map_of chs i)) \<and>
    (\<forall>j. j \<notin> set (regs m) \<longrightarrow> map_of chs' j = map_of chs j)"
  using assms
proof (induction m arbitrary: chs)
  case (Cons p m)
  obtain k ws where p: "p = (k, ws)" by (cases p)
  have ws: "distinct (map fst ws)" "ready chs ws" and m: "distinct (regs m)"
    and disj: "fst ` set ws \<inter> set (regs m) = {}"
    using Cons.prems p by auto
  obtain chs1 where one: "(if sel k then sweep (body k) ws chs else Some (ws, chs)) =
        Some (if sel k then filter (stays chs k) ws else ws, chs1)"
    and in1: "\<forall>(i, info) \<in> set ws. map_of chs1 i = (if sel k then Some (acted chs k i info) else map_of chs i)"
    and out1: "\<forall>j. j \<notin> fst ` set ws \<longrightarrow> map_of chs1 j = map_of chs j"
    using sweep_ok [OF ws, of k] by (cases "sel k") auto
  have same: "map_of chs1 i = map_of chs i" if "i \<in> set (regs m)" for i
    using out1 disj that by blast
  have "\<forall>(k, ws) \<in> set m. ready chs1 ws"
    using Cons.prems(2) same p by (fastforce simp: mem_regs)
  from Cons.IH [OF m this] obtain chs2 where
    s: "sweep_map sel body m chs1 = Some (survivors sel chs1 m, chs2)"
    and in2: "\<forall>(k, ws) \<in> set m. \<forall>(i, info) \<in> set ws.
       map_of chs2 i = (if sel k then Some (acted chs1 k i info) else map_of chs1 i)"
    and out2: "\<forall>j. j \<notin> set (regs m) \<longrightarrow> map_of chs2 j = map_of chs1 j" by blast
  have "sweep_map sel body (p # m) chs = Some (survivors sel chs (p # m), chs2)"
    using one s survivors_cong [of m chs1 chs sel, OF same] p by (cases "sel k") simp_all
  moreover have "map_of chs2 i = (if sel k' then Some (acted chs k' i info) else map_of chs i)"
    if "(k', ws') \<in> set (p # m)" and "(i, info) \<in> set ws'" for k' ws' i info
  proof (cases "i \<in> set (regs m)")
    case True
    then have "(k', ws') \<in> set m" using that disj p by (force simp: image_iff)
    then show ?thesis using in2 that(2) same [OF True] by fastforce
  next
    case False
    then have "(k', ws') = (k, ws)" using that p regsI by auto
    then show ?thesis using in1 out2 False that(2) by fastforce
  qed
  moreover have "\<forall>j. j \<notin> set (regs (p # m)) \<longrightarrow> map_of chs2 j = map_of chs j"
    using out1 out2 p by simp
  ultimately show ?case by blast
qed simp

lemma regs_survivors: "subseq (regs (survivors sel chs m)) (regs m)"
proof (induction m)
  case (Cons p m)
  obtain k ws where p: "p = (k, ws)" by (cases p)
  have "subseq (map fst (filter (stays chs k) ws)) (map fst ws)"
    by (intro subseq_map subseq_filter_left)
  from list_emb_append_mono [OF this Cons.IH] list_emb_append_mono [OF subseq_order.refl [of "map fst ws"] Cons.IH]
  show ?case using p by (auto simp: filter_empty_conv intro: list_emb_append2 [OF Cons.IH])
qed simp

lemma sweep_map_keeps:
  assumes "maps_ok n m1 m2 chs"
  shows "\<exists>m1' chs'. sweep_map sel body m1 chs = Some (m1', chs') \<and> maps_ok n m1' m2 chs'"
proof -
  have d: "distinct (regs m1 @ regs m2)"
    and ok: "\<And>k ws i info. (k, ws) \<in> set m1 \<union> set m2 \<Longrightarrow> (i, info) \<in> set ws \<Longrightarrow> watcher_ok n chs (i, info)"
    using assms by (fastforce simp: maps_ok_def)+
  have "\<forall>(k, ws) \<in> set m1. ready chs ws"
    using ok by (fastforce simp: watcher_ok_def split: option.splits)
  from sweep_map_ok [OF _ this, of sel] d obtain chs' where
    s: "sweep_map sel body m1 chs = Some (survivors sel chs m1, chs')"
    and inside: "\<And>k ws i info. (k, ws) \<in> set m1 \<Longrightarrow> (i, info) \<in> set ws \<Longrightarrow>
       map_of chs' i = (if sel k then Some (acted chs k i info) else map_of chs i)"
    and outside: "\<And>j. j \<notin> set (regs m1) \<Longrightarrow> map_of chs' j = map_of chs j"
    by fastforce
  have 1: "watcher_ok n chs' (i, info)"
    if sv: "(k, ws') \<in> set (survivors sel chs m1)" and mem: "(i, info) \<in> set ws'" for k ws' i info
  proof -
    obtain ws where ws: "(k, ws) \<in> set m1" "ws' = (if sel k then filter (stays chs k) ws else ws)"
      using sv by auto
    then have mem': "(i, info) \<in> set ws" and st: "sel k \<Longrightarrow> \<not> snd (eff k info (the (map_of chs i)))"
      using mem by (auto split: if_splits)
    note old = ok [of k ws i info] inside [OF ws(1) mem']
    show ?thesis using old ws(1) mem' st eff_ok [of _ k info]
      by (cases "sel k") (auto simp: watcher_ok_def split: option.splits)
  qed
  have 2: "watcher_ok n chs' (i, info)" if "(k, ws) \<in> set m2" and "(i, info) \<in> set ws" for k ws i info
  proof -
    have "i \<notin> set (regs m1)" using d regsI [OF that] by auto
    then show ?thesis using ok [of k ws i info] that outside by (simp add: watcher_ok_def)
  qed
  have keys: "map fst (map (\<lambda>(k, ws). (k, if sel k then filter (stays chs k) ws else ws)) m1) = map fst m1"
    by auto
  have "gomap_wf (survivors sel chs m1)"
    by (rule distinct_map_filter) (use assms keys in \<open>simp only: maps_ok_def\<close>)
  moreover have "subseq (regs (survivors sel chs m1) @ regs m2) (regs m1 @ regs m2)"
    by (rule list_emb_append_mono [OF regs_survivors subseq_order.refl])
  then have "distinct (regs (survivors sel chs m1) @ regs m2)" using d by (rule distinct_subseq)
  moreover have "\<forall>(k, ws) \<in> set (survivors sel chs m1) \<union> set m2. \<forall>w \<in> set ws. watcher_ok n chs' w"
    using 1 2 by fast
  ultimately have "maps_ok n (survivors sel chs m1) m2 chs'"
    using assms by (simp add: maps_ok_def)
  with s show ?thesis by blast
qed

end

section \<open>The bodies of the program implement the interface\<close>

definition expire_eff :: "int \<Rightarrow> watcher_info \<Rightarrow> chan \<Rightarrow> chan \<times> bool" where
  "expire_eff now info c =
     (if w_expireAt info > 0 \<and> now > w_expireAt info then (c\<lparr>ch_closed := True\<rparr>, True) else (c, False))"

definition deliver :: "event list \<Rightarrow> chan \<Rightarrow> chan" where
  \<comment> \<open>what does not fit in the buffer is lost\<close>
  "deliver evs c = c\<lparr>ch_buf := take chan_cap (ch_buf c @ evs)\<rparr>"

definition notify_eff ::
  "(string \<Rightarrow> event \<Rightarrow> bool) \<Rightarrow> event list \<Rightarrow> event \<Rightarrow> string \<Rightarrow> watcher_info \<Rightarrow> chan \<Rightarrow> chan \<times> bool" where
  "notify_eff matches log ev k info c =
     (let c1 = deliver (history (matches k) log ev (w_fromRev info)) c
      in if length (ch_buf c1) < chan_cap \<and> \<not> w_persistent info
         then ((deliver [ev] c1)\<lparr>ch_closed := True\<rparr>, True) else (deliver [ev] c1, False))"

lemma deliver_ok: "chan_ok c \<Longrightarrow> chan_ok (deliver evs c)"
  by (auto simp: chan_ok_def deliver_def min_def)

lemma try_send_open:
  assumes "map_of chs i = Some c" and "chan_ok c"
  shows "\<exists>chs'. try_send i ev chs = Some (chs', length (ch_buf c) < chan_cap) \<and>
    map_of chs' = (map_of chs)(i \<mapsto> deliver [ev] c)"
proof (cases "length (ch_buf c) < chan_cap")
  case True
  then have "deliver [ev] c = c\<lparr>ch_buf := ch_buf c @ [ev]\<rparr>" by (simp add: deliver_def)
  then show ?thesis using assms True
    by (auto simp: try_send_def chan_ok_def fun_eq_iff map_of_gomap_update)
next
  case False
  then have "take chan_cap (ch_buf c @ [ev]) = ch_buf c" using assms(2) by (simp add: chan_ok_def)
  then have "deliver [ev] c = c" by (simp add: deliver_def)
  then show ?thesis using assms False by (auto simp: try_send_def chan_ok_def fun_upd_idem)
qed

lemma deliver_append: "chan_ok c \<Longrightarrow> deliver evs' (deliver evs c) = deliver (evs @ evs') c"
  by (simp add: deliver_def chan_ok_def min_def)

lemma send_all_open:
  assumes "map_of chs i = Some c" and "chan_ok c"
  shows "\<exists>chs'. send_all i evs chs = Some chs' \<and> map_of chs' = (map_of chs)(i \<mapsto> deliver evs c)"
  using assms
proof (induction evs arbitrary: chs c)
  case Nil
  then have "deliver [] c = c" by (simp add: deliver_def chan_ok_def)
  then show ?case using Nil by (simp add: fun_upd_idem)
next
  case (Cons ev evs)
  obtain chs1 b where 1: "try_send i ev chs = Some (chs1, b)" "map_of chs1 = (map_of chs)(i \<mapsto> deliver [ev] c)"
    using try_send_open [OF Cons.prems] by blast
  have "map_of chs1 i = Some (deliver [ev] c)" using 1 by simp
  from Cons.IH [OF this deliver_ok [OF Cons.prems(2)]] obtain chs2 where
    "send_all i evs chs1 = Some chs2" "map_of chs2 = (map_of chs1)(i \<mapsto> deliver evs (deliver [ev] c))"
    by blast
  then show ?case using 1 by (simp add: deliver_append [OF Cons.prems(2)] fun_eq_iff)
qed

lemma close_chan_open:
  "map_of chs i = Some c \<Longrightarrow> chan_ok c \<Longrightarrow>
    \<exists>chs'. close_chan i chs = Some chs' \<and> map_of chs' = (map_of chs)(i \<mapsto> c\<lparr>ch_closed := True\<rparr>)"
  by (auto simp: close_chan_def chan_ok_def fun_eq_iff map_of_gomap_update)

interpretation ew: watcher_body "\<lambda>_. expire_watcher now" "\<lambda>_. expire_eff now" for now
proof (unfold_locales, goal_cases)
  case (1 chs info c)
  then show ?case using close_chan_open [OF 1]
    by (auto simp: expire_watcher_def expire_eff_def fun_upd_idem)
next
  case (2 c info)
  then show ?case by (auto simp: expire_eff_def split: if_splits)
qed

interpretation nw: watcher_body "\<lambda>k. notify_one (matches k) log ev" "notify_eff matches log ev"
  for matches log ev
proof (unfold_locales, goal_cases)
  case (1 chs info c k)
  let ?i = "w_id info"
  define c1 where "c1 = deliver (history (matches k) log ev (w_fromRev info)) c"
  have c1: "chan_ok c1" unfolding c1_def by (rule deliver_ok [OF 1(2)])
  obtain chs1 where s1: "send_all ?i (history (matches k) log ev (w_fromRev info)) chs = Some chs1"
    and m1: "map_of chs1 = (map_of chs)(?i \<mapsto> c1)"
    unfolding c1_def using send_all_open [OF 1] by blast
  have "map_of chs1 ?i = Some c1" using m1 by simp
  then obtain chs2 where s2: "try_send ?i ev chs1 = Some (chs2, length (ch_buf c1) < chan_cap)"
    and m2: "map_of chs2 = (map_of chs)(?i \<mapsto> deliver [ev] c1)"
    using try_send_open [OF _ c1, of chs1 ?i ev] m1 by auto
  then have "map_of chs2 ?i = Some (deliver [ev] c1)" by simp
  then obtain chs3 where s3: "close_chan ?i chs2 = Some chs3"
    and m3: "map_of chs3 = (map_of chs)(?i \<mapsto> (deliver [ev] c1)\<lparr>ch_closed := True\<rparr>)"
    using close_chan_open [OF _ deliver_ok [OF c1], of chs2 ?i "[ev]"] m2 by auto
  show ?case
    using s1 s2 s3 m2 m3 by (auto simp: notify_one_def notify_eff_def Let_def c1_def [symmetric])
next
  case (2 c k info)
  then show ?case by (auto simp: notify_eff_def Let_def deliver_ok split: if_splits)
qed

lemma sweep_map_single:
  assumes "gomap_wf m"
  shows "sweep_map (\<lambda>k. k = key) body m chs =
    (case map_of m key of
       None \<Rightarrow> Some (m, chs)
     | Some ws \<Rightarrow> do { (ws', chs') \<leftarrow> sweep (body key) ws chs;
         Some (if length ws' = 0 then AList.delete key m else AList.update key ws' m, chs') })"
  using assms
proof (induction m arbitrary: chs)
  case (Cons p m)
  obtain k ws where p: "p = (k, ws)" by (cases p)
  show ?case
  proof (cases "k = key")
    case True
    then have "map_of m key = None" using Cons.prems p by (simp add: map_of_eq_None_iff)
    moreover from this have "AList.delete key m = m"
      by (simp add: AList.delete_eq filter_id_conv map_of_eq_None_iff image_iff) force
    ultimately show ?thesis using Cons p True by (auto simp: Option.bind_eq_None_conv split: prod.split bind_split)
  next
    case False
    then show ?thesis using Cons p
      by (cases "map_of m key") (auto split: prod.split bind_split)
  qed
qed simp

section \<open>Every operation keeps the invariant\<close>

lemma maps_okD:
  "maps_ok n m1 m2 chs \<Longrightarrow> (k, ws) \<in> set m1 \<Longrightarrow> w \<in> set ws \<Longrightarrow> watcher_ok n chs w"
  by (fastforce simp: maps_ok_def)

lemma regs_ids: "maps_ok n m1 m2 chs \<Longrightarrow> i \<in> set (regs m1) \<Longrightarrow> i \<le> n"
  by (fastforce simp: mem_regs watcher_ok_def dest: maps_okD)

lemma watcher_ok_mono:
  "watcher_ok n chs w \<Longrightarrow> n \<le> n' \<Longrightarrow> map_of chs' (fst w) = map_of chs (fst w) \<Longrightarrow> watcher_ok n' chs' w"
  by (cases w) (auto simp: watcher_ok_def)

lemma regs_add:
  assumes "i \<notin> set (regs m)"
  shows "mset (regs (AList.update key (AList.update i info (gomap_get [] m key)) m)) =
    add_mset i (mset (regs m))"
  using assms
proof (induction m)
  case (Cons p m)
  obtain k ws where p: "p = (k, ws)" by (cases p)
  have "map_of ws i = None" using Cons.prems p by (auto simp: map_of_eq_None_iff)
  then show ?case using Cons p by (auto simp: gomap_get_def gomap_update_fresh)
qed (simp add: gomap_get_def)

lemma maps_ok_add:
  assumes ok: "maps_ok n m1 m2 chs" and n: "0 \<le> n" and info: "w_id info = n + 1"
  shows "maps_ok (n + 1) (AList.update key (AList.update (n + 1) info (gomap_get [] m1 key)) m1) m2
    (AList.update (n + 1) \<lparr>ch_buf = [], ch_closed = False\<rparr> chs)"
proof -
  let ?ws = "gomap_get [] m1 key" and ?chs = "AList.update (n + 1) \<lparr>ch_buf = [], ch_closed = False\<rparr> chs"
  have fresh: "n + 1 \<notin> set (regs m1)" "n + 1 \<notin> set (regs m2)"
    using regs_ids [OF ok] regs_ids [OF ok [unfolded maps_ok_sym [of n m1]]] by force+
  have old: "watcher_ok (n + 1) ?chs w" if "(k, ws) \<in> set m1 \<union> set m2" and "w \<in> set ws" for k ws w
  proof -
    have w: "watcher_ok n chs w" using ok that by (fastforce simp: maps_ok_def)
    then have "fst w \<noteq> n + 1" by (cases w) (auto simp: watcher_ok_def)
    then show ?thesis using watcher_ok_mono [OF w, of "n + 1" ?chs] by (simp add: map_of_gomap_update)
  qed
  have new: "watcher_ok (n + 1) ?chs (n + 1, info)"
    using n info by (simp add: watcher_ok_def map_of_gomap_update chan_ok_def)
  have wf: "gomap_wf m1" "gomap_wf m2" using ok by (simp_all add: maps_ok_def)
  have entries: "\<forall>w \<in> set ws. watcher_ok (n + 1) ?chs w"
    if "(k, ws) \<in> set (AList.update key (AList.update (n + 1) info ?ws) m1) \<union> set m2" for k ws
  proof (cases "k = key \<and> ws = AList.update (n + 1) info ?ws")
    case True
    have "set (AList.update (n + 1) info ?ws) \<subseteq> insert (n + 1, info) (set ?ws)"
      by (rule gomap_update_subset)
    moreover have "watcher_ok (n + 1) ?chs w" if "w \<in> set ?ws" for w
    proof -
      have "(key, ?ws) \<in> set m1"
        using that map_of_SomeD [of m1 key] by (cases "map_of m1 key") (simp_all add: gomap_get_def)
      then show ?thesis using old that by blast
    qed
    ultimately show ?thesis using True new by blast
  next
    case False
    then have "(k, ws) \<in> set m1 \<union> set m2" using that gomap_mem_update [OF wf(1)] by (auto split: if_splits)
    then show ?thesis using old by blast
  qed
  have "mset (regs (AList.update key (AList.update (n + 1) info ?ws) m1) @ regs m2) =
      mset ((n + 1) # regs m1 @ regs m2)"
    using regs_add [OF fresh(1), of key info] by simp
  moreover have "distinct ((n + 1) # regs m1 @ regs m2)" using fresh ok by (simp add: maps_ok_def)
  ultimately have "distinct (regs (AList.update key (AList.update (n + 1) info ?ws) m1) @ regs m2)"
    using mset_eq_imp_distinct_iff by blast
  then show ?thesis using wf entries by (auto simp: maps_ok_def)
qed

lemma regs_unique:
  "distinct (regs m) \<Longrightarrow> (k, ws) \<in> set m \<Longrightarrow> (k', ws') \<in> set m \<Longrightarrow>
    (i, f) \<in> set ws \<Longrightarrow> (i, f') \<in> set ws' \<Longrightarrow> (k, ws) = (k', ws')"
proof (induction m)
  case (Cons p m)
  obtain k0 ws0 where p: "p = (k0, ws0)" by (cases p)
  have disj: "j \<notin> set (regs m)" if "(j, g) \<in> set ws0" for j g
    using Cons.prems(1) p that by force
  show ?case using Cons p disj regsI [of k ws m i f] regsI [of k' ws' m i f'] by auto
qed simp

lemma regs_update_subseq:
  "map_of m key = Some ws \<Longrightarrow> subseq (map fst ws') (map fst ws) \<Longrightarrow>
    subseq (regs (AList.update key ws' m)) (regs m)"
proof (induction m)
  case (Cons p m)
  obtain k ws0 where p: "p = (k, ws0)" by (cases p)
  show ?case
  proof (cases "k = key")
    case True
    then show ?thesis using Cons.prems p by (simp add: list_emb_append_mono)
  next
    case False
    then show ?thesis using Cons p by (simp add: list_emb_append_mono)
  qed
qed simp

lemma drop_watcher_keeps:
  assumes ok: "maps_ok n m1 m2 chs"
  shows "\<exists>m1' chs'. drop_watcher key i m1 chs = Some (m1', chs') \<and> maps_ok n m1' m2 chs'"
proof (cases "\<exists>ws info. map_of m1 key = Some ws \<and> map_of ws i = Some info")
  case False
  then have "drop_watcher key i m1 chs = Some (m1, chs)"
    by (auto simp: drop_watcher_def split: option.split)
  then show ?thesis using ok by blast
next
  case True
  then obtain ws info where ws: "map_of m1 key = Some ws" and info: "map_of ws i = Some info" by blast
  note mem = map_of_SomeD [OF ws] map_of_SomeD [OF info]
  have "watcher_ok n chs (i, info)" by (rule maps_okD [OF ok mem])
  then obtain c where c: "w_id info = i" "map_of chs i = Some c" "chan_ok c"
    by (auto simp: watcher_ok_def split: option.splits)
  then obtain chs' where cl: "close_chan i chs = Some chs'"
    and chs': "map_of chs' = (map_of chs)(i \<mapsto> c\<lparr>ch_closed := True\<rparr>)"
    using close_chan_open by blast
  let ?m = "AList.update key (AList.delete i ws) m1"
  have wf: "gomap_wf m1" "gomap_wf m2" and d: "distinct (regs m1 @ regs m2)"
    using ok by (simp_all add: maps_ok_def)
  have sub: "subseq (regs ?m @ regs m2) (regs m1 @ regs m2)"
    by (intro list_emb_append_mono regs_update_subseq [OF ws] subseq_order.refl)
      (simp add: AList.delete_eq subseq_map subseq_filter_left)
  have keep: "watcher_ok n chs' w" if "watcher_ok n chs w" and "fst w \<noteq> i" for w
    by (rule watcher_ok_mono [OF that(1)]) (use that(2) chs' in simp_all)
  have "watcher_ok n chs' w" if kws: "(k, ws') \<in> set ?m \<union> set m2" and w: "w \<in> set ws'" for k ws' w
  proof (cases "(k, ws') \<in> set ?m \<and> k = key")
    case True
    then have "ws' = AList.delete i ws" using gomap_mem_update [OF wf(1)] by auto
    then have "w \<in> set ws" and "fst w \<noteq> i" using w by (auto simp: AList.delete_eq)
    then show ?thesis using maps_okD [OF ok mem(1)] keep by blast
  next
    case False
    then have old: "(k, ws') \<in> set m1 \<and> k \<noteq> key \<or> (k, ws') \<in> set m2"
      using kws gomap_mem_update [OF wf(1)] by (auto split: if_splits)
    have "fst w \<noteq> i"
    proof
      assume "fst w = i"
      then have w': "(i, snd w) \<in> set ws'" using w by (metis prod.collapse)
      from old show False
      proof
        assume "(k, ws') \<in> set m1 \<and> k \<noteq> key"
        then show False using regs_unique [OF _ mem(1) _ mem(2) w'] d by auto
      next
        assume "(k, ws') \<in> set m2"
        then show False using regsI [OF _ w', of k m2] regsI [OF mem] d by auto
      qed
    qed
    moreover have "watcher_ok n chs w" using ok old w by (fastforce simp: maps_ok_def)
    ultimately show ?thesis by (rule keep [rotated])
  qed
  then have "maps_ok n ?m m2 chs'"
    using wf distinct_subseq [OF sub d] by (auto simp: maps_ok_def)
  moreover have "drop_watcher key i m1 chs = Some (?m, chs')"
    using ws info c cl by (simp add: drop_watcher_def)
  ultimately show ?thesis by blast
qed

datatype watch_op =
    WAdd int string bool int int
  | WAddPrefix int string bool int int
  | WRemove string int
  | WRemovePrefix string int
  | WCleanup int
  | WNotify command
  | WRecv int

fun watch_step :: "watch_op \<Rightarrow> watch_mgr \<Rightarrow> watch_mgr option" where
  "watch_step (WAdd now key persistent timeout fromRev) wa =
     Some (fst (AddWatcher now wa key persistent timeout fromRev))"
| "watch_step (WAddPrefix now pre persistent timeout fromRev) wa =
     Some (fst (AddPrefixWatcher now wa pre persistent timeout fromRev))"
| "watch_step (WRemove key i) wa = RemoveWatcher wa key i"
| "watch_step (WRemovePrefix pre i) wa = RemovePrefixWatcher wa pre i"
| "watch_step (WCleanup now) wa = CleanupExpired now wa"
| "watch_step (WNotify cmd) wa = notifyWatchers wa cmd"
| "watch_step (WRecv i) wa = Some (fst (recv i wa))"

fun run_watch :: "watch_op list \<Rightarrow> watch_mgr \<Rightarrow> watch_mgr option" where
  "run_watch [] wa = Some wa"
| "run_watch (op # ops) wa = do { wa' \<leftarrow> watch_step op wa; run_watch ops wa' }"

lemma wm_ok_New [wj_inv]: "wm_ok NewWatchManager"
  by (simp add: NewWatchManager_def wm_ok_def maps_ok_def)

lemma wm_ok_add [wj_inv]:
  assumes "wm_ok wa"
  shows "wm_ok (fst (addWatcherInternal now wa key pre persistent timeout fromRev))"
proof -
  have n: "0 \<le> wm_nextID wa"
    and ok: "maps_ok (wm_nextID wa) (wm_watchers wa) (wm_prefixWatchers wa) (wm_chans wa)"
    using assms by (simp_all add: wm_ok_def)
  note ok' = ok [unfolded maps_ok_sym [of _ "wm_watchers wa"]]
  show ?thesis
    using n maps_ok_add [OF ok n, of "\<lparr>w_id = wm_nextID wa + 1, w_persistent = persistent,
          w_expireAt = if timeout > 0 then wrap64 (now + timeout) else 0, w_fromRev = fromRev\<rparr>" key]
      maps_ok_add [OF ok' n, of "\<lparr>w_id = wm_nextID wa + 1, w_persistent = persistent,
          w_expireAt = if timeout > 0 then wrap64 (now + timeout) else 0, w_fromRev = fromRev\<rparr>" pre]
    by (simp add: addWatcherInternal_def Let_def wm_ok_def maps_ok_sym [of _ "wm_watchers wa"])
qed

lemma wm_ok_recv [wj_inv]:
  assumes "wm_ok wa"
  shows "wm_ok (fst (recv i wa))"
proof (cases "\<exists>c ev evs. map_of (wm_chans wa) i = Some c \<and> ch_buf c = ev # evs")
  case True
  then obtain c ev evs where c: "map_of (wm_chans wa) i = Some c" "ch_buf c = ev # evs" by blast
  have "watcher_ok n (AList.update i (c\<lparr>ch_buf := evs\<rparr>) (wm_chans wa)) w"
    if "watcher_ok n (wm_chans wa) w" for n w
    using that c by (cases w) (auto simp: watcher_ok_def map_of_gomap_update chan_ok_def)
  then have "maps_ok n m1 m2 (AList.update i (c\<lparr>ch_buf := evs\<rparr>) (wm_chans wa))"
    if "maps_ok n m1 m2 (wm_chans wa)" for n m1 m2
    using that unfolding maps_ok_def by fast
  then show ?thesis using assms c by (simp add: recv_def wm_ok_def)
next
  case False
  then show ?thesis using assms by (auto simp: recv_def split: option.split list.split)
qed

lemma wm_ok_Remove [wj_inv]:
  assumes "wm_ok wa"
  shows "\<exists>wa'. RemoveWatcher wa key i = Some wa' \<and> wm_ok wa'"
    and "\<exists>wa'. RemovePrefixWatcher wa key i = Some wa' \<and> wm_ok wa'"
proof -
  have ok: "maps_ok (wm_nextID wa) (wm_watchers wa) (wm_prefixWatchers wa) (wm_chans wa)"
    using assms by (simp add: wm_ok_def)
  show "\<exists>wa'. RemoveWatcher wa key i = Some wa' \<and> wm_ok wa'"
    using drop_watcher_keeps [OF ok, of key i] assms by (auto simp: RemoveWatcher_def wm_ok_def)
  show "\<exists>wa'. RemovePrefixWatcher wa key i = Some wa' \<and> wm_ok wa'"
    using drop_watcher_keeps [OF ok [unfolded maps_ok_sym [of _ "wm_watchers wa"]], of key i] assms
    by (auto simp: RemovePrefixWatcher_def wm_ok_def maps_ok_sym [of _ "wm_watchers wa"])
qed

lemma wm_ok_Cleanup [wj_inv]:
  assumes "wm_ok wa"
  shows "\<exists>wa'. CleanupExpired now wa = Some wa' \<and> wm_ok wa'"
proof -
  have ok: "maps_ok (wm_nextID wa) (wm_watchers wa) (wm_prefixWatchers wa) (wm_chans wa)"
    using assms by (simp add: wm_ok_def)
  show ?thesis using ew.sweep_map_keeps [OF ok, of "\<lambda>_. True" now] assms
    by (auto simp: CleanupExpired_def wm_ok_def)
qed

lemma notifyExactWatchers_sweep:
  assumes "gomap_wf (wm_watchers wa)"
  shows "notifyExactWatchers wa key ev =
    do { (m, chs) \<leftarrow> sweep_map (\<lambda>k. k = key) (\<lambda>k. notify_one (\<lambda>h. e_Key h = k) (wm_eventLog wa) ev)
           (wm_watchers wa) (wm_chans wa);
         Some (wa\<lparr>wm_watchers := m, wm_chans := chs\<rparr>) }"
  unfolding sweep_map_single [OF assms]
  by (cases "map_of (wm_watchers wa) key") (auto simp: notifyExactWatchers_def split: bind_split prod.split)

lemma wm_ok_notify [wj_inv]:
  assumes "wm_ok wa"
  shows "\<exists>wa'. notifyWatchers wa cmd = Some wa' \<and> wm_ok wa'"
proof (cases "event_type (c_Type cmd)")
  case None
  then show ?thesis using assms by (simp add: notifyWatchers_def)
next
  case (Some ty)
  define ev where "ev = \<lparr>e_Key = c_Key cmd, e_Value = c_Value cmd, e_Type = ty, e_Revision = c_Revision cmd\<rparr>"
  define wa0 where "wa0 = wa\<lparr>wm_eventLog := wm_eventLog wa @ [ev]\<rparr>"
  have n: "0 \<le> wm_nextID wa0" and ok: "maps_ok (wm_nextID wa0) (wm_watchers wa0) (wm_prefixWatchers wa0) (wm_chans wa0)"
    using assms by (simp_all add: wm_ok_def wa0_def)
  have wf: "gomap_wf (wm_watchers wa0)" using ok by (simp add: maps_ok_def)
  obtain m1 chs1 where 1: "notifyExactWatchers wa0 (c_Key cmd) ev = Some (wa0\<lparr>wm_watchers := m1, wm_chans := chs1\<rparr>)"
    and ok1: "maps_ok (wm_nextID wa0) m1 (wm_prefixWatchers wa0) chs1"
    using nw.sweep_map_keeps [OF ok, of "\<lambda>k. k = c_Key cmd" "\<lambda>k h. e_Key h = k" "wm_eventLog wa0" ev]
    by (auto simp: notifyExactWatchers_sweep [OF wf])
  obtain m2 chs2 where
    2: "notifyPrefixWatchers (wa0\<lparr>wm_watchers := m1, wm_chans := chs1\<rparr>) (c_Key cmd) ev =
        Some (wa0\<lparr>wm_watchers := m1, wm_prefixWatchers := m2, wm_chans := chs2\<rparr>)"
    and ok2: "maps_ok (wm_nextID wa0) m2 m1 chs2"
    using nw.sweep_map_keeps [OF ok1 [unfolded maps_ok_sym [of _ m1]], of "\<lambda>pre. has_prefix pre (c_Key cmd)"
        "\<lambda>pre h. has_prefix pre (e_Key h)" "wm_eventLog wa0" ev]
    by (auto simp: notifyPrefixWatchers_def)
  have "notifyWatchers wa cmd = Some (wa0\<lparr>wm_watchers := m1, wm_prefixWatchers := m2, wm_chans := chs2\<rparr>)"
    using Some 1 2 by (simp add: notifyWatchers_def Let_def wa0_def [symmetric] ev_def [symmetric])
  then show ?thesis using n ok2 by (simp add: wm_ok_def maps_ok_sym [of _ m1])
qed

lemma wm_ok_step: "wm_ok wa \<Longrightarrow> \<exists>wa'. watch_step op wa = Some wa' \<and> wm_ok wa'"
  by (cases op) (simp_all add: wj_inv AddWatcher_def AddPrefixWatcher_def)

lemma wm_ok_run: "wm_ok wa \<Longrightarrow> \<exists>wa'. run_watch ops wa = Some wa' \<and> wm_ok wa'"
proof (induction ops arbitrary: wa)
  case (Cons op ops)
  then show ?case using wm_ok_step [OF Cons.prems, of op] by auto
qed simp

section \<open>What a notification delivers\<close>

definition watching :: "watch_mgr \<Rightarrow> string \<Rightarrow> (event \<Rightarrow> bool) \<Rightarrow> int \<Rightarrow> watcher_info \<Rightarrow> bool" where
  \<comment> \<open>watcher \<open>i\<close> is registered for the key, or for a prefix of it; \<open>matches\<close> selects its history\<close>
  "watching wa key matches i info \<longleftrightarrow>
     (\<exists>ws. (key, ws) \<in> set (wm_watchers wa) \<and> (i, info) \<in> set ws \<and> matches = (\<lambda>h. e_Key h = key)) \<or>
     (\<exists>pre ws. (pre, ws) \<in> set (wm_prefixWatchers wa) \<and> (i, info) \<in> set ws \<and> has_prefix pre key \<and>
        matches = (\<lambda>h. has_prefix pre (e_Key h)))"

lemma maps_ok_ready:
  assumes "maps_ok n m1 m2 chs"
  shows "distinct (regs m1)"
    and "\<forall>(k, ws) \<in> set m1. \<forall>(i, info) \<in> set ws. w_id info = i \<and> (\<exists>c. map_of chs i = Some c \<and> chan_ok c)"
  using assms maps_okD [OF assms]
  by (fastforce simp: maps_ok_def watcher_ok_def split: option.splits)+

lemma notify_sweep:
  assumes ok: "maps_ok n m1 m2 chs"
    and s: "sweep_map sel (\<lambda>k. notify_one (matches k) log ev) m1 chs = Some (m1', chs')"
  shows "(k, ws) \<in> set m1 \<Longrightarrow> (i, info) \<in> set ws \<Longrightarrow>
      map_of chs' i = (if sel k then Some (fst (notify_eff matches log ev k info (the (map_of chs i)))) else map_of chs i)"
    and "j \<notin> set (regs m1) \<Longrightarrow> map_of chs' j = map_of chs j"
  using nw.sweep_map_ok [OF maps_ok_ready [OF ok], of sel matches log ev] s by fastforce+

lemma notify_eff_at: "notify_eff matches log ev k = notify_eff (\<lambda>_. matches k) log ev []"
  by (intro ext) (simp add: notify_eff_def)

lemma notify_channels:
  assumes "wm_ok wa" and ty: "event_type (c_Type cmd) = Some ty"
  defines "ev \<equiv> \<lparr>e_Key = c_Key cmd, e_Value = c_Value cmd, e_Type = ty, e_Revision = c_Revision cmd\<rparr>"
  defines "wa0 \<equiv> wa\<lparr>wm_eventLog := wm_eventLog wa @ [ev]\<rparr>"
  assumes wa': "notifyWatchers wa cmd = Some wa'"
  shows "watching wa (c_Key cmd) matches i info \<Longrightarrow> map_of (wm_chans wa') i =
      Some (fst (notify_eff (\<lambda>_. matches) (wm_eventLog wa0) ev [] info (the (map_of (wm_chans wa) i))))"
    and "(\<And>matches info. \<not> watching wa (c_Key cmd) matches j info) \<Longrightarrow>
      map_of (wm_chans wa') j = map_of (wm_chans wa) j"
proof -
  let ?key = "c_Key cmd" and ?m1 = "wm_watchers wa" and ?m2 = "wm_prefixWatchers wa" and ?log = "wm_eventLog wa0"
  have ok: "maps_ok (wm_nextID wa) ?m1 ?m2 (wm_chans wa)" using assms(1) by (simp add: wm_ok_def)
  then have wf: "gomap_wf (wm_watchers wa0)" by (simp add: maps_ok_def wa0_def)
  obtain m1 chs1 where s1: "sweep_map (\<lambda>k. k = ?key) (\<lambda>k. notify_one (\<lambda>h. e_Key h = k) ?log ev) ?m1 (wm_chans wa) = Some (m1, chs1)"
    and ok1: "maps_ok (wm_nextID wa) m1 ?m2 chs1"
    using nw.sweep_map_keeps [OF ok, of "\<lambda>k. k = ?key" "\<lambda>k h. e_Key h = k" ?log ev] by blast
  note ok2 = ok1 [unfolded maps_ok_sym [of _ m1]]
  obtain m2 chs2 where s2: "sweep_map (\<lambda>pre. has_prefix pre ?key)
        (\<lambda>pre. notify_one (\<lambda>h. has_prefix pre (e_Key h)) ?log ev) ?m2 chs1 = Some (m2, chs2)"
    using nw.sweep_map_keeps [OF ok2, of "\<lambda>pre. has_prefix pre ?key" "\<lambda>pre h. has_prefix pre (e_Key h)" ?log ev] by blast
  have wa0: "wm_watchers wa0 = ?m1" "wm_prefixWatchers wa0 = ?m2" "wm_chans wa0 = wm_chans wa"
    by (simp_all add: wa0_def)
  have "notifyExactWatchers wa0 ?key ev = Some (wa0\<lparr>wm_watchers := m1, wm_chans := chs1\<rparr>)"
    using s1 by (simp add: notifyExactWatchers_sweep [OF wf] wa0)
  moreover have "notifyPrefixWatchers (wa0\<lparr>wm_watchers := m1, wm_chans := chs1\<rparr>) ?key ev =
      Some (wa0\<lparr>wm_watchers := m1, wm_prefixWatchers := m2, wm_chans := chs2\<rparr>)"
    using s2 by (simp add: notifyPrefixWatchers_def wa0)
  moreover have "notifyWatchers wa cmd =
      do { wa1 \<leftarrow> notifyExactWatchers wa0 ?key ev; notifyPrefixWatchers wa1 ?key ev }"
    using ty by (simp add: notifyWatchers_def Let_def wa0_def ev_def)
  ultimately have chs: "wm_chans wa' = chs2" using wa' by auto
  note e1 = notify_sweep [OF ok s1] and e2 = notify_sweep [OF ok2 s2]
  have disj: "set (regs ?m1) \<inter> set (regs ?m2) = {}" using ok by (auto simp: maps_ok_def)
  show "map_of (wm_chans wa') i =
      Some (fst (notify_eff (\<lambda>_. matches) ?log ev [] info (the (map_of (wm_chans wa) i))))"
    if "watching wa ?key matches i info"
    using that unfolding watching_def
  proof (elim disjE exE conjE)
    fix ws assume ws: "(?key, ws) \<in> set ?m1" "(i, info) \<in> set ws" "matches = (\<lambda>h. e_Key h = ?key)"
    then have "i \<notin> set (regs ?m2)" using disj regsI [OF ws(1,2)] by blast
    then show ?thesis using e1(1) [OF ws(1,2)] e2(2) chs ws(3)
      by (simp add: notify_eff_at [of "\<lambda>k h. e_Key h = k"])
  next
    fix pre ws assume ws: "(pre, ws) \<in> set ?m2" "(i, info) \<in> set ws" "has_prefix pre ?key"
      "matches = (\<lambda>h. has_prefix pre (e_Key h))"
    then have "i \<notin> set (regs ?m1)" using disj regsI [OF ws(1,2)] by blast
    then show ?thesis using e2(1) [OF ws(1,2)] e1(2) chs ws(3,4)
      by (simp add: notify_eff_at [of "\<lambda>pre h. has_prefix pre (e_Key h)"])
  qed
  show "map_of (wm_chans wa') j = map_of (wm_chans wa) j"
    if no: "\<And>matches info. \<not> watching wa ?key matches j info"
  proof -
    have 1: "map_of chs1 j = map_of (wm_chans wa) j"
    proof (cases "j \<in> set (regs ?m1)")
      case True
      then obtain k ws info where "(k, ws) \<in> set ?m1" "(j, info) \<in> set ws" by (auto simp: mem_regs)
      then show ?thesis using e1(1) no unfolding watching_def by metis
    qed (rule e1(2))
    have "map_of chs2 j = map_of chs1 j"
    proof (cases "j \<in> set (regs ?m2)")
      case True
      then obtain k ws info where "(k, ws) \<in> set ?m2" "(j, info) \<in> set ws" by (auto simp: mem_regs)
      then show ?thesis using e2(1) no unfolding watching_def by metis
    qed (rule e2(2))
    then show ?thesis using 1 chs by simp
  qed
qed

lemma history_self: "history matches (log @ [ev]) ev r = history matches log ev r"
  by (simp add: history_def)

section \<open>Properties\<close>

text \<open>
  C22: no sequence of watch operations panics. Whatever watchers are added, cancelled, expired
  and notified, in whatever order and however slowly their channels are read, no event is sent
  on a closed channel and no channel is closed twice; at the end every registered watcher has
  an open channel within its capacity.
\<close>

theorem watch_never_panics:
  "\<exists>wa. run_watch ops NewWatchManager = Some wa \<and> wm_ok wa"
  by (rule wm_ok_run [OF wm_ok_New])

text \<open>
  C23: a write reaches exactly the watchers of its key and of the prefixes of its key. Each of
  them finds in its channel, after what the channel already held, the past events it asked for
  and then the new event, cut at the capacity of the channel; a one-shot watcher's channel is
  closed when the new event fitted. Every other channel is left as it was.
\<close>

theorem watch_delivery:
  fixes cmd :: command and ty :: string
  defines "ev \<equiv> \<lparr>e_Key = c_Key cmd, e_Value = c_Value cmd, e_Type = ty, e_Revision = c_Revision cmd\<rparr>"
  assumes "wm_ok wa" and "event_type (c_Type cmd) = Some ty"
  shows "\<exists>wa'. notifyWatchers wa cmd = Some wa' \<and> wm_ok wa' \<and>
    (\<forall>matches i info c. watching wa (c_Key cmd) matches i info \<longrightarrow> map_of (wm_chans wa) i = Some c \<longrightarrow>
       map_of (wm_chans wa') i = Some
         \<lparr>ch_buf = take chan_cap (ch_buf c @ history matches (wm_eventLog wa) ev (w_fromRev info) @ [ev]),
          ch_closed = (\<not> w_persistent info \<and>
            length (ch_buf c) + length (history matches (wm_eventLog wa) ev (w_fromRev info)) < chan_cap)\<rparr>) \<and>
    (\<forall>j. (\<forall>matches info. \<not> watching wa (c_Key cmd) matches j info) \<longrightarrow>
       map_of (wm_chans wa') j = map_of (wm_chans wa) j)"
proof -
  obtain wa' where wa': "notifyWatchers wa cmd = Some wa'" "wm_ok wa'" using wm_ok_notify [OF assms(2)] by blast
  note effect = notify_channels [OF assms(2,3) wa'(1), folded ev_def]
  have "map_of (wm_chans wa') i = Some
      \<lparr>ch_buf = take chan_cap (ch_buf c @ history matches (wm_eventLog wa) ev (w_fromRev info) @ [ev]),
       ch_closed = (\<not> w_persistent info \<and>
         length (ch_buf c) + length (history matches (wm_eventLog wa) ev (w_fromRev info)) < chan_cap)\<rparr>"
    if w: "watching wa (c_Key cmd) matches i info" and c: "map_of (wm_chans wa) i = Some c" for matches i info c
  proof -
    have "watcher_ok (wm_nextID wa) (wm_chans wa) (i, info)"
      using w assms(2) by (fastforce simp: watching_def wm_ok_def maps_ok_def)
    then have "chan_ok c" using c by (simp add: watcher_ok_def)
    moreover have "map_of (wm_chans wa') i = Some (fst (notify_eff (\<lambda>_. matches) (wm_eventLog wa @ [ev]) ev [] info c))"
      using effect(1) [OF w] c by simp
    ultimately show ?thesis
      by (cases c) (auto simp: notify_eff_def Let_def history_self deliver_append deliver_def chan_ok_def min_def)
  qed
  then show ?thesis using wa' effect(2) by blast
qed

theorem watch_delivery_witness:
  "\<exists>wa wa'. run_watch [WAdd 0 ''a'' False 0 0, WAddPrefix 0 ''b'' True 0 0] NewWatchManager = Some wa \<and> wm_ok wa \<and>
     notifyWatchers wa (zero_command\<lparr>c_Key := ''a'', c_Value := ''1'', c_Revision := 7\<rparr>) = Some wa' \<and>
     map_of (wm_chans wa') 1 =
       Some \<lparr>ch_buf = [\<lparr>e_Key = ''a'', e_Value = ''1'', e_Type = ''PUT'', e_Revision = 7\<rparr>], ch_closed = True\<rparr> \<and>
     map_of (wm_chans wa') 2 = Some \<lparr>ch_buf = [], ch_closed = False\<rparr>"
proof -
  let ?cmd = "zero_command\<lparr>c_Key := ''a'', c_Value := ''1'', c_Revision := 7\<rparr>"
  let ?i1 = "\<lparr>w_id = 1, w_persistent = False, w_expireAt = 0, w_fromRev = 0\<rparr>"
  let ?i2 = "\<lparr>w_id = 2, w_persistent = True, w_expireAt = 0, w_fromRev = 0\<rparr>"
  let ?wa = "\<lparr>wm_watchers = [(''a'', [(1, ?i1)])], wm_prefixWatchers = [(''b'', [(2, ?i2)])], wm_nextID = 2,
     wm_eventLog = [], wm_chans = [(1, \<lparr>ch_buf = [], ch_closed = False\<rparr>), (2, \<lparr>ch_buf = [], ch_closed = False\<rparr>)]\<rparr>"
  have run: "run_watch [WAdd 0 ''a'' False 0 0, WAddPrefix 0 ''b'' True 0 0] NewWatchManager = Some ?wa"
    by code_simp
  have ok: "wm_ok ?wa"
    using wm_ok_run [OF wm_ok_New, of "[WAdd 0 ''a'' False 0 0, WAddPrefix 0 ''b'' True 0 0]"] run by simp
  have w1: "watching ?wa ''a'' (\<lambda>h. e_Key h = ''a'') 1 ?i1" by (simp add: watching_def)
  have w2: "\<not> watching ?wa ''a'' matches 2 info" for matches info by (simp add: watching_def has_prefix_def)
  show ?thesis
    using watch_delivery [OF ok, of ?cmd "''PUT''"] run ok w1 w2
    by (fastforce simp: zero_command_def event_type_def history_def chan_cap_def)
qed

text \<open>
  the sweep of expired watchers removes exactly the watchers on a key whose deadline has
  passed; every other watcher on a key stays registered. Watchers on a prefix are not touched,
  whatever their deadline.
\<close>

theorem watch_cleanup:
  assumes "wm_ok wa"
  shows "\<exists>wa'. CleanupExpired now wa = Some wa' \<and> wm_ok wa' \<and>
    wm_watchers wa' = filter (\<lambda>(key, ws). ws \<noteq> [])
      (map (\<lambda>(key, ws). (key, filter (\<lambda>(i, info). \<not> (0 < w_expireAt info \<and> w_expireAt info < now)) ws))
        (wm_watchers wa)) \<and>
    wm_prefixWatchers wa' = wm_prefixWatchers wa"
proof -
  have ok: "maps_ok (wm_nextID wa) (wm_watchers wa) (wm_prefixWatchers wa) (wm_chans wa)"
    using assms by (simp add: wm_ok_def)
  obtain chs where s: "sweep_map (\<lambda>_. True) (\<lambda>_. expire_watcher now) (wm_watchers wa) (wm_chans wa) =
      Some (ew.survivors now (\<lambda>_. True) (wm_chans wa) (wm_watchers wa), chs)"
    using ew.sweep_map_ok [OF maps_ok_ready [OF ok], of "\<lambda>_. True" now] by blast
  obtain wa' where wa': "CleanupExpired now wa = Some wa'" "wm_ok wa'" using wm_ok_Cleanup [OF assms] by blast
  have "wa' = wa\<lparr>wm_watchers := ew.survivors now (\<lambda>_. True) (wm_chans wa) (wm_watchers wa), wm_chans := chs\<rparr>"
    using wa' s by (simp add: CleanupExpired_def)
  moreover have "snd (expire_eff now info c) \<longleftrightarrow> 0 < w_expireAt info \<and> w_expireAt info < now" for info c
    by (simp add: expire_eff_def)
  ultimately show ?thesis using wa' by simp
qed

theorem watch_cleanup_witness:
  "\<exists>wa wa'. run_watch [WAdd 5 ''a'' True 10 0, WAdd 5 ''a'' True 0 0, WAddPrefix 5 ''a'' True 10 0] NewWatchManager = Some wa \<and>
     wm_ok wa \<and> CleanupExpired 20 wa = Some wa' \<and> wm_ok wa' \<and> length (wm_prefixWatchers wa') = 1"
proof -
  let ?ops = "[WAdd 5 ''a'' True 10 0, WAdd 5 ''a'' True 0 0, WAddPrefix 5 ''a'' True 10 0]"
  obtain wa where wa: "run_watch ?ops NewWatchManager = Some wa" "wm_ok wa"
    using wm_ok_run [OF wm_ok_New] by blast
  have "map_option (\<lambda>wa. length (wm_prefixWatchers wa)) (run_watch ?ops NewWatchManager) = Some 1" by code_simp
  then show ?thesis using watch_cleanup [OF wa(2), of 20] wa by auto
qed

lemma history_repeats:
  \<comment> \<open>a persistent watcher that asked for the past receives it again with every event\<close>
  "map_option (\<lambda>wa. map e_Value (ch_buf (the (map_of (wm_chans wa) 1))))
     (run_watch [WAdd 0 ''a'' True 0 1,
        WNotify (zero_command\<lparr>c_Key := ''a'', c_Value := ''1'', c_Revision := 1\<rparr>),
        WNotify (zero_command\<lparr>c_Key := ''a'', c_Value := ''2'', c_Revision := 2\<rparr>),
        WNotify (zero_command\<lparr>c_Key := ''a'', c_Value := ''3'', c_Revision := 3\<rparr>)] NewWatchManager) =
   Some [''1'', ''1'', ''2'', ''1'', ''2'', ''3'']"
  by code_simp

end
