(* ===== verification/Json.thy ===== *)
theory Json
  imports Wj_Prelude
begin

text \<open>
  What the program uses of Go's \<open>encoding/json\<close>: the text that \<open>json.Marshal\<close> produces for strings,
  integers, booleans and structs, and the value that \<open>json.Unmarshal\<close> builds for an
  \<open>interface{}\<close>. A Go string is a sequence of bytes, here a list of characters. The round trip is
  exact for strings that are valid UTF-8 and for integers that a \<open>float64\<close> represents.
\<close>

section \<open>Values\<close>

text \<open>
  The dynamic types an \<open>interface{}\<close> holds. A decoded number is a \<open>float64\<close>: \<open>JFloat n\<close> is one with
  the integral value \<open>n\<close>, \<open>JFrac n\<close> one that is not integral and whose integral part is \<open>n\<close>; no other
  property of a fractional number matters to the program. \<open>JInt\<close> is an \<open>int\<close> or \<open>int64\<close> that did not
  come through JSON.
\<close>

datatype jval =
    JNull | JBool bool | JStr string | JFloat int | JFrac int | JInt int
  | JObj "(string, jval) gomap" | JArr "jval list"

definition jfield :: "(string, jval) gomap \<Rightarrow> string \<Rightarrow> jval" where
  \<comment> \<open>\<open>m[name]\<close>: nil when the object has no such member\<close>
  "jfield m name = gomap_get JNull m name"

definition float_to_int64 :: "int \<Rightarrow> int" where
  \<comment> \<open>\<open>int64(val)\<close>; a float outside the range gives the least \<open>int64\<close> on \<open>amd64\<close>\<close>
  "float_to_int64 x = (if - 9223372036854775808 \<le> x \<and> x \<le> max_int64 then x else - 9223372036854775808)"

section \<open>Bytes and UTF-8\<close>

definition byte :: "char \<Rightarrow> nat" where
  "byte c = of_char c"

definition cont :: "char \<Rightarrow> bool" where
  "cont c \<longleftrightarrow> 128 \<le> byte c \<and> byte c < 192"

definition second_ok :: "nat \<Rightarrow> char \<Rightarrow> bool" where
  \<comment> \<open>the second byte after the first byte \<open>b\<close>: no overlong form, no surrogate, no code above 10FFFF\<close>
  "second_ok b c \<longleftrightarrow>
     (if b = 224 \<or> b = 240 then (if b = 224 then 160 else 144) else 128) \<le> byte c \<and>
     byte c \<le> (if b = 237 then 159 else if b = 244 then 143 else 191)"

fun utf8_size :: "string \<Rightarrow> nat" where
  \<comment> \<open>the length of the encoded rune at the head, 0 when it is invalid\<close>
  "utf8_size [] = 0"
| "utf8_size (c # r) =
     (let b = byte c in
      if b < 128 then 1
      else if 194 \<le> b \<and> b \<le> 223 then (case r of c1 # _ \<Rightarrow> if cont c1 then 2 else 0 | _ \<Rightarrow> 0)
      else if 224 \<le> b \<and> b \<le> 239 then
        (case r of c1 # c2 # _ \<Rightarrow> if second_ok b c1 \<and> cont c2 then 3 else 0 | _ \<Rightarrow> 0)
      else if 240 \<le> b \<and> b \<le> 244 then
        (case r of c1 # c2 # c3 # _ \<Rightarrow> if second_ok b c1 \<and> cont c2 \<and> cont c3 then 4 else 0 | _ \<Rightarrow> 0)
      else 0)"

definition chr :: "nat \<Rightarrow> char" where
  "chr n = char_of n"

definition encode_rune :: "nat \<Rightarrow> string" where
  \<comment> \<open>\<open>utf8.EncodeRune\<close> for a code that is not a surrogate\<close>
  "encode_rune r =
     (if r < 128 then [chr r]
      else if r < 2048 then [chr (192 + r div 64), chr (128 + r mod 64)]
      else if r < 65536 then [chr (224 + r div 4096), chr (128 + r div 64 mod 64), chr (128 + r mod 64)]
      else [chr (240 + r div 262144), chr (128 + r div 4096 mod 64), chr (128 + r div 64 mod 64), chr (128 + r mod 64)])"

abbreviation replacement :: nat where
  "replacement \<equiv> 65533"

section \<open>Encoding\<close>

abbreviation quote_ch :: char where "quote_ch \<equiv> CHR 0x22"

abbreviation backslash :: char where "backslash \<equiv> CHR 0x5C"

definition hex_digit :: "nat \<Rightarrow> char" where
  "hex_digit d = (if d < 10 then chr (48 + d) else chr (87 + d))"

definition html_safe :: "char \<Rightarrow> bool" where
  "html_safe c \<longleftrightarrow> 32 \<le> byte c \<and> byte c < 128 \<and> c \<notin> {quote_ch, backslash, CHR ''<'', CHR ''>'', CHR ''&''}"

definition escape_ascii :: "char \<Rightarrow> string" where
  "escape_ascii c =
     (if html_safe c then [c]
      else if c = backslash \<or> c = quote_ch then [backslash, c]
      else if c = CHR 0x08 then [backslash, CHR ''b'']
      else if c = CHR 0x0C then [backslash, CHR ''f'']
      else if c = CHR 0x0A then [backslash, CHR ''n'']
      else if c = CHR 0x0D then [backslash, CHR ''r'']
      else if c = CHR 0x09 then [backslash, CHR ''t'']
      else [backslash, CHR ''u'', CHR ''0'', CHR ''0'', hex_digit (byte c div 16), hex_digit (byte c mod 16)])"

definition line_separator :: "string \<Rightarrow> bool" where
  \<comment> \<open>U+2028 or U+2029 at the head\<close>
  "line_separator s \<longleftrightarrow> take 3 s = [chr 226, chr 128, chr 168] \<or> take 3 s = [chr 226, chr 128, chr 169]"

function quote_body :: "string \<Rightarrow> string" where
  "quote_body [] = []"
| "quote_body (c # r) =
     (if byte c < 128 then escape_ascii c @ quote_body r
      else case utf8_size (c # r) of
        0 \<Rightarrow> [backslash, CHR ''u'', CHR ''f'', CHR ''f'', CHR ''f'', CHR ''d''] @ quote_body r
      | Suc n \<Rightarrow>
          (if line_separator (c # r)
           then [backslash, CHR ''u'', CHR ''2'', CHR ''0'', CHR ''2'', hex_digit (byte ((c # r) ! 2) mod 16)]
           else take (Suc n) (c # r)) @ quote_body (drop n r))"
  by pat_completeness auto
termination by (relation "measure length") auto

definition quote :: "string \<Rightarrow> string" where
  "quote s = quote_ch # quote_body s @ [quote_ch]"

fun marshal_bool :: "bool \<Rightarrow> string" where
  "marshal_bool True = ''true''"
| "marshal_bool False = ''false''"

fun marshal_fields :: "(string \<times> string) list \<Rightarrow> string" where
  \<comment> \<open>a struct whose fields are already encoded\<close>
  "marshal_fields [] = []"
| "marshal_fields [(name, v)] = quote name @ CHR '':'' # v"
| "marshal_fields ((name, v) # f # fs) = quote name @ CHR '':'' # v @ CHR '','' # marshal_fields (f # fs)"

definition marshal_struct :: "(string \<times> string) list \<Rightarrow> string" where
  "marshal_struct fs = CHR ''{'' # marshal_fields fs @ ''}''"

section \<open>Numbers\<close>

fun bitlen :: "nat \<Rightarrow> nat" where
  "bitlen n = (if n = 0 then 0 else Suc (bitlen (n div 2)))"

declare bitlen.simps [simp del]

definition round_half_even :: "nat \<Rightarrow> nat \<Rightarrow> nat" where
  "round_half_even n d =
     (let q = n div d; r = n mod d in if 2 * r < d \<or> (2 * r = d \<and> even q) then q else q + 1)"

definition float64 :: "nat \<Rightarrow> nat \<Rightarrow> nat \<times> bool" where
  \<comment> \<open>the nearest \<open>float64\<close> to \<open>n / d\<close>: its integral part and whether it is integral\<close>
  "float64 n d =
     (let k = bitlen (n div d)
      in if k > 53 then (round_half_even n (d * 2 ^ (k - 53)) * 2 ^ (k - 53), True)
         else if 2 * n < d then (0, n * 2 ^ 1075 \<le> d)
         else (let q = round_half_even (n * 2 ^ (53 - k)) d in (q div 2 ^ (53 - k), q mod 2 ^ (53 - k) = 0)))"

definition is_digit :: "char \<Rightarrow> bool" where
  "is_digit c \<longleftrightarrow> 48 \<le> byte c \<and> byte c \<le> 57"

definition digits_value :: "string \<Rightarrow> nat" where
  "digits_value ds = foldl (\<lambda>n c. 10 * n + (byte c - 48)) 0 ds"

definition json_float :: "bool \<Rightarrow> string \<Rightarrow> string \<Rightarrow> int \<Rightarrow> jval option" where
  \<comment> \<open>sign, integral digits, fractional digits, exponent; a number out of range is an error\<close>
  "json_float neg ip fp e =
     (let m = digits_value (ip @ fp); x = e - int (length fp);
          (t, whole) = (if x \<ge> 0 then float64 (m * 10 ^ nat x) 1 else float64 m (10 ^ nat (- x)));
          i = (if neg then - int t else int t)
      in if t \<ge> 2 ^ 1024 then None else Some (if whole then JFloat i else JFrac i))"

definition parse_exp :: "string \<Rightarrow> (int \<times> string) option" where
  "parse_exp s =
     (case s of
        c # r \<Rightarrow>
          (if c = CHR ''e'' \<or> c = CHR ''E''
           then (let (neg, r1) = (case r of CHR ''-'' # r' \<Rightarrow> (True, r') | CHR ''+'' # r' \<Rightarrow> (False, r') | _ \<Rightarrow> (False, r));
                     ds = takeWhile is_digit r1
                 in if ds = [] then None
                    else Some (if neg then - int (digits_value ds) else int (digits_value ds), dropWhile is_digit r1))
           else Some (0, s))
      | [] \<Rightarrow> Some (0, s))"

definition parse_number :: "string \<Rightarrow> (jval \<times> string) option" where
  "parse_number s =
     (let (neg, s1) = (case s of CHR ''-'' # r \<Rightarrow> (True, r) | _ \<Rightarrow> (False, s));
          ds = takeWhile is_digit s1;
          (ip, s2) = (if ds \<noteq> [] \<and> hd ds = CHR ''0'' then (''0'', tl s1) else (ds, dropWhile is_digit s1))
      in if ip = [] then None
         else case (case s2 of CHR ''.'' # r \<Rightarrow>
                      (if takeWhile is_digit r = [] then None else Some (takeWhile is_digit r, dropWhile is_digit r))
                    | _ \<Rightarrow> Some ([], s2)) of
                None \<Rightarrow> None
              | Some (fp, s3) \<Rightarrow>
                  (case parse_exp s3 of
                     None \<Rightarrow> None
                   | Some (e, s4) \<Rightarrow> map_option (\<lambda>v. (v, s4)) (json_float neg ip fp e)))"

section \<open>Strings\<close>

definition hex_value :: "char \<Rightarrow> nat option" where
  "hex_value c =
     (if is_digit c then Some (byte c - 48)
      else if 97 \<le> byte c \<and> byte c \<le> 102 then Some (byte c - 87)
      else if 65 \<le> byte c \<and> byte c \<le> 70 then Some (byte c - 55)
      else None)"

fun hex4 :: "string \<Rightarrow> (nat \<times> string) option" where
  \<comment> \<open>the four hexadecimal digits of \<open>\u\<close>\<close>
  "hex4 (a # b # c # d # r) =
     (case (hex_value a, hex_value b, hex_value c, hex_value d) of
        (Some w, Some x, Some y, Some z) \<Rightarrow> Some (w * 4096 + x * 256 + y * 16 + z, r)
      | _ \<Rightarrow> None)"
| "hex4 _ = None"

lemma hex4_shorter: "hex4 s = Some (n, r) \<Longrightarrow> length r < length s"
  by (induction s rule: hex4.induct) (auto split: option.splits)

definition surrogate :: "nat \<Rightarrow> bool" where
  "surrogate n \<longleftrightarrow> 55296 \<le> n \<and> n < 57344"

definition second_surrogate :: "nat \<Rightarrow> string \<Rightarrow> (nat \<times> string) option" where
  \<comment> \<open>after the code \<open>n\<close>: the rune of the pair, when a low surrogate follows a high one\<close>
  "second_surrogate n s =
     (case s of
        c # d # r \<Rightarrow>
          (if c = backslash \<and> d = CHR ''u''
           then (case hex4 r of
                   Some (m, r') \<Rightarrow>
                     (if 55296 \<le> n \<and> n < 56320 \<and> 56320 \<le> m \<and> m < 57344
                      then Some (65536 + (n - 55296) * 1024 + (m - 56320), r') else None)
                 | None \<Rightarrow> None)
           else None)
      | _ \<Rightarrow> None)"

lemma second_surrogate_shorter: "second_surrogate n s = Some (m, r) \<Longrightarrow> length r < length s"
  by (auto simp: second_surrogate_def dest!: hex4_shorter split: list.splits if_splits option.splits)

definition simple_escape :: "char \<Rightarrow> char option" where
  "simple_escape c =
     (if c \<in> {quote_ch, backslash, CHR ''/''} then Some c
      else if c = CHR ''b'' then Some (CHR 0x08)
      else if c = CHR ''f'' then Some (CHR 0x0C)
      else if c = CHR ''n'' then Some (CHR 0x0A)
      else if c = CHR ''r'' then Some (CHR 0x0D)
      else if c = CHR ''t'' then Some (CHR 0x09)
      else None)"

definition parse_escape :: "string \<Rightarrow> (string \<times> string) option" where
  \<comment> \<open>what follows a backslash: the bytes it stands for, and the rest\<close>
  "parse_escape s =
     (case s of
        [] \<Rightarrow> None
      | e # r \<Rightarrow>
          (if e = CHR ''u''
           then (case hex4 r of
                   None \<Rightarrow> None
                 | Some (n, r') \<Rightarrow>
                     (if surrogate n
                      then (case second_surrogate n r' of
                              Some (m, r'') \<Rightarrow> Some (encode_rune m, r'')
                            | None \<Rightarrow> Some (encode_rune replacement, r'))
                      else Some (encode_rune n, r')))
           else map_option (\<lambda>c. ([c], r)) (simple_escape e)))"

lemma parse_escape_shorter: "parse_escape s = Some (t, r) \<Longrightarrow> length r < length s"
  by (auto simp: parse_escape_def dest!: hex4_shorter second_surrogate_shorter
      split: list.splits if_splits option.splits)

function parse_string :: "string \<Rightarrow> (string \<times> string) option" where
  \<comment> \<open>the rest of a string literal, up to its closing quote\<close>
  "parse_string [] = None"
| "parse_string (c # r) =
     (if c = quote_ch then Some ([], r)
      else if c = backslash
      then (case parse_escape r of
              None \<Rightarrow> None
            | Some (t, r') \<Rightarrow> map_option (\<lambda>(u, rest). (t @ u, rest)) (parse_string r'))
      else if byte c < 32 then None
      else case utf8_size (c # r) of
             0 \<Rightarrow> map_option (\<lambda>(u, rest). (encode_rune replacement @ u, rest)) (parse_string r)
           | Suc n \<Rightarrow> map_option (\<lambda>(u, rest). (take (Suc n) (c # r) @ u, rest)) (parse_string (drop n r)))"
  by pat_completeness auto
termination by (relation "measure length") (auto dest: parse_escape_shorter)

section \<open>Documents\<close>

definition is_space :: "char \<Rightarrow> bool" where
  "is_space c \<longleftrightarrow> c \<in> {CHR '' '', CHR 0x09, CHR 0x0A, CHR 0x0D}"

definition skip_ws :: "string \<Rightarrow> string" where
  "skip_ws s = dropWhile is_space s"

definition literal :: "string \<Rightarrow> jval \<Rightarrow> string \<Rightarrow> (jval \<times> string) option" where
  "literal w v s = (if take (length w) s = w then Some (v, drop (length w) s) else None)"

definition expect :: "char \<Rightarrow> string \<Rightarrow> string option" where
  "expect c s = (case skip_ws s of d # r \<Rightarrow> if d = c then Some r else None | [] \<Rightarrow> None)"

text \<open>
  A recursive-descent reader. The first argument bounds the recursion (the length of the input is
  enough), the second counts the nesting, which the decoder limits to 10000.
\<close>

fun parse_value :: "nat \<Rightarrow> nat \<Rightarrow> string \<Rightarrow> (jval \<times> string) option"
  and parse_elems :: "nat \<Rightarrow> nat \<Rightarrow> string \<Rightarrow> (jval list \<times> string) option"
  and parse_members :: "nat \<Rightarrow> nat \<Rightarrow> (string, jval) gomap \<Rightarrow> string \<Rightarrow> ((string, jval) gomap \<times> string) option" where
  "parse_value 0 d s = None"
| "parse_value (Suc n) d s =
     (case skip_ws s of
        [] \<Rightarrow> None
      | c # r \<Rightarrow>
          if c = CHR ''{'' then
            (if d \<ge> 10000 then None
             else case expect (CHR ''}'') r of
                    Some r' \<Rightarrow> Some (JObj [], r')
                  | None \<Rightarrow> map_option (\<lambda>(m, r'). (JObj m, r')) (parse_members n (Suc d) [] r))
          else if c = CHR ''['' then
            (if d \<ge> 10000 then None
             else case expect (CHR '']'') r of
                    Some r' \<Rightarrow> Some (JArr [], r')
                  | None \<Rightarrow> map_option (\<lambda>(vs, r'). (JArr vs, r')) (parse_elems n (Suc d) r))
          else if c = quote_ch then map_option (\<lambda>(t, r'). (JStr t, r')) (parse_string r)
          else if c = CHR ''t'' then literal ''true'' (JBool True) (c # r)
          else if c = CHR ''f'' then literal ''false'' (JBool False) (c # r)
          else if c = CHR ''n'' then literal ''null'' JNull (c # r)
          else parse_number (c # r))"
| "parse_elems 0 d s = None"
| "parse_elems (Suc n) d s =
     (case parse_value n d s of
        None \<Rightarrow> None
      | Some (v, r) \<Rightarrow>
          (case expect (CHR '']'') r of
             Some r' \<Rightarrow> Some ([v], r')
           | None \<Rightarrow>
               (case expect (CHR '','') r of
                  None \<Rightarrow> None
                | Some r' \<Rightarrow> map_option (\<lambda>(vs, rest). (v # vs, rest)) (parse_elems n d r'))))"
| "parse_members 0 d m s = None"
| "parse_members (Suc n) d m s =
     (case expect quote_ch s of
        None \<Rightarrow> None
      | Some r0 \<Rightarrow>
          (case parse_string r0 of
             None \<Rightarrow> None
           | Some (k, r1) \<Rightarrow>
               (case expect (CHR '':'') r1 of
                  None \<Rightarrow> None
                | Some r2 \<Rightarrow>
                    (case parse_value n d r2 of
                       None \<Rightarrow> None
                     | Some (v, r3) \<Rightarrow>
                         (case expect (CHR ''}'') r3 of
                            Some r4 \<Rightarrow> Some (AList.update k v m, r4)
                          | None \<Rightarrow>
                              (case expect (CHR '','') r3 of
                                 None \<Rightarrow> None
                               | Some r4 \<Rightarrow> parse_members n d (AList.update k v m) r4))))))"

definition unmarshal :: "string \<Rightarrow> jval option" where
  \<comment> \<open>\<open>json.Unmarshal\<close> into an \<open>interface{}\<close>; \<open>None\<close> is an error\<close>
  "unmarshal s =
     (case parse_value (2 * length s + 2) 0 s of
        Some (v, r) \<Rightarrow> if skip_ws r = [] then Some v else None
      | None \<Rightarrow> None)"

declare quote_body.simps [simp del] parse_string.simps [simp del]
  parse_value.simps [simp del] parse_elems.simps [simp del] parse_members.simps [simp del]
  utf8_size.simps [simp del]

section \<open>Strings survive the round trip\<close>

function valid_utf8 :: "string \<Rightarrow> bool" where
  "valid_utf8 [] = True"
| "valid_utf8 (c # r) = (case utf8_size (c # r) of 0 \<Rightarrow> False | Suc n \<Rightarrow> valid_utf8 (drop n r))"
  by pat_completeness auto
termination by (relation "measure length") auto

declare valid_utf8.simps [simp del]

lemma byte_chr [simp]: "byte (chr n) = n mod 256"
  by (simp add: byte_def chr_def)

lemma chr_byte [simp]: "chr (byte c) = c"
  by (simp add: byte_def chr_def)

lemma byte_less [simp]: "byte c < 256"
  by (simp add: byte_def)

lemma byte_eq_iff: "c = d \<longleftrightarrow> byte c = byte d"
  by (simp add: byte_def)

lemma utf8_size_take:
  "utf8_size s = Suc n \<Longrightarrow> utf8_size (take (Suc n) s @ y) = Suc n"
  by (cases s) (auto simp: utf8_size.simps Let_def split: if_splits list.splits)

lemma utf8_size_length: "utf8_size s \<le> length s"
  by (cases s) (auto simp: utf8_size.simps Let_def split: if_splits list.splits)

lemma utf8_size_ascii: "byte c < 128 \<Longrightarrow> utf8_size (c # r) = Suc 0"
  by (simp add: utf8_size.simps)

lemma hex_value_digit [simp]: "d < 16 \<Longrightarrow> hex_value (hex_digit d) = Some d"
  by (auto simp: hex_value_def hex_digit_def is_digit_def)

lemma hex_value_0 [simp]: "hex_value (CHR ''0'') = Some 0" "hex_value (CHR ''2'') = Some 2"
  by code_simp+

lemma parse_string_escape:
  "parse_escape r = Some (t, r') \<Longrightarrow>
   parse_string (backslash # r) = map_option (\<lambda>(u, rest). (t @ u, rest)) (parse_string r')"
  by (simp add: parse_string.simps)

lemma parse_escape_u:
  assumes "byte c < 128"
  shows "parse_escape (CHR ''u'' # CHR ''0'' # CHR ''0'' # hex_digit (byte c div 16) # hex_digit (byte c mod 16) # r)
    = Some ([c], r)"
proof -
  have "byte c div 16 < 16" by (rule less_mult_imp_div_less) (use assms in simp)
  then show ?thesis using assms
    by (simp add: parse_escape_def surrogate_def encode_rune_def)
qed

lemma escape_ascii_cases:
  "html_safe c \<or> (\<exists>e. escape_ascii c = [backslash, e] \<and> simple_escape e = Some c \<and> e \<noteq> CHR ''u'') \<or>
   escape_ascii c = [backslash, CHR ''u'', CHR ''0'', CHR ''0'', hex_digit (byte c div 16), hex_digit (byte c mod 16)]"
proof (cases "html_safe c \<or> c \<in> {backslash, quote_ch, CHR 0x08, CHR 0x0C, CHR 0x0A, CHR 0x0D, CHR 0x09}")
  case True
  then show ?thesis by (auto simp: escape_ascii_def simple_escape_def)
next
  case False
  then show ?thesis by (simp add: escape_ascii_def)
qed

lemma parse_string_ascii:
  assumes "byte c < 128"
  shows "parse_string (escape_ascii c @ r) = map_option (\<lambda>(u, rest). (c # u, rest)) (parse_string r)"
proof -
  consider (safe) "html_safe c" | (simple) e where "escape_ascii c = [backslash, e]" "simple_escape e = Some c" "e \<noteq> CHR ''u''"
    | (hex) "escape_ascii c = [backslash, CHR ''u'', CHR ''0'', CHR ''0'', hex_digit (byte c div 16), hex_digit (byte c mod 16)]"
    using escape_ascii_cases [of c] by blast
  then show ?thesis
  proof cases
    case safe
    then show ?thesis using assms
      by (auto simp: escape_ascii_def html_safe_def parse_string.simps utf8_size_ascii)
  next
    case (simple e)
    then have "parse_escape (e # r) = Some ([c], r)" by (simp add: parse_escape_def)
    from parse_string_escape [OF this] show ?thesis using simple by simp
  next
    case hex
    then show ?thesis using parse_string_escape [OF parse_escape_u [OF assms]] by simp
  qed
qed

lemma parse_string_rune:
  assumes "utf8_size s = Suc n" and "128 \<le> byte (hd s)"
  shows "parse_string (take (Suc n) s @ y) = map_option (\<lambda>(u, rest). (take (Suc n) s @ u, rest)) (parse_string y)"
proof -
  obtain c r where s: "s = c # r" using assms(1) by (cases s) (auto simp: utf8_size.simps)
  have "c \<noteq> quote_ch" "c \<noteq> backslash" using assms(2) s by (auto simp: byte_eq_iff byte_def)
  moreover have "length (take (Suc n) s) = Suc n" using utf8_size_length [of s] assms(1) by simp
  ultimately show ?thesis
    using utf8_size_take [OF assms(1), of y] assms(2) s by (simp add: parse_string.simps)
qed

lemma parse_string_separator:
  assumes "line_separator s"
  shows "parse_string ([backslash, CHR ''u'', CHR ''2'', CHR ''0'', CHR ''2'', hex_digit (byte (s ! 2) mod 16)] @ y)
    = map_option (\<lambda>(u, rest). (take 3 s @ u, rest)) (parse_string y)"
proof -
  have "take 3 s ! 2 = s ! 2" by simp
  then have "s ! 2 = chr 168 \<and> take 3 s = [chr 226, chr 128, chr 168] \<or> s ! 2 = chr 169 \<and> take 3 s = [chr 226, chr 128, chr 169]"
    using assms by (auto simp: line_separator_def simp del: nth_take)
  then have "parse_escape (CHR ''u'' # CHR ''2'' # CHR ''0'' # CHR ''2'' # hex_digit (byte (s ! 2) mod 16) # y) = Some (take 3 s, y)"
    by (elim disjE) (simp_all add: parse_escape_def surrogate_def encode_rune_def)
  then show ?thesis by (simp add: parse_string_escape)
qed

lemma line_separator_size: "line_separator s \<Longrightarrow> utf8_size s = 3"
  by (cases s rule: utf8_size.cases; cases "tl s"; cases "tl (tl s)")
    (auto simp: line_separator_def utf8_size.simps second_ok_def cont_def)

lemma parse_quote_body:
  "valid_utf8 s \<Longrightarrow> parse_string (quote_body s @ quote_ch # rest) = Some (s, rest)"
proof (induction s rule: quote_body.induct)
  case 1
  then show ?case by (simp add: quote_body.simps parse_string.simps)
next
  case (2 c r)
  show ?case
  proof (cases "byte c < 128")
    case True
    then show ?thesis using 2 by (simp add: quote_body.simps parse_string_ascii valid_utf8.simps utf8_size_ascii)
  next
    case False
    obtain n where n: "utf8_size (c # r) = Suc n" "valid_utf8 (drop n r)"
      using 2(4) by (auto simp: valid_utf8.simps split: nat.splits)
    have ih: "parse_string (quote_body (drop n r) @ quote_ch # rest) = Some (drop n r, rest)"
      using 2(3) [OF False n(1) n(2)] .
    have whole: "take (Suc n) (c # r) @ drop n r = c # r" by simp
    show ?thesis
    proof (cases "line_separator (c # r)")
      case sep: True
      have "n = 2" using line_separator_size [OF sep] n(1) by simp
      then show ?thesis using parse_string_separator [OF sep] ih whole False n(1) sep
        by (simp add: quote_body.simps numeral_2_eq_2 numeral_3_eq_3)
    next
      case sep: False
      then show ?thesis using parse_string_rune [OF n(1)] ih whole False n(1)
        by (simp add: quote_body.simps)
    qed
  qed
qed

section \<open>Integers\<close>

lemma bitlen_0 [simp]: "bitlen 0 = 0"
  by (simp add: bitlen.simps)

lemma bitlen_bound: "n < 2 ^ bitlen n"
proof (induction n rule: bitlen.induct)
  case (1 n)
  then show ?case by (cases "n = 0") (auto simp: bitlen.simps [of n])
qed

lemma bitlen_least: "0 < n \<Longrightarrow> 2 ^ (bitlen n - 1) \<le> n"
proof (induction n rule: bitlen.induct)
  case (1 n)
  show ?case
  proof (cases "n div 2 = 0")
    case True
    then show ?thesis using 1(2) by (simp add: bitlen.simps [of n])
  next
    case False
    then have "0 < bitlen (n div 2)" by (simp add: bitlen.simps [of "n div 2"])
    then have "2 ^ (bitlen n - 1) = 2 * 2 ^ (bitlen (n div 2) - 1)"
      using 1(2) by (simp add: bitlen.simps [of n] flip: power_Suc)
    also have "\<dots> \<le> 2 * (n div 2)" using 1(1) 1(2) False by simp
    finally show ?thesis by linarith
  qed
qed

lemma bitlen_power: "bitlen (2 ^ k) = Suc k"
proof (induction k)
  case (Suc k)
  have "(2 :: nat) ^ Suc k div 2 = 2 ^ k" by simp
  with Suc show ?case by (subst bitlen.simps) simp
qed (simp add: bitlen.simps [of "Suc 0"])

definition nearest :: "nat \<Rightarrow> nat" where
  \<comment> \<open>the \<open>float64\<close> nearest to a natural number\<close>
  "nearest n = (if bitlen n > 53 then round_half_even n (2 ^ (bitlen n - 53)) * 2 ^ (bitlen n - 53) else n)"

lemma float64_nat: "float64 n 1 = (nearest n, True)"
  by (auto simp: float64_def nearest_def round_half_even_def Let_def)

lemma nearest_small: "n \<le> 2 ^ 53 \<Longrightarrow> nearest n = n"
proof (cases "bitlen n > 53")
  case True
  then have "2 ^ 53 \<le> (2 :: nat) ^ (bitlen n - 1)" by (intro power_increasing) auto
  moreover assume "n \<le> 2 ^ 53"
  moreover have "2 ^ (bitlen n - 1) \<le> n" using True by (intro bitlen_least) (auto intro: gr0I)
  ultimately have n: "n = 2 ^ 53" by linarith
  show ?thesis unfolding n nearest_def bitlen_power by (simp add: round_half_even_def)
qed (simp add: nearest_def)

lemma nearest_bound: "nearest n \<le> 2 * n"
proof (cases "bitlen n > 53")
  case True
  let ?d = "(2 :: nat) ^ (bitlen n - 53)"
  have "0 < n" using True by (auto intro: gr0I)
  have "?d \<le> 2 ^ (bitlen n - 1)" by (rule power_increasing) auto
  also have "\<dots> \<le> n" by (rule bitlen_least [OF \<open>0 < n\<close>])
  finally have d: "?d \<le> n" .
  have "round_half_even n ?d \<le> n div ?d + 1" by (simp add: round_half_even_def Let_def)
  from mult_le_mono1 [OF this, of ?d] have "nearest n \<le> (n div ?d + 1) * ?d"
    using True by (simp add: nearest_def)
  also have "\<dots> \<le> n + ?d" by (simp add: div_times_less_eq_dividend)
  finally show ?thesis using d by simp
qed (simp add: nearest_def)

lemma bitlen_le: "n < 2 ^ k \<Longrightarrow> bitlen n \<le> k"
proof (rule ccontr)
  assume n: "n < 2 ^ k" and "\<not> bitlen n \<le> k"
  then have "0 < n" "k \<le> bitlen n - 1" by (auto intro: gr0I)
  from power_increasing [OF this(2), of "2 :: nat"] have "2 ^ k \<le> (2 :: nat) ^ (bitlen n - 1)" by simp
  also have "\<dots> \<le> n" by (rule bitlen_least [OF \<open>0 < n\<close>])
  finally show False using n by simp
qed

lemma nearest_fixed: "2 ^ (bitlen m - 53) dvd m \<Longrightarrow> nearest m = m"
  by (auto simp: nearest_def round_half_even_def Let_def)

lemma nearest_idem: "nearest (nearest n) = nearest n"
proof (cases "bitlen n > 53")
  case True
  define s where "s = bitlen n - 53"
  define q where "q = round_half_even n (2 ^ s)"
  have m: "nearest n = q * 2 ^ s" using True by (simp add: nearest_def q_def s_def)
  have "n < 2 ^ (53 + s)" using bitlen_bound [of n] True by (simp add: s_def)
  then have "n div 2 ^ s < 2 ^ 53" by (simp add: less_mult_imp_div_less power_add)
  then have "q \<le> 2 ^ 53" by (auto simp: q_def round_half_even_def Let_def)
  then consider "q < 2 ^ 53" | "q = 2 ^ 53" by linarith
  then have "2 ^ (bitlen (q * 2 ^ s) - 53) dvd q * 2 ^ s"
  proof cases
    case 1
    then have "q * 2 ^ s < 2 ^ (53 + s)" by (simp add: power_add)
    then have "bitlen (q * 2 ^ s) - 53 \<le> s" using bitlen_le by fastforce
    then show ?thesis by (simp add: le_imp_power_dvd dvd_mult)
  next
    case 2
    then have "q * 2 ^ s = 2 ^ (53 + s)" by (simp add: power_add)
    moreover have "(2 :: nat) ^ Suc s dvd 2 ^ (53 + s)" by (rule le_imp_power_dvd) simp
    ultimately show ?thesis by (simp only: bitlen_power) simp
  qed
  then show ?thesis by (simp add: m nearest_fixed)
qed (simp add: nearest_def)

definition through_float :: "int \<Rightarrow> int" where
  \<comment> \<open>an integer that was printed and read back as a \<open>float64\<close>\<close>
  "through_float i = (if i < 0 then - int (nearest (nat (- i))) else int (nearest (nat i)))"

lemma through_float_small: "\<bar>i\<bar> \<le> 2 ^ 53 \<Longrightarrow> through_float i = i"
  by (auto simp: through_float_def nearest_small nat_le_iff)

lemma is_digit_digit_char: "d < 10 \<Longrightarrow> is_digit (digit_char d)"
  by (simp add: is_digit_def digit_char_def byte_def)

lemma byte_digit_char: "d < 10 \<Longrightarrow> byte (digit_char d) - 48 = d"
  by (simp add: digit_char_def byte_def)

lemma utoa_digits: "\<forall>c \<in> set (utoa n). is_digit c"
proof (induction n rule: utoa.induct)
  case (1 n)
  then show ?case by (cases "n < 10") (auto simp: utoa.simps [of n] is_digit_digit_char)
qed

lemma utoa_nonempty: "utoa n \<noteq> []"
  by (subst utoa.simps) simp

lemma digits_value_utoa: "digits_value (utoa n) = n"
proof (induction n rule: utoa.induct)
  case (1 n)
  then show ?case
    by (cases "n < 10") (auto simp: utoa.simps [of n] digits_value_def byte_digit_char)
qed

lemma digit_char_0: "d < 10 \<Longrightarrow> digit_char d = CHR ''0'' \<longleftrightarrow> d = 0"
  by (simp add: byte_eq_iff byte_def digit_char_def)

lemma hd_utoa: "hd (utoa n) = CHR ''0'' \<longleftrightarrow> n = 0"
proof (induction n rule: utoa.induct)
  case (1 n)
  show ?case
  proof (cases "n < 10")
    case True
    then show ?thesis by (simp add: utoa.simps [of n] digit_char_0)
  next
    case False
    then show ?thesis using 1 by (simp add: utoa.simps [of n] utoa_nonempty)
  qed
qed

definition delimited :: "string \<Rightarrow> bool" where
  \<comment> \<open>what may follow a number\<close>
  "delimited s \<longleftrightarrow> (case s of [] \<Rightarrow> True | c # _ \<Rightarrow> \<not> is_digit c \<and> c \<noteq> CHR ''.'' \<and> c \<noteq> CHR ''e'' \<and> c \<noteq> CHR ''E'')"

lemma takeWhile_utoa:
  assumes "delimited rest"
  shows "takeWhile is_digit (utoa n @ rest) = utoa n" and "dropWhile is_digit (utoa n @ rest) = rest"
proof -
  have "takeWhile is_digit rest = []" "dropWhile is_digit rest = rest"
    using assms by (cases rest; simp add: delimited_def)+
  then show "takeWhile is_digit (utoa n @ rest) = utoa n" "dropWhile is_digit (utoa n @ rest) = rest"
    using utoa_digits [of n] by (simp_all add: takeWhile_append2 dropWhile_append2)
qed

lemma utoa_0: "utoa 0 = ''0''"
  by (simp add: utoa.simps digit_char_0)

lemma delimited_fraction: "delimited rest \<Longrightarrow>
    (case rest of CHR ''.'' # r \<Rightarrow> (if takeWhile is_digit r = [] then None else Some (takeWhile is_digit r, dropWhile is_digit r))
     | _ \<Rightarrow> Some ([], rest)) = Some ([], rest)"
  by (cases rest) (auto simp: delimited_def split: char.splits bool.splits)

lemma delimited_exp: "delimited rest \<Longrightarrow> parse_exp rest = Some (0, rest)"
  by (cases rest) (auto simp: delimited_def parse_exp_def)

lemma parse_digits:
  assumes "delimited rest"
  shows "(if takeWhile is_digit (utoa n @ rest) \<noteq> [] \<and> hd (takeWhile is_digit (utoa n @ rest)) = CHR ''0''
      then (''0'', tl (utoa n @ rest)) else (takeWhile is_digit (utoa n @ rest), dropWhile is_digit (utoa n @ rest)))
    = (utoa n, rest)"
  using takeWhile_utoa [OF assms, of n] by (auto simp: hd_utoa utoa_nonempty utoa_0)

lemma json_float_nat:
  assumes "n \<le> 2 ^ 64"
  shows "json_float neg (utoa n) [] 0 = Some (JFloat (if neg then - int (nearest n) else int (nearest n)))"
proof -
  have "nearest n < 2 ^ 1024"
  proof -
    have "nearest n \<le> 2 * 2 ^ 64" using nearest_bound [of n] assms by linarith
    also have "\<dots> < (2 :: nat) ^ 1024"
      using power_strict_increasing [of 65 1024 "2 :: nat"] by simp
    finally show ?thesis .
  qed
  then show ?thesis by (simp add: json_float_def digits_value_utoa float64_nat [unfolded One_nat_def])
qed

lemma utoa_no_minus: "\<exists>c cs. utoa n = c # cs \<and> is_digit c"
  using utoa_nonempty [of n] utoa_digits [of n] by (cases "utoa n") auto

lemma parse_number_itoa:
  assumes "delimited rest" and "\<bar>i\<bar> \<le> 2 ^ 64"
  shows "parse_number (itoa i @ rest) = Some (JFloat (through_float i), rest)"
proof -
  define n where "n = nat \<bar>i\<bar>"
  define neg where "neg \<longleftrightarrow> i < 0"
  have split: "(case itoa i @ rest of CHR ''-'' # r \<Rightarrow> (True, r) | _ \<Rightarrow> (False, itoa i @ rest)) = (neg, utoa n @ rest)"
  proof (cases neg)
    case True
    then show ?thesis by (simp add: itoa_def neg_def n_def)
  next
    case False
    obtain c cs where c: "utoa n = c # cs" "is_digit c" using utoa_no_minus by blast
    then have "c \<noteq> CHR ''-''" by (auto simp: is_digit_def byte_def)
    then show ?thesis using False c by (auto simp: itoa_def neg_def n_def split: char.splits bool.splits)
  qed
  have "n \<le> 2 ^ 64" using assms(2) by (simp add: n_def nat_le_iff)
  then have "json_float neg (utoa n) [] 0 = Some (JFloat (through_float i))"
    by (simp add: json_float_nat through_float_def neg_def n_def)
  then show ?thesis
    unfolding parse_number_def split Let_def
    using parse_digits [OF assms(1), of n] delimited_fraction [OF assms(1)] delimited_exp [OF assms(1)]
    by (simp add: utoa_nonempty)
qed

lemma through_float_idem: "through_float (through_float i) = through_float i"
  using nearest_small [of 0] by (auto simp: through_float_def nearest_idem)

section \<open>Structs\<close>

lemma skip_ws_id: "\<not> is_space c \<Longrightarrow> skip_ws (c # r) = c # r"
  by (simp add: skip_ws_def)

lemma expect_hd [simp]: "\<not> is_space c \<Longrightarrow> expect d (c # r) = (if c = d then Some r else None)"
  by (simp add: expect_def skip_ws_id)

lemma not_space [simp]:
  "\<not> is_space quote_ch" "\<not> is_space (CHR '':'')" "\<not> is_space (CHR '','')" "\<not> is_space (CHR ''}'')"
  "\<not> is_space (CHR ''{'')" "\<not> is_space (CHR ''t'')" "\<not> is_space (CHR ''f'')" "\<not> is_space (CHR ''-'')"
  by (simp_all add: is_space_def)

lemma parse_value_string:
  "valid_utf8 s \<Longrightarrow> parse_value (Suc n) d (quote s @ rest) = Some (JStr s, rest)"
  by (simp add: parse_value.simps quote_def skip_ws_id parse_quote_body)

lemma parse_value_bool: "parse_value (Suc n) d (marshal_bool b @ rest) = Some (JBool b, rest)"
  by (cases b) (simp_all add: parse_value.simps skip_ws_id literal_def)

lemma itoa_hd: "\<exists>c cs. itoa i = c # cs \<and> (is_digit c \<or> c = CHR ''-'')"
  using utoa_no_minus [of "nat i"] by (auto simp: itoa_def)

lemma parse_value_int:
  assumes "delimited rest" and "\<bar>i\<bar> \<le> 2 ^ 64"
  shows "parse_value (Suc n) d (itoa i @ rest) = Some (JFloat (through_float i), rest)"
proof -
  obtain c cs where c: "itoa i = c # cs" "is_digit c \<or> c = CHR ''-''" using itoa_hd by blast
  then have "\<not> is_space c" "c \<notin> {CHR ''{'', CHR ''['', quote_ch, CHR ''t'', CHR ''f'', CHR ''n''}"
    by (auto simp: is_space_def is_digit_def byte_def)
  then show ?thesis using parse_number_itoa [OF assms] c
    by (simp add: parse_value.simps skip_ws_id)
qed

definition reads_as :: "string \<Rightarrow> jval \<Rightarrow> bool" where
  \<comment> \<open>the text of a value that a struct may contain\<close>
  "reads_as tx v \<longleftrightarrow>
     (\<forall>n d c rest. c = CHR '','' \<or> c = CHR ''}'' \<longrightarrow> parse_value (Suc n) d (tx @ c # rest) = Some (v, c # rest))"

lemma reads_as_string: "valid_utf8 s \<Longrightarrow> reads_as (quote s) (JStr s)"
  by (simp add: reads_as_def parse_value_string)

lemma reads_as_bool: "reads_as (marshal_bool b) (JBool b)"
  by (simp add: reads_as_def parse_value_bool)

lemma reads_as_int: "\<bar>i\<bar> \<le> 2 ^ 64 \<Longrightarrow> reads_as (itoa i) (JFloat (through_float i))"
  by (auto simp: reads_as_def parse_value_int delimited_def is_digit_def byte_def)

lemma parse_members_fields:
  assumes "list_all2 (\<lambda>(name, tx) (name', v). name' = name \<and> valid_utf8 name \<and> reads_as tx v) fs kvs"
    and "fs \<noteq> []" and "length fs \<le> n"
  shows "parse_members (Suc n) d m (marshal_fields fs @ CHR ''}'' # rest) =
    Some (fold (\<lambda>(k, v). AList.update k v) kvs m, rest)"
  using assms
proof (induction fs arbitrary: kvs m n rule: marshal_fields.induct)
  case (2 name tx)
  then obtain v where v: "kvs = [(name, v)]" "valid_utf8 name" "reads_as tx v"
    by (auto simp: list_all2_Cons1)
  then obtain n' where n: "n = Suc n'" using 2(3) by (cases n) auto
  show ?case using v n by (simp add: parse_members.simps quote_def parse_quote_body reads_as_def)
next
  case (3 name tx f fs)
  then obtain v kvs' where v: "kvs = (name, v) # kvs'" "valid_utf8 name" "reads_as tx v"
    "list_all2 (\<lambda>(name, tx) (name', v). name' = name \<and> valid_utf8 name \<and> reads_as tx v) (f # fs) kvs'"
    by (auto simp: list_all2_Cons1)
  obtain n' where n: "n = Suc n'" "length (f # fs) \<le> n'" using 3(4) by (cases n) auto
  show ?case using v n 3(1) [OF v(4) _ n(2), of "AList.update name v m"]
    by (simp add: parse_members.simps [of "Suc n'"] quote_def parse_quote_body reads_as_def)
qed simp

lemma length_marshal_fields: "length fs \<le> length (marshal_fields fs)"
  by (induction fs rule: marshal_fields.induct) (auto simp: quote_def)

lemma unmarshal_struct:
  assumes "list_all2 (\<lambda>(name, tx) (name', v). name' = name \<and> valid_utf8 name \<and> reads_as tx v) fs kvs"
    and "fs \<noteq> []"
  shows "unmarshal (marshal_struct fs) = Some (JObj (fold (\<lambda>(k, v). AList.update k v) kvs []))"
proof -
  let ?t = "marshal_fields fs @ CHR ''}'' # []"
  obtain cs where hd: "?t = quote_ch # cs"
    using assms(2) by (cases fs rule: marshal_fields.cases) (auto simp: quote_def)
  have "length fs \<le> 2 * length ?t + 2" using length_marshal_fields [of fs] by simp
  from parse_members_fields [OF assms this]
  have "parse_members (2 * length ?t + 3) 1 [] ?t = Some (fold (\<lambda>(k, v). AList.update k v) kvs [], [])"
    by (simp add: eval_nat_numeral)
  then have "parse_value (2 * length (CHR ''{'' # ?t) + 2) 0 (CHR ''{'' # ?t) =
      Some (JObj (fold (\<lambda>(k, v). AList.update k v) kvs []), [])"
    using hd by (simp add: parse_value.simps skip_ws_id eval_nat_numeral)
  then show ?thesis by (simp add: unmarshal_def marshal_struct_def skip_ws_def)
qed

end
