(* ===== verification/Server_Apply.thy ===== *)
theory Server_Apply
  imports State_Machine Watch_Manager Json
begin

text \<open>
  The replicated state machine of \<open>server/server.go\<close>: the messages that Raft hands to
  \<open>applyLoop\<close>, the decoding of their command, the stamping with a revision and an expiry time,
  the journal, the effect of every command on the store, the leases and the watchers, and the
  replies. A goroutine that blocks for ever while it holds \<open>s.mu\<close> is the flag \<open>sv_blocked\<close>.
\<close>

section \<open>Values that come through JSON\<close>

definition toString :: "jval \<Rightarrow> string" where
  "toString v = (case v of JStr s \<Rightarrow> s | _ \<Rightarrow> [])"

definition toInt64 :: "jval \<Rightarrow> int" where
  "toInt64 v = (case v of JInt i \<Rightarrow> i | JFloat x \<Rightarrow> float_to_int64 x | JFrac x \<Rightarrow> float_to_int64 x | _ \<Rightarrow> 0)"

definition toInt :: "jval \<Rightarrow> int" where
  "toInt v = (case v of JInt i \<Rightarrow> i | JFloat x \<Rightarrow> float_to_int64 x | JFrac x \<Rightarrow> float_to_int64 x | _ \<Rightarrow> 0)"

definition toBool :: "jval \<Rightarrow> bool" where
  "toBool v = (case v of JBool b \<Rightarrow> b | JFloat x \<Rightarrow> x \<noteq> 0 | JFrac _ \<Rightarrow> True | JInt i \<Rightarrow> i \<noteq> 0 | _ \<Rightarrow> False)"

definition command_type_of_int :: "int \<Rightarrow> command_type" where
  \<comment> \<open>\<open>kv.CommandType(n)\<close>\<close>
  "command_type_of_int n =
     (if n = 0 then CmdPut else if n = 1 then CmdGet else if n = 2 then CmdDelete
      else if n = 3 then CmdLeaseGrant else if n = 4 then CmdLeaseRevoke
      else if n = 5 then CmdLeaseAttach else if n = 6 then CmdLeaseKeepAlive
      else if n = 7 then CmdCAS else if n = 8 then CmdDeletePrefix
      else if n = 9 then CmdGetPrefix else CmdOther n)"

datatype iface = Barrier | ICommand command | IValue jval

definition command_of_map :: "(string, jval) gomap \<Rightarrow> command" where
  "command_of_map m =
     \<lparr>c_Type = command_type_of_int (toInt (jfield m ''Type'')),
      c_Key = toString (jfield m ''Key''),
      c_Value = toString (jfield m ''Value''),
      c_LeaseID = toInt64 (jfield m ''LeaseID''),
      c_TTL = toInt64 (jfield m ''TTL''),
      c_ExpireAt = toInt64 (jfield m ''ExpireAt''),
      c_Revision = toInt64 (jfield m ''Revision''),
      c_Tombstone = toBool (jfield m ''Tombstone''),
      c_ExpectedRev = toInt64 (jfield m ''ExpectedRev''),
      c_Prefix = toString (jfield m ''Prefix'')\<rparr>"

definition commandFromValue :: "iface \<Rightarrow> command option" where
  "commandFromValue v =
     (case v of
        ICommand cmd \<Rightarrow> Some cmd
      | IValue (JObj m) \<Rightarrow> Some (command_of_map m)
      | _ \<Rightarrow> None)"

section \<open>State\<close>

datatype reply = ReplyText string | ReplyError string

record server =
  sv_store :: kvstore
  sv_leaseMgr :: lease_mgr
  sv_watchers :: watch_mgr
  sv_currentRev :: int
  sv_wal :: "command list option"   \<comment> \<open>the records of the journal; \<open>None\<close> without one\<close>
  sv_persistenceErr :: "string option"
  sv_replyCh :: "int list"          \<comment> \<open>indexes whose reply channel is registered\<close>
  sv_replies :: "(int \<times> reply) list"  \<comment> \<open>what the registered channels received\<close>
  sv_lastApplied :: int
  sv_blocked :: bool

record apply_msg =
  m_CommandValid :: bool
  m_Command :: iface
  m_CommandIndex :: int

section \<open>\<open>applyLoop\<close>, in its parts\<close>

definition stamp :: "int \<Rightarrow> server \<Rightarrow> command \<Rightarrow> server \<times> command" where
  \<comment> \<open>the revision of a write, and the expiry time a lease command still lacks\<close>
  "stamp now sv cmd =
     (let (sv1, cmd1) =
            (if c_Type cmd \<in> {CmdPut, CmdDelete, CmdCAS, CmdLeaseAttach} \<or> c_Type cmd = CmdDeletePrefix
             then (sv\<lparr>sv_currentRev := sv_currentRev sv + 1\<rparr>, cmd\<lparr>c_Revision := sv_currentRev sv + 1\<rparr>)
             else (sv, cmd))
      in if c_Type cmd1 = CmdLeaseGrant \<or> c_Type cmd1 = CmdLeaseKeepAlive
         then (let ttl = (if c_TTL cmd1 \<le> 0 then 10 else c_TTL cmd1)
               in if c_ExpireAt cmd1 \<le> 0
                  then (sv1, cmd1\<lparr>c_ExpireAt := deadline now ttl\<rparr>) else (sv1, cmd1))
         else (sv1, cmd1))"

definition notifyReply :: "int \<Rightarrow> reply \<Rightarrow> server \<Rightarrow> server" where
  \<comment> \<open>the body of \<open>notifyReply\<close>, once \<open>s.mu\<close> is held\<close>
  "notifyReply cmdIdx result sv =
     (if cmdIdx \<in> set (sv_replyCh sv)
      then sv\<lparr>sv_replies := sv_replies sv @ [(cmdIdx, result)],
              sv_replyCh := removeAll cmdIdx (sv_replyCh sv)\<rparr>
      else sv)"

definition notify :: "command \<Rightarrow> server \<Rightarrow> server option" where
  "notify cmd sv = map_option (\<lambda>wa. sv\<lparr>sv_watchers := wa\<rparr>) (notifyWatchers (sv_watchers sv) cmd)"

definition store_apply :: "command \<Rightarrow> server \<Rightarrow> server \<times> string" where
  \<comment> \<open>\<open>result, _ = s.store.Apply(cmd)\<close>\<close>
  "store_apply cmd sv =
     (case Apply (sv_store sv) cmd of
        Blocked \<Rightarrow> (sv\<lparr>sv_blocked := True\<rparr>, [])
      | Ret (kv, r) \<Rightarrow> (sv\<lparr>sv_store := kv\<rparr>, case r of Inl _ \<Rightarrow> [] | Inr s \<Rightarrow> s))"

definition lease_do :: "(lease_mgr \<Rightarrow> lease_mgr) \<Rightarrow> server \<Rightarrow> server" where
  "lease_do f sv = sv\<lparr>sv_leaseMgr := f (sv_leaseMgr sv)\<rparr>"

fun revoke_keys :: "string list \<Rightarrow> server \<Rightarrow> server option" where
  \<comment> \<open>the loop of \<open>CmdLeaseRevoke\<close>\<close>
  "revoke_keys [] sv = Some sv"
| "revoke_keys (key # keys) sv =
     (let sv1 = sv\<lparr>sv_currentRev := sv_currentRev sv + 1\<rparr>;
          deleteCmd = zero_command\<lparr>c_Type := CmdDelete, c_Key := key, c_Revision := sv_currentRev sv1\<rparr>;
          (sv2, _) = store_apply deleteCmd sv1
      in do { sv3 \<leftarrow> notify deleteCmd sv2; revoke_keys keys sv3 })"

fun notify_deleted :: "string list \<Rightarrow> server \<Rightarrow> server option" where
  \<comment> \<open>the last loop of \<open>CmdDeletePrefix\<close>\<close>
  "notify_deleted [] sv = Some sv"
| "notify_deleted (key # keys) sv =
     do { sv1 \<leftarrow> notify (zero_command\<lparr>c_Type := CmdDelete, c_Key := key, c_Revision := sv_currentRev sv\<rparr>) sv;
          notify_deleted keys sv1 }"

definition raise_rev :: "server \<Rightarrow> server" where
  \<comment> \<open>\<open>if storeRev := s.store.GetCurrentRevision(); storeRev > s.currentRev\<close>\<close>
  "raise_rev sv =
     (if GetCurrentRevision (sv_store sv) > sv_currentRev sv
      then sv\<lparr>sv_currentRev := GetCurrentRevision (sv_store sv)\<rparr> else sv)"

definition exec_LeaseGrant :: "command \<Rightarrow> server \<Rightarrow> server \<times> string" where
  "exec_LeaseGrant cmd sv =
     (let ttl = (if c_TTL cmd \<le> 0 then 10 else c_TTL cmd);
          (le, leaseId) = GrantUntil (sv_leaseMgr sv) ttl (c_ExpireAt cmd)
      in (sv\<lparr>sv_leaseMgr := le\<rparr>, itoa leaseId))"

definition exec_LeaseRevoke :: "command \<Rightarrow> server \<Rightarrow> (server \<times> string) option" where
  "exec_LeaseRevoke cmd sv =
     (let leaseId = c_LeaseID cmd
      in if leaseId > 0
         then (let (le, keys) =
                     (if c_ExpireAt cmd > 0
                      then RevokeLeaseIfMatches (sv_leaseMgr sv) leaseId (c_ExpireAt cmd)
                      else RevokeLease (sv_leaseMgr sv) leaseId)
               in map_option (\<lambda>sv. (sv, ''OK'')) (revoke_keys keys (sv\<lparr>sv_leaseMgr := le\<rparr>)))
         else Some (sv, ''OK''))"

definition exec_LeaseKeepAlive :: "command \<Rightarrow> server \<Rightarrow> server \<times> string" where
  "exec_LeaseKeepAlive cmd sv =
     (let ttl = (if c_TTL cmd \<le> 0 then 10 else c_TTL cmd);
          (le, ok) = KeepAliveUntil (sv_leaseMgr sv) (c_LeaseID cmd) ttl (c_ExpireAt cmd)
      in (sv\<lparr>sv_leaseMgr := le\<rparr>, if ok then ''OK'' else ''ERROR''))"

definition exec_LeaseAttach :: "command \<Rightarrow> server \<Rightarrow> server \<times> string" where
  "exec_LeaseAttach cmd sv =
     (if c_LeaseID cmd > 0
      then (let sv1 = lease_do (\<lambda>le. fst (Revoke le (c_Key cmd))) sv;
                sv2 = lease_do (\<lambda>le. Attach le (c_LeaseID cmd) (c_Key cmd) (c_Value cmd)) sv1;
                sv3 = sv2\<lparr>sv_store := SetKeyLease (sv_store sv2) (c_Key cmd) (c_LeaseID cmd)\<rparr>;
                (sv4, _) = store_apply (cmd\<lparr>c_Type := CmdPut\<rparr>) sv3
            in (sv4, ''OK''))
      else (sv, ''OK''))"

definition exec_CAS :: "command \<Rightarrow> server \<Rightarrow> (server \<times> string) option" where
  "exec_CAS cmd sv =
     (let leaseID = GetKeyLease (sv_store sv) (c_Key cmd);
          (sv1, result) = store_apply cmd sv
      in if result = ''OK''
         then (let sv2 = (if leaseID > 0
                          then lease_do (\<lambda>le. Attach le leaseID (c_Key cmd) (c_Value cmd)) sv1 else sv1)
               in map_option (\<lambda>sv. (sv, result)) (notify (cmd\<lparr>c_Type := CmdPut\<rparr>) sv2))
         else Some (sv1, result))"

definition exec_DeletePrefix :: "command \<Rightarrow> server \<Rightarrow> (server \<times> string) option" where
  "exec_DeletePrefix cmd sv =
     (let (kv, deletedKeys) = DeletePrefix (sv_store sv) (c_Prefix cmd);
          sv1 = sv\<lparr>sv_store := kv\<rparr>;
          sv2 = fold (\<lambda>key. lease_do (\<lambda>le. fst (Revoke le key))) deletedKeys sv1;
          sv3 = raise_rev sv2
      in map_option (\<lambda>sv. (sv, itoa (int (length deletedKeys)))) (notify_deleted deletedKeys sv3))"

definition exec_default :: "command \<Rightarrow> server \<Rightarrow> (server \<times> string) option" where
  "exec_default cmd sv =
     (let sv1 = (if c_Type cmd = CmdPut \<or> c_Type cmd = CmdDelete
                 then lease_do (\<lambda>le. fst (Revoke le (c_Key cmd))) sv else sv);
          (sv2, result) = store_apply cmd sv1;
          sv3 = (if c_LeaseID cmd > 0 \<and> c_Type cmd = CmdPut
                 then (let sv' = lease_do (\<lambda>le. Attach le (c_LeaseID cmd) (c_Key cmd) (c_Value cmd)) sv2
                       in sv'\<lparr>sv_store := SetKeyLease (sv_store sv') (c_Key cmd) (c_LeaseID cmd)\<rparr>)
                 else sv2)
      in map_option (\<lambda>sv. (sv, result)) (notify cmd sv3))"

datatype exec_result =
    Done server string      \<comment> \<open>falls out of the \<open>switch\<close>, which releases \<open>s.mu\<close> and then replies\<close>
  | ReplyLocked server string  \<comment> \<open>calls \<open>notifyReply\<close> while it holds \<open>s.mu\<close>\<close>
  | Panic

definition outcome :: "(server \<times> string) option \<Rightarrow> exec_result" where
  "outcome r = (case r of None \<Rightarrow> Panic | Some (sv, s) \<Rightarrow> Done sv s)"

definition exec_cmd :: "command \<Rightarrow> server \<Rightarrow> exec_result" where
  "exec_cmd cmd sv =
     (case c_Type cmd of
        CmdLeaseGrant \<Rightarrow> outcome (Some (exec_LeaseGrant cmd sv))
      | CmdLeaseRevoke \<Rightarrow> outcome (exec_LeaseRevoke cmd sv)
      | CmdLeaseKeepAlive \<Rightarrow> outcome (Some (exec_LeaseKeepAlive cmd sv))
      | CmdLeaseAttach \<Rightarrow> outcome (Some (exec_LeaseAttach cmd sv))
      | CmdCAS \<Rightarrow> outcome (exec_CAS cmd sv)
      | CmdDeletePrefix \<Rightarrow>
          (case exec_DeletePrefix cmd sv of None \<Rightarrow> Panic | Some (sv', s) \<Rightarrow> ReplyLocked sv' s)
      | CmdGetPrefix \<Rightarrow> ReplyLocked sv (go_map_string (GetPrefix (sv_store sv) (c_Prefix cmd)))
      | CmdGet \<Rightarrow> (case store_apply cmd sv of (sv', s) \<Rightarrow> ReplyLocked sv' s)
      | _ \<Rightarrow> outcome (exec_default cmd sv))"

definition finish :: "int \<Rightarrow> string \<Rightarrow> server \<Rightarrow> server" where
  \<comment> \<open>the end of an iteration: the reply, then \<open>LastApplied\<close>\<close>
  "finish idx result sv =
     (let sv1 = (if idx \<ge> 0 then notifyReply idx (ReplyText result) sv else sv)
      in if idx > sv_lastApplied sv1 then sv1\<lparr>sv_lastApplied := idx\<rparr> else sv1)"

definition apply_cmd :: "int \<Rightarrow> string option \<Rightarrow> int \<Rightarrow> command \<Rightarrow> server \<Rightarrow> server option" where
  \<comment> \<open>one iteration from the decoded command on; \<open>wr\<close> is the error of the journal's write, if any\<close>
  "apply_cmd now wr idx cmd0 sv0 =
     (let (sv, cmd) = stamp now sv0 cmd0
      in case sv_persistenceErr sv of
           Some failure \<Rightarrow> Some (notifyReply idx (ReplyError failure) sv)
         | None \<Rightarrow>
             (if sv_wal sv \<noteq> None \<and> wr \<noteq> None
              then (let failure = ''write WAL: '' @ the wr
                    in Some (notifyReply idx (ReplyError failure) (sv\<lparr>sv_persistenceErr := Some failure\<rparr>)))
              else (let sv1 = sv\<lparr>sv_wal := map_option (\<lambda>w. w @ [cmd]) (sv_wal sv)\<rparr>
                    in case exec_cmd cmd sv1 of
                         Panic \<Rightarrow> None
                       | ReplyLocked sv2 _ \<Rightarrow> Some (sv2\<lparr>sv_blocked := True\<rparr>)
                       | Done sv2 result \<Rightarrow> Some (if sv_blocked sv2 then sv2 else finish idx result sv2))))"

definition applyLoop_step :: "int \<Rightarrow> string option \<Rightarrow> apply_msg \<Rightarrow> server \<Rightarrow> server option" where
  \<comment> \<open>one iteration of \<open>applyLoop\<close>; a loop that is blocked takes no further message\<close>
  "applyLoop_step now wr msg sv =
     (if sv_blocked sv then Some sv
      else if m_Command msg = Barrier then Some sv
      else if \<not> m_CommandValid msg then Some sv
      else case commandFromValue (m_Command msg) of
             None \<Rightarrow> Some sv
           | Some cmd \<Rightarrow> apply_cmd now wr (m_CommandIndex msg) cmd sv)"

section \<open>\<open>applyLoop\<close> implements the state machine\<close>

definition core :: "server \<Rightarrow> core" where
  "core sv = (sv_store sv, sv_leaseMgr sv, sv_currentRev sv)"

definition sv_ok :: "server \<Rightarrow> bool" where
  "sv_ok sv \<longleftrightarrow> core_ok (core sv) \<and> wm_ok (sv_watchers sv)"

definition same_rest :: "server \<Rightarrow> server \<Rightarrow> bool" where
  \<comment> \<open>the journal, the replies and the loop's own fields are untouched\<close>
  "same_rest sv sv' \<longleftrightarrow>
     sv_wal sv' = sv_wal sv \<and> sv_persistenceErr sv' = sv_persistenceErr sv \<and>
     sv_replyCh sv' = sv_replyCh sv \<and> sv_replies sv' = sv_replies sv \<and>
     sv_lastApplied sv' = sv_lastApplied sv \<and> sv_blocked sv' = sv_blocked sv"

lemma same_rest_refl [simp]: "same_rest sv sv"
  by (simp add: same_rest_def)

lemma same_rest_trans: "same_rest a b \<Longrightarrow> same_rest b c \<Longrightarrow> same_rest a c"
  by (simp add: same_rest_def)

lemma same_rest_update [simp]:
  "same_rest sv (sv'\<lparr>sv_store := kv\<rparr>) \<longleftrightarrow> same_rest sv sv'"
  "same_rest sv (sv'\<lparr>sv_leaseMgr := le\<rparr>) \<longleftrightarrow> same_rest sv sv'"
  "same_rest sv (sv'\<lparr>sv_watchers := wa\<rparr>) \<longleftrightarrow> same_rest sv sv'"
  "same_rest sv (sv'\<lparr>sv_currentRev := r\<rparr>) \<longleftrightarrow> same_rest sv sv'"
  by (simp_all add: same_rest_def)

lemma core_simps [simp]:
  "core (sv\<lparr>sv_store := kv\<rparr>) = (kv, sv_leaseMgr sv, sv_currentRev sv)"
  "core (sv\<lparr>sv_leaseMgr := le\<rparr>) = (sv_store sv, le, sv_currentRev sv)"
  "core (sv\<lparr>sv_currentRev := r\<rparr>) = (sv_store sv, sv_leaseMgr sv, r)"
  "core (sv\<lparr>sv_watchers := wa\<rparr>) = core sv"
  "core (sv\<lparr>sv_wal := w\<rparr>) = core sv"
  "core (sv\<lparr>sv_persistenceErr := pe\<rparr>) = core sv"
  "core (sv\<lparr>sv_replyCh := rc\<rparr>) = core sv"
  "core (sv\<lparr>sv_replies := rs\<rparr>) = core sv"
  "core (sv\<lparr>sv_lastApplied := i\<rparr>) = core sv"
  "core (sv\<lparr>sv_blocked := b\<rparr>) = core sv"
  by (simp_all add: core_def)

lemma notify_ok:
  assumes "wm_ok (sv_watchers sv)"
  obtains wa where "notify cmd sv = Some (sv\<lparr>sv_watchers := wa\<rparr>)" "wm_ok wa"
  using wm_ok_notify [OF assms, of cmd] by (auto simp: notify_def)

lemma store_apply_core:
  assumes "c_Type cmd \<noteq> CmdGet"
  obtains s where "store_apply cmd sv = (sv\<lparr>sv_store := kv_apply (sv_store sv) cmd\<rparr>, s)"
    "s = (case Apply (sv_store sv) cmd of Ret (_, Inr t) \<Rightarrow> t | _ \<Rightarrow> [])"
proof -
  have "Apply (sv_store sv) cmd \<noteq> Blocked" using assms
    by (cases "c_Type cmd") (auto simp: Apply_def Let_def split: prod.splits option.splits)
  then show thesis using that
    by (cases "Apply (sv_store sv) cmd") (auto simp: store_apply_def kv_apply_def split: sum.splits)
qed

lemma revoke_keys_core:
  assumes "wm_ok (sv_watchers sv)"
  shows "\<exists>sv'. revoke_keys ks sv = Some sv' \<and> wm_ok (sv_watchers sv') \<and> same_rest sv sv' \<and>
    core sv' = (case del_keys ks (sv_store sv, sv_currentRev sv) of (kv, r) \<Rightarrow> (kv, sv_leaseMgr sv, r))"
  using assms
proof (induction ks arbitrary: sv)
  case Nil
  then show ?case by (simp add: core_def)
next
  case (Cons k ks)
  define sv1 where "sv1 = sv\<lparr>sv_currentRev := sv_currentRev sv + 1\<rparr>"
  let ?cmd = "delete_at k (sv_currentRev sv1)"
  obtain s where st: "store_apply ?cmd sv1 = (sv1\<lparr>sv_store := kv_apply (sv_store sv1) ?cmd\<rparr>, s)"
    by (rule store_apply_core [of ?cmd sv1]) simp_all
  define sv2 where "sv2 = sv1\<lparr>sv_store := kv_apply (sv_store sv1) ?cmd\<rparr>"
  have "wm_ok (sv_watchers sv2)" using Cons.prems by (simp add: sv1_def sv2_def)
  then obtain wa where n: "notify ?cmd sv2 = Some (sv2\<lparr>sv_watchers := wa\<rparr>)" "wm_ok wa"
    by (rule notify_ok)
  have "revoke_keys (k # ks) sv = revoke_keys ks (sv2\<lparr>sv_watchers := wa\<rparr>)"
    using st [folded sv2_def] n by (simp add: Let_def sv1_def [symmetric] delete_at_def)
  moreover have "wm_ok (sv_watchers (sv2\<lparr>sv_watchers := wa\<rparr>))" using n(2) by simp
  from Cons.IH [OF this] obtain sv' where "revoke_keys ks (sv2\<lparr>sv_watchers := wa\<rparr>) = Some sv'"
    "wm_ok (sv_watchers sv')" "same_rest (sv2\<lparr>sv_watchers := wa\<rparr>) sv'"
    "core sv' = (case del_keys ks (sv_store sv2, sv_currentRev sv2) of (kv, r) \<Rightarrow> (kv, sv_leaseMgr sv2, r))"
    by auto
  moreover have "same_rest sv (sv2\<lparr>sv_watchers := wa\<rparr>)" by (simp add: sv1_def sv2_def)
  ultimately show ?case
    using same_rest_trans [of sv "sv2\<lparr>sv_watchers := wa\<rparr>" sv']
    by (simp add: sv1_def sv2_def split: prod.splits)
qed

lemma notify_deleted_core:
  assumes "wm_ok (sv_watchers sv)"
  shows "\<exists>sv'. notify_deleted ks sv = Some sv' \<and> wm_ok (sv_watchers sv') \<and> same_rest sv sv' \<and> core sv' = core sv"
  using assms
proof (induction ks arbitrary: sv)
  case (Cons k ks)
  obtain wa where n: "notify (delete_at k (sv_currentRev sv)) sv = Some (sv\<lparr>sv_watchers := wa\<rparr>)" "wm_ok wa"
    using notify_ok [OF Cons.prems] .
  then have "notify_deleted (k # ks) sv = notify_deleted ks (sv\<lparr>sv_watchers := wa\<rparr>)"
    by (simp add: delete_at_def)
  moreover obtain sv' where "notify_deleted ks (sv\<lparr>sv_watchers := wa\<rparr>) = Some sv'" "wm_ok (sv_watchers sv')"
    "same_rest (sv\<lparr>sv_watchers := wa\<rparr>) sv'" "core sv' = core (sv\<lparr>sv_watchers := wa\<rparr>)"
    using Cons.IH [of "sv\<lparr>sv_watchers := wa\<rparr>"] n(2) by auto
  moreover have "same_rest sv (sv\<lparr>sv_watchers := wa\<rparr>)" by simp
  ultimately show ?case using same_rest_trans [of sv "sv\<lparr>sv_watchers := wa\<rparr>" sv'] by simp
qed simp

text \<open>
  What the iteration's body leaves behind: it never panics, moves the core as the reference machine
  does, keeps the watcher table well formed and leaves the journal and the replies alone.
\<close>

definition moves :: "command \<Rightarrow> server \<Rightarrow> server \<Rightarrow> bool" where
  "moves cmd sv sv' \<longleftrightarrow>
     core sv' = core_step cmd (core sv) \<and> wm_ok (sv_watchers sv') \<and> same_rest sv sv'"

lemma exec_LeaseRevoke_moves:
  assumes "c_Type cmd = CmdLeaseRevoke" and "lm_ok (sv_leaseMgr sv)" and "wm_ok (sv_watchers sv)"
  shows "\<exists>sv'. exec_LeaseRevoke cmd sv = Some (sv', ''OK'') \<and> moves cmd sv sv'"
proof (cases "c_LeaseID cmd > 0")
  case True
  obtain le keys where rc: "revoke_choice cmd (sv_leaseMgr sv) = (le, keys)" by force
  obtain sv' where "revoke_keys keys (sv\<lparr>sv_leaseMgr := le\<rparr>) = Some sv'" "wm_ok (sv_watchers sv')"
    "same_rest (sv\<lparr>sv_leaseMgr := le\<rparr>) sv'"
    "core sv' = (case del_keys keys (sv_store sv, sv_currentRev sv) of (kv, r) \<Rightarrow> (kv, le, r))"
    using revoke_keys_core [of "sv\<lparr>sv_leaseMgr := le\<rparr>" keys] assms(3) by auto
  moreover from this(3) have "same_rest sv sv'"
    by (rule same_rest_trans [rotated]) simp
  ultimately show ?thesis using True rc assms(1)
    by (simp add: exec_LeaseRevoke_def revoke_choice_def moves_def core_def core_step.simps)
next
  case False
  then have "map_of (lm_leases (sv_leaseMgr sv)) (c_LeaseID cmd) = None"
    using lm_ok_lease [OF assms(2), of "c_LeaseID cmd"] by (cases "map_of (lm_leases (sv_leaseMgr sv)) (c_LeaseID cmd)") (auto simp: lease_ok_def)
  then have "revoke_choice cmd (sv_leaseMgr sv) = (sv_leaseMgr sv, [])"
    by (simp add: revoke_choice_def RevokeLeaseIfMatches_def RevokeLease_def revokeLeaseLocked_def)
  then show ?thesis using False assms
    by (simp add: exec_LeaseRevoke_def moves_def core_def core_step.simps)
qed

lemma exec_CAS_moves:
  assumes ty: "c_Type cmd = CmdCAS" and rv: "rev_ok (sv_store sv) cmd" and "wm_ok (sv_watchers sv)"
  shows "\<exists>sv'. exec_CAS cmd sv = Some (sv', if cas_matches (sv_store sv) cmd then ''OK'' else ''CAS_FAILED'')
    \<and> moves cmd sv sv'"
proof (cases "cas_matches (sv_store sv) cmd")
  case True
  note ap = Apply_CmdCAS [OF ty rv]
  define sv2 where "sv2 = (let sv1 = sv\<lparr>sv_store := kv_apply (sv_store sv) cmd\<rparr>; a = GetKeyLease (sv_store sv) (c_Key cmd)
    in if a > 0 then lease_do (\<lambda>le. Attach le a (c_Key cmd) (c_Value cmd)) sv1 else sv1)"
  have "wm_ok (sv_watchers sv2)" using assms(3) by (simp add: sv2_def lease_do_def Let_def)
  then obtain wa where "notify (cmd\<lparr>c_Type := CmdPut\<rparr>) sv2 = Some (sv2\<lparr>sv_watchers := wa\<rparr>)" "wm_ok wa"
    by (rule notify_ok)
  moreover have "store_apply cmd sv = (sv\<lparr>sv_store := kv_apply (sv_store sv) cmd\<rparr>, ''OK'')"
    using ap True by (simp add: store_apply_def kv_apply_def)
  ultimately have "exec_CAS cmd sv = Some (sv2\<lparr>sv_watchers := wa\<rparr>, ''OK'')" "wm_ok wa"
    by (simp_all add: exec_CAS_def Let_def sv2_def)
  then show ?thesis using True ty
    by (auto simp: moves_def core_def core_step.simps sv2_def lease_do_def Let_def)
next
  case False
  then show ?thesis using Apply_CmdCAS [OF ty rv] ty assms(3)
    by (simp add: exec_CAS_def store_apply_def kv_apply_def moves_def core_def core_step.simps)
qed

lemma lease_do_fold:
  "fold (\<lambda>key. lease_do (f key)) keys sv = sv\<lparr>sv_leaseMgr := fold f keys (sv_leaseMgr sv)\<rparr>"
  by (induction keys arbitrary: sv) (simp_all add: lease_do_def)

lemma exec_DeletePrefix_moves:
  assumes ty: "c_Type cmd = CmdDeletePrefix" and "wm_ok (sv_watchers sv)"
  shows "\<exists>sv'. exec_DeletePrefix cmd sv =
      Some (sv', itoa (int (length (snd (DeletePrefix (sv_store sv) (c_Prefix cmd)))))) \<and> moves cmd sv sv'"
proof -
  obtain kv keys where dp: "DeletePrefix (sv_store sv) (c_Prefix cmd) = (kv, keys)" by force
  define sv3 where "sv3 = raise_rev (sv\<lparr>sv_store := kv,
    sv_leaseMgr := fold (\<lambda>key le. fst (Revoke le key)) keys (sv_leaseMgr sv)\<rparr>)"
  have sv3: "wm_ok (sv_watchers sv3)" "same_rest sv sv3"
    "core sv3 = (kv, fold (\<lambda>key le. fst (Revoke le key)) keys (sv_leaseMgr sv), max (sv_currentRev sv) (kv_currentRev kv))"
    using assms(2) by (auto simp: sv3_def raise_rev_def core_def GetCurrentRevision_def)
  obtain sv' where sv': "notify_deleted keys sv3 = Some sv'" "wm_ok (sv_watchers sv')" "same_rest sv3 sv'"
    "core sv' = core sv3" using notify_deleted_core [OF sv3(1)] by blast
  have "exec_DeletePrefix cmd sv = Some (sv', itoa (int (length keys)))"
    using dp sv'(1) by (simp add: exec_DeletePrefix_def lease_do_fold sv3_def)
  moreover have "moves cmd sv sv'"
    using sv' sv3 same_rest_trans [OF sv3(2) sv'(3)] ty dp by (simp add: moves_def core_def core_step.simps)
  ultimately show ?thesis using dp by auto
qed

lemma exec_default_moves:
  assumes ty: "c_Type cmd = CmdPut \<or> c_Type cmd = CmdDelete \<or> (\<exists>n. c_Type cmd = CmdOther n)"
    and rv: "is_write (c_Type cmd) \<Longrightarrow> rev_ok (sv_store sv) cmd" and wm: "wm_ok (sv_watchers sv)"
  shows "\<exists>sv'. exec_default cmd sv = Some (sv', []) \<and> moves cmd sv sv'"
proof -
  define sv1 where "sv1 = (if c_Type cmd = CmdPut \<or> c_Type cmd = CmdDelete
    then lease_do (\<lambda>le. fst (Revoke le (c_Key cmd))) sv else sv)"
  define sv2 where "sv2 = sv1\<lparr>sv_store := kv_apply (sv_store sv1) cmd\<rparr>"
  define sv3 where "sv3 = (if c_LeaseID cmd > 0 \<and> c_Type cmd = CmdPut
    then (let sv' = lease_do (\<lambda>le. Attach le (c_LeaseID cmd) (c_Key cmd) (c_Value cmd)) sv2
          in sv'\<lparr>sv_store := SetKeyLease (sv_store sv') (c_Key cmd) (c_LeaseID cmd)\<rparr>)
    else sv2)"
  have st: "sv_store sv1 = sv_store sv" by (simp add: sv1_def lease_do_def)
  have "(case Apply (sv_store sv1) cmd of Ret (_, Inr t) \<Rightarrow> t | _ \<Rightarrow> []) = []"
    using ty rv by (auto simp: st is_write_def Apply_CmdPut Apply_CmdDelete) (simp add: Apply_def)
  moreover have "c_Type cmd \<noteq> CmdGet" using ty by auto
  ultimately have sa: "store_apply cmd sv1 = (sv2, [])"
    using store_apply_core [of cmd sv1] by (metis sv2_def)
  have "wm_ok (sv_watchers sv3)" "same_rest sv sv3"
    using wm by (auto simp: sv3_def sv2_def sv1_def lease_do_def Let_def)
  moreover from this(1) obtain wa where "notify cmd sv3 = Some (sv3\<lparr>sv_watchers := wa\<rparr>)" "wm_ok wa"
    by (rule notify_ok)
  moreover have "core sv3 = core_step cmd (core sv)"
    using ty rv st by (auto simp: sv3_def sv2_def sv1_def lease_do_def Let_def core_def core_step.simps
      kv_apply_def is_write_def Apply_CmdPut Apply_CmdDelete SetKeyLease_def) (simp_all add: Apply_def)
  ultimately have "exec_default cmd sv = Some (sv3\<lparr>sv_watchers := wa\<rparr>, [])"
    "moves cmd sv (sv3\<lparr>sv_watchers := wa\<rparr>)"
    using sa by (simp_all add: exec_default_def moves_def Let_def sv1_def [symmetric] sv3_def [symmetric])
  then show ?thesis by blast
qed

lemma exec_LeaseAttach_moves:
  assumes ty: "c_Type cmd = CmdLeaseAttach" and rv: "rev_ok (sv_store sv) cmd" and "wm_ok (sv_watchers sv)"
  shows "\<exists>sv'. exec_LeaseAttach cmd sv = (sv', ''OK'') \<and> moves cmd sv sv'"
proof -
  have "rev_ok (SetKeyLease (sv_store sv) (c_Key cmd) a) (cmd\<lparr>c_Type := CmdPut\<rparr>)" for a
    using rv by (simp add: rev_ok_def cmd_rev_def SetKeyLease_def)
  then show ?thesis using assms
    by (simp add: exec_LeaseAttach_def lease_do_def store_apply_def Apply_CmdPut Apply_CmdLeaseAttach moves_def
        core_def core_step.simps kv_apply_def SetKeyLease_def write_version_def append_version_def cmd_rev_def Let_def)
qed

fun core_reply :: "command \<Rightarrow> core \<Rightarrow> string" where
  \<comment> \<open>the text a committed command is answered with\<close>
  "core_reply cmd (kv, le, r) =
     (case c_Type cmd of
        CmdCAS \<Rightarrow> (if cas_matches kv cmd then ''OK'' else ''CAS_FAILED'')
      | CmdLeaseAttach \<Rightarrow> ''OK''
      | CmdLeaseRevoke \<Rightarrow> ''OK''
      | CmdLeaseGrant \<Rightarrow> itoa (snd (GrantUntil le (ttl_of cmd) (c_ExpireAt cmd)))
      | CmdLeaseKeepAlive \<Rightarrow>
          (if snd (KeepAliveUntil le (c_LeaseID cmd) (ttl_of cmd) (c_ExpireAt cmd)) then ''OK'' else ''ERROR'')
      | CmdDeletePrefix \<Rightarrow> itoa (int (length (snd (DeletePrefix kv (c_Prefix cmd)))))
      | CmdGetPrefix \<Rightarrow> go_map_string (GetPrefix kv (c_Prefix cmd))
      | _ \<Rightarrow> [])"

lemma exec_cmd_moves:
  assumes "sv_ok sv" and "c_Type cmd \<noteq> CmdGet"
    and rv: "is_write (c_Type cmd) \<Longrightarrow> rev_ok (sv_store sv) cmd"
  shows "\<exists>sv'. exec_cmd cmd sv =
      (if c_Type cmd = CmdDeletePrefix \<or> c_Type cmd = CmdGetPrefix then ReplyLocked else Done)
        sv' (core_reply cmd (core sv)) \<and> moves cmd sv sv'"
proof -
  have wm: "wm_ok (sv_watchers sv)" and lm: "lm_ok (sv_leaseMgr sv)"
    using assms(1) by (simp_all add: sv_ok_def core_def)
  show ?thesis
  proof (cases "c_Type cmd")
    case CmdPut
    then show ?thesis using exec_default_moves [OF _ rv wm]
      by (auto simp: exec_cmd_def outcome_def core_def)
  next
    case CmdDelete
    then show ?thesis using exec_default_moves [OF _ rv wm]
      by (auto simp: exec_cmd_def outcome_def core_def)
  next
    case (CmdOther n)
    then show ?thesis using exec_default_moves [OF _ rv wm]
      by (auto simp: exec_cmd_def outcome_def core_def)
  next
    case CmdCAS
    then show ?thesis using exec_CAS_moves [OF _ rv wm]
      by (auto simp: exec_cmd_def outcome_def core_def is_write_def)
  next
    case CmdLeaseAttach
    then show ?thesis using exec_LeaseAttach_moves [OF _ rv wm]
      by (auto simp: exec_cmd_def outcome_def core_def is_write_def)
  next
    case CmdLeaseRevoke
    then show ?thesis using exec_LeaseRevoke_moves [OF CmdLeaseRevoke lm wm]
      by (auto simp: exec_cmd_def outcome_def core_def)
  next
    case CmdDeletePrefix
    then show ?thesis using exec_DeletePrefix_moves [OF CmdDeletePrefix wm]
      by (auto simp: exec_cmd_def core_def)
  next
    case CmdLeaseGrant
    then show ?thesis using wm
      by (auto simp: exec_cmd_def outcome_def exec_LeaseGrant_def core_def moves_def core_step.simps ttl_of_def
          split: prod.splits)
  next
    case CmdLeaseKeepAlive
    then show ?thesis using wm
      by (auto simp: exec_cmd_def outcome_def exec_LeaseKeepAlive_def core_def moves_def core_step.simps ttl_of_def
          split: prod.splits)
  next
    case CmdGetPrefix
    then show ?thesis using wm by (auto simp: exec_cmd_def core_def moves_def core_step.simps)
  qed (use assms(2) in simp)
qed

definition timed :: "int \<Rightarrow> command \<Rightarrow> command" where
  \<comment> \<open>the expiry time a lease command is given when it carries none\<close>
  "timed now cmd =
     (if (c_Type cmd = CmdLeaseGrant \<or> c_Type cmd = CmdLeaseKeepAlive) \<and> c_ExpireAt cmd \<le> 0
      then cmd\<lparr>c_ExpireAt := deadline now (ttl_of cmd)\<rparr> else cmd)"

definition with_rev :: "int \<Rightarrow> command \<Rightarrow> command" where
  \<comment> \<open>the revision a write is given\<close>
  "with_rev r cmd = (if is_write (c_Type cmd) then cmd\<lparr>c_Revision := r + 1\<rparr> else cmd)"

definition next_rev :: "command \<Rightarrow> int \<Rightarrow> int" where
  "next_rev cmd r = (if is_write (c_Type cmd) then r + 1 else r)"

lemma timed_simps [simp]:
  "c_Type (timed now cmd) = c_Type cmd" "c_Type (with_rev r cmd) = c_Type cmd"
  "c_Key (timed now cmd) = c_Key cmd" "c_Key (with_rev r cmd) = c_Key cmd"
  "c_LeaseID (timed now cmd) = c_LeaseID cmd" "c_LeaseID (with_rev r cmd) = c_LeaseID cmd"
  "c_ExpireAt (with_rev r cmd) = c_ExpireAt cmd"
  "next_rev (timed now cmd) r = next_rev cmd r"
  by (simp_all add: timed_def with_rev_def next_rev_def)

lemma stamp_eq:
  "stamp now sv cmd = (sv\<lparr>sv_currentRev := next_rev cmd (sv_currentRev sv)\<rparr>,
     with_rev (sv_currentRev sv) (timed now cmd))"
  by (cases "c_Type cmd")
    (simp_all add: stamp_def next_rev_def with_rev_def timed_def is_write_def ttl_of_def Let_def)

lemma core_apply_eq: "core_apply cmd (kv, le, r) = core_step (with_rev r cmd) (kv, le, next_rev cmd r)"
  by (simp add: core_apply.simps with_rev_def next_rev_def)

lemma core_reply_with_rev:
  "core_reply (with_rev r cmd) (kv, le, r') = core_reply cmd (kv, le, r)"
  by (cases "c_Type cmd") (simp_all add: with_rev_def ttl_of_def cas_matches_def)

declare core_reply.simps [simp del]

lemma apply_cmd_exec:
  assumes ok: "sv_ok sv" and "sv_persistenceErr sv = None" and "sv_wal sv = None \<or> wr = None"
    and ty: "c_Type cmd \<noteq> CmdGet"
  obtains sv' where
    "apply_cmd now wr idx cmd sv =
       Some (if c_Type cmd = CmdDeletePrefix \<or> c_Type cmd = CmdGetPrefix then sv'\<lparr>sv_blocked := True\<rparr>
             else if sv_blocked sv' then sv' else finish idx (core_reply (timed now cmd) (core sv)) sv')"
    "core sv' = core_apply (timed now cmd) (core sv)" "sv_ok sv'"
    "same_rest (sv\<lparr>sv_wal := map_option (\<lambda>w. w @ [with_rev (sv_currentRev sv) (timed now cmd)]) (sv_wal sv)\<rparr>) sv'"
proof -
  let ?c = "with_rev (sv_currentRev sv) (timed now cmd)"
  define sv1 where "sv1 = sv\<lparr>sv_currentRev := next_rev cmd (sv_currentRev sv),
    sv_wal := map_option (\<lambda>w. w @ [?c]) (sv_wal sv)\<rparr>"
  have "sv_ok sv1" using ok by (simp add: sv1_def sv_ok_def core_def next_rev_def)
  moreover have "rev_ok (sv_store sv1) ?c" if "is_write (c_Type cmd)"
    using ok that by (simp add: sv1_def sv_ok_def core_def with_rev_def rev_ok_def)
  ultimately obtain sv' where ex: "exec_cmd ?c sv1 =
      (if c_Type cmd = CmdDeletePrefix \<or> c_Type cmd = CmdGetPrefix then ReplyLocked else Done)
        sv' (core_reply ?c (core sv1))" and mv: "moves ?c sv1 sv'"
    using exec_cmd_moves [of sv1 ?c] ty by auto
  have core: "core sv' = core_apply (timed now cmd) (core sv)"
    using mv by (simp add: moves_def core_def sv1_def core_apply_eq)
  moreover have "sv_ok sv'"
    unfolding sv_ok_def core using mv ok by (simp add: sv_ok_def moves_def core_ok_apply)
  moreover have "core_reply ?c (core sv1) = core_reply (timed now cmd) (core sv)"
    by (simp add: core_def sv1_def core_reply_with_rev)
  moreover have "same_rest (sv\<lparr>sv_wal := map_option (\<lambda>w. w @ [?c]) (sv_wal sv)\<rparr>) sv'"
    using mv by (simp add: moves_def sv1_def same_rest_def)
  moreover have "apply_cmd now wr idx cmd sv = (case exec_cmd ?c sv1 of
      Panic \<Rightarrow> None | ReplyLocked sv2 _ \<Rightarrow> Some (sv2\<lparr>sv_blocked := True\<rparr>)
    | Done sv2 result \<Rightarrow> Some (if sv_blocked sv2 then sv2 else finish idx result sv2))"
    using assms(2,3) by (auto simp: apply_cmd_def stamp_eq sv1_def Let_def)
  ultimately show thesis using that [of sv'] ex by auto
qed

lemma finish_simps [simp]:
  "core (finish idx s sv) = core sv" "sv_watchers (finish idx s sv) = sv_watchers sv"
  "sv_wal (finish idx s sv) = sv_wal sv" "sv_blocked (finish idx s sv) = sv_blocked sv"
  "sv_persistenceErr (finish idx s sv) = sv_persistenceErr sv"
  "sv_lastApplied (finish idx s sv) = max idx (sv_lastApplied sv)"
  "sv_replies (finish idx s sv) =
     sv_replies sv @ (if 0 \<le> idx \<and> idx \<in> set (sv_replyCh sv) then [(idx, ReplyText s)] else [])"
  "sv_replyCh (finish idx s sv) = (if 0 \<le> idx then removeAll idx (sv_replyCh sv) else sv_replyCh sv)"
  by (auto simp: finish_def notifyReply_def Let_def core_def)

section \<open>Whole runs\<close>

definition new_server :: "bool \<Rightarrow> server" where
  \<comment> \<open>the state \<open>NewServer\<close> builds, with or without a journal\<close>
  "new_server has_wal =
     \<lparr>sv_store = NewKVStore, sv_leaseMgr = NewLeaseManager, sv_watchers = NewWatchManager, sv_currentRev = 0,
      sv_wal = (if has_wal then Some [] else None), sv_persistenceErr = None, sv_replyCh = [], sv_replies = [],
      sv_lastApplied = 0, sv_blocked = False\<rparr>"

fun applyLoop :: "(int \<times> string option \<times> apply_msg) list \<Rightarrow> server \<Rightarrow> server option" where
  \<comment> \<open>the loop over the messages the channel delivers, each with the clock and the journal's outcome\<close>
  "applyLoop [] sv = Some sv"
| "applyLoop ((now, wr, msg) # ms) sv = do { sv' \<leftarrow> applyLoop_step now wr msg sv; applyLoop ms sv' }"

lemma sv_ok_new [wj_inv]: "sv_ok (new_server w)"
  using core_ok_init wm_ok_New by (simp add: sv_ok_def core_def new_server_def core_init_def)

lemma notifyReply_simps [simp]:
  "core (notifyReply idx r sv) = core sv" "sv_watchers (notifyReply idx r sv) = sv_watchers sv"
  "sv_wal (notifyReply idx r sv) = sv_wal sv" "sv_blocked (notifyReply idx r sv) = sv_blocked sv"
  "sv_persistenceErr (notifyReply idx r sv) = sv_persistenceErr sv"
  by (simp_all add: notifyReply_def)

lemma sv_ok_bump:
  "sv_ok sv \<Longrightarrow> sv_ok (sv\<lparr>sv_currentRev := next_rev cmd (sv_currentRev sv)\<rparr>)"
  by (simp add: sv_ok_def core_def next_rev_def)

lemma exec_cmd_get: "c_Type cmd = CmdGet \<Longrightarrow> exec_cmd cmd sv = ReplyLocked (sv\<lparr>sv_blocked := True\<rparr>) []"
  by (simp add: exec_cmd_def store_apply_def Apply_CmdGet)

lemma apply_cmd_cases:
  assumes ok: "sv_ok sv" and nb: "\<not> sv_blocked sv" and ap: "apply_cmd now wr idx cmd sv = r"
  obtains (failed) sv' where "r = Some sv'" "sv_ok sv'" "sv_wal sv' = sv_wal sv" "sv_persistenceErr sv' \<noteq> None"
      "core sv' = (sv_store sv, sv_leaseMgr sv, next_rev cmd (sv_currentRev sv))"
  | (get) sv' where "r = Some sv'" "sv_ok sv'" "core sv' = core sv" "sv_blocked sv'" "c_Type cmd = CmdGet"
      "sv_wal sv' = map_option (\<lambda>w. w @ [with_rev (sv_currentRev sv) (timed now cmd)]) (sv_wal sv)"
      "sv_persistenceErr sv' = None" "sv_replies sv' = sv_replies sv" "sv_persistenceErr sv = None"
  | (applied) sv' where "r = Some sv'" "sv_ok sv'" "core sv' = core_apply (timed now cmd) (core sv)"
      "c_Type cmd \<noteq> CmdGet" "sv_persistenceErr sv' = None" "sv_persistenceErr sv = None"
      "sv_wal sv' = map_option (\<lambda>w. w @ [with_rev (sv_currentRev sv) (timed now cmd)]) (sv_wal sv)"
      "sv_blocked sv' \<longleftrightarrow> c_Type cmd = CmdDeletePrefix \<or> c_Type cmd = CmdGetPrefix"
      "sv_replies sv' = sv_replies sv @ (if 0 \<le> idx \<and> idx \<in> set (sv_replyCh sv) \<and> \<not> sv_blocked sv'
         then [(idx, ReplyText (core_reply (timed now cmd) (core sv)))] else [])"
proof (cases "sv_persistenceErr sv = None \<and> (sv_wal sv = None \<or> wr = None)")
  case False
  then show thesis using failed ap ok sv_ok_bump [OF ok, of cmd]
    by (cases "sv_persistenceErr sv") (auto simp: apply_cmd_def stamp_eq Let_def sv_ok_def)
next
  case True
  show thesis
  proof (cases "c_Type cmd = CmdGet")
    case ty: True
    then show thesis using get ap ok True
      by (auto simp: apply_cmd_def stamp_eq Let_def exec_cmd_get sv_ok_def next_rev_def is_write_def core_def)
  next
    case ty: False
    from True have "sv_persistenceErr sv = None" "sv_wal sv = None \<or> wr = None" by simp_all
    from apply_cmd_exec [OF ok this ty, of now idx] obtain sv' where
      "r = Some (if c_Type cmd = CmdDeletePrefix \<or> c_Type cmd = CmdGetPrefix then sv'\<lparr>sv_blocked := True\<rparr>
             else if sv_blocked sv' then sv' else finish idx (core_reply (timed now cmd) (core sv)) sv')"
      "core sv' = core_apply (timed now cmd) (core sv)" "sv_ok sv'"
      "same_rest (sv\<lparr>sv_wal := map_option (\<lambda>w. w @ [with_rev (sv_currentRev sv) (timed now cmd)]) (sv_wal sv)\<rparr>) sv'"
      using ap by metis
    then show thesis using ty nb True
      by (intro applied [of "if c_Type cmd = CmdDeletePrefix \<or> c_Type cmd = CmdGetPrefix then sv'\<lparr>sv_blocked := True\<rparr>
             else if sv_blocked sv' then sv' else finish idx (core_reply (timed now cmd) (core sv)) sv'"])
        (auto simp: sv_ok_def same_rest_def)
  qed
qed

lemma applyLoop_step_cases:
  assumes ok: "sv_ok sv" and st: "applyLoop_step now wr msg sv = r"
  obtains (idle) "r = Some sv"
  | (failed) sv' cmd where "r = Some sv'" "sv_ok sv'" "\<not> sv_blocked sv" "sv_wal sv' = sv_wal sv"
      "sv_persistenceErr sv' \<noteq> None" "core sv' = (sv_store sv, sv_leaseMgr sv, next_rev cmd (sv_currentRev sv))"
  | (get) sv' cmd where "r = Some sv'" "sv_ok sv'" "core sv' = core sv" "\<not> sv_blocked sv" "sv_blocked sv'"
      "sv_wal sv' = map_option (\<lambda>w. w @ [with_rev (sv_currentRev sv) (timed now cmd)]) (sv_wal sv)"
      "c_Type cmd = CmdGet" "sv_persistenceErr sv' = None" "sv_persistenceErr sv = None"
  | (applied) sv' cmd where "r = Some sv'" "sv_ok sv'" "core sv' = core_apply (timed now cmd) (core sv)"
      "sv_wal sv' = map_option (\<lambda>w. w @ [with_rev (sv_currentRev sv) (timed now cmd)]) (sv_wal sv)"
      "c_Type cmd \<noteq> CmdGet" "sv_persistenceErr sv' = None" "sv_persistenceErr sv = None" "\<not> sv_blocked sv"
      "commandFromValue (m_Command msg) = Some cmd"
      "sv_blocked sv' \<longleftrightarrow> c_Type cmd = CmdDeletePrefix \<or> c_Type cmd = CmdGetPrefix"
proof (cases "\<exists>cmd. commandFromValue (m_Command msg) = Some cmd \<and> m_CommandValid msg \<and>
    m_Command msg \<noteq> Barrier \<and> \<not> sv_blocked sv")
  case True
  then obtain cmd where c: "commandFromValue (m_Command msg) = Some cmd" and nb: "\<not> sv_blocked sv"
    and ap: "apply_cmd now wr (m_CommandIndex msg) cmd sv = r"
    using st by (auto simp: applyLoop_step_def)
  show thesis using ok nb ap
    by (cases rule: apply_cmd_cases) (use nb c in \<open>auto intro: failed get applied\<close>)
next
  case False
  then show thesis using idle st by (auto simp: applyLoop_step_def split: option.splits if_splits)
qed

lemma applyLoop_induct [consumes 2, case_names init step]:
  assumes "applyLoop ms sv = Some sv'" and "sv_ok sv" and "P sv"
    and "\<And>now wr msg s s'. sv_ok s \<Longrightarrow> sv_ok s' \<Longrightarrow> P s \<Longrightarrow> applyLoop_step now wr msg s = Some s' \<Longrightarrow> P s'"
  shows "P sv'"
  using assms(1-3)
proof (induction ms arbitrary: sv)
  case (Cons m ms)
  obtain now wr msg where m: "m = (now, wr, msg)" by (cases m)
  then obtain s where s: "applyLoop_step now wr msg sv = Some s" "applyLoop ms s = Some sv'"
    using Cons.prems(1) by (auto split: Option.bind_splits)
  moreover have "sv_ok s"
    using Cons.prems(2) s(1) by (cases rule: applyLoop_step_cases) (use Cons.prems(2) in auto)
  ultimately show ?case using Cons.IH assms(4) [OF Cons.prems(2)] Cons.prems(3) by blast
qed simp

lemma applyLoop_ok:
  assumes "sv_ok sv"
  shows "\<exists>sv'. applyLoop ms sv = Some sv' \<and> sv_ok sv'"
  using assms
proof (induction ms arbitrary: sv)
  case (Cons m ms)
  obtain now wr msg where m: "m = (now, wr, msg)" by (cases m)
  obtain s where "applyLoop_step now wr msg sv = Some s" "sv_ok s"
    using Cons.prems refl
    by (cases rule: applyLoop_step_cases [of sv now wr msg]) (use Cons.prems in auto)
  then show ?case using Cons.IH m by simp
qed simp

section \<open>Properties\<close>

text \<open>
  C2: one iteration of \<open>applyLoop\<close> implements the replicated state machine. When the server works
  (no earlier persistence failure, the journal takes the record) and the command is one that the loop
  answers, the iteration does not panic, moves store, leases and revision counter exactly as the
  reference machine does on the command with its expiry time filled in, appends that very command
  with its revision to the journal, answers the index's waiting client with the machine's result,
  leaves the loop running and keeps the invariant.
\<close>

theorem server_apply_refines:
  assumes "sv_ok sv" and "\<not> sv_blocked sv" and "sv_persistenceErr sv = None" and "sv_wal sv = None \<or> wr = None"
    and "c_Type cmd \<noteq> CmdGet" and "c_Type cmd \<noteq> CmdGetPrefix" and "c_Type cmd \<noteq> CmdDeletePrefix"
  shows "\<exists>sv'. apply_cmd now wr idx cmd sv = Some sv' \<and> sv_ok sv' \<and> \<not> sv_blocked sv' \<and>
    core sv' = core_apply (timed now cmd) (core sv) \<and>
    sv_wal sv' = map_option (\<lambda>w. w @ [with_rev (sv_currentRev sv) (timed now cmd)]) (sv_wal sv) \<and>
    sv_replies sv' = sv_replies sv @ (if 0 \<le> idx \<and> idx \<in> set (sv_replyCh sv)
      then [(idx, ReplyText (core_reply (timed now cmd) (core sv)))] else [])"
proof -
  obtain sv' where "apply_cmd now wr idx cmd sv = Some (if c_Type cmd = CmdDeletePrefix \<or> c_Type cmd = CmdGetPrefix
      then sv'\<lparr>sv_blocked := True\<rparr>
      else if sv_blocked sv' then sv' else finish idx (core_reply (timed now cmd) (core sv)) sv')"
    and "core sv' = core_apply (timed now cmd) (core sv)" "sv_ok sv'"
    and "same_rest (sv\<lparr>sv_wal := map_option (\<lambda>w. w @ [with_rev (sv_currentRev sv) (timed now cmd)]) (sv_wal sv)\<rparr>) sv'"
    by (rule apply_cmd_exec [OF assms(1,3,4,5)])
  then show ?thesis using assms(2,6,7) by (simp add: same_rest_def sv_ok_def)
qed

theorem server_apply_refines_witness:
  "\<exists>sv'. apply_cmd 0 None 1 (zero_command\<lparr>c_Type := CmdPut, c_Key := ''a'', c_Value := ''1''\<rparr>)
       ((new_server True)\<lparr>sv_replyCh := [1]\<rparr>) = Some sv' \<and>
     sv_replies sv' = [(1, ReplyText [])] \<and> core sv' = core_apply (zero_command\<lparr>c_Type := CmdPut, c_Key := ''a'', c_Value := ''1''\<rparr>) core_init"
proof -
  let ?cmd = "zero_command\<lparr>c_Type := CmdPut, c_Key := ''a'', c_Value := ''1''\<rparr>"
  let ?sv = "(new_server True)\<lparr>sv_replyCh := [1]\<rparr>"
  have "sv_ok ?sv" using sv_ok_new [of True] by (simp add: sv_ok_def)
  moreover have "core ?sv = core_init" by (simp add: core_def new_server_def core_init_def)
  moreover have "timed 0 ?cmd = ?cmd" by (simp add: timed_def)
  moreover have "core_reply ?cmd core_init = []" by (simp add: core_init_def core_reply.simps)
  ultimately show ?thesis
    using server_apply_refines [of ?sv None ?cmd 0 1] by (auto simp: new_server_def)
qed

text \<open>
  C8: the apply loop never panics and never breaks its data. Whatever the channel delivers (malformed
  values, unknown command types, barriers), whatever the clock and whichever journal writes fail, the
  loop of a new server comes to a defined state: multi-version store, lease heap, watcher table and
  the link between keys and leases are well formed and the server's revision is not behind the store's.
\<close>

theorem server_never_panics: "\<exists>sv. applyLoop ms (new_server w) = Some sv \<and> sv_ok sv"
  by (rule applyLoop_ok [OF sv_ok_new])

lemma locked_reply:
  assumes "sv_ok sv" and "\<not> sv_blocked sv" and "sv_persistenceErr sv = None" and "sv_wal sv = None \<or> wr = None"
    and "c_Type cmd \<in> {CmdGet, CmdGetPrefix, CmdDeletePrefix}"
  shows "\<exists>sv'. apply_cmd now wr idx cmd sv = Some sv' \<and> sv_blocked sv' \<and> sv_replies sv' = sv_replies sv"
proof (cases "c_Type cmd = CmdGet")
  case True
  then show ?thesis using assms(2-4) by (auto simp: apply_cmd_def stamp_eq Let_def exec_cmd_get)
next
  case False
  then obtain sv' where "apply_cmd now wr idx cmd sv = Some (sv'\<lparr>sv_blocked := True\<rparr>)" "sv_replies sv' = sv_replies sv"
    using assms(5) by (rule_tac apply_cmd_exec [OF assms(1,3,4) False, of now idx]) (auto simp: same_rest_def)
  then show ?thesis by simp
qed

lemma applyLoop_blocked: "sv_blocked sv \<Longrightarrow> applyLoop ms sv = Some sv"
  by (induction ms) (auto simp: applyLoop_step_def)

text \<open>
  \<open>CmdGet\<close>, \<open>CmdGetPrefix\<close> and \<open>CmdDeletePrefix\<close> stop the apply loop for good. Their branches
  reply while \<open>s.mu\<close> is still held (and \<open>CmdGet\<close> asks the store for a lock that \<open>Apply\<close> holds), so the
  loop blocks: the client gets no answer and no later message has any effect.
\<close>

theorem server_locked_reply_blocks:
  assumes "sv_ok sv" and "\<not> sv_blocked sv" and "sv_persistenceErr sv = None" and "sv_wal sv = None \<or> wr = None"
    and "c_Type cmd \<in> {CmdGet, CmdGetPrefix, CmdDeletePrefix}"
  shows "\<exists>sv'. apply_cmd now wr idx cmd sv = Some sv' \<and> sv_blocked sv' \<and> sv_replies sv' = sv_replies sv \<and>
    applyLoop ms sv' = Some sv'"
  using locked_reply [OF assms, of now idx] applyLoop_blocked by blast

theorem server_locked_reply_blocks_witness:
  "\<exists>sv'. apply_cmd 0 None 1 (zero_command\<lparr>c_Type := CmdDeletePrefix, c_Prefix := ''a''\<rparr>) (new_server False) = Some sv' \<and>
     sv_blocked sv' \<and> applyLoop [(5, None, \<lparr>m_CommandValid = True, m_Command = ICommand (zero_command\<lparr>c_Type := CmdPut\<rparr>), m_CommandIndex = 2\<rparr>)] sv' = Some sv'"
  using server_locked_reply_blocks [of "new_server False" None "zero_command\<lparr>c_Type := CmdDeletePrefix, c_Prefix := ''a''\<rparr>" 0 1
      "[(5, None, \<lparr>m_CommandValid = True, m_Command = ICommand (zero_command\<lparr>c_Type := CmdPut\<rparr>), m_CommandIndex = 2\<rparr>)]"]
    sv_ok_new [of False] by (auto simp: new_server_def)

text \<open>
  C20: a lease revocation that still applies (unconditional, or carrying the expiry time the lease
  has) deletes the keys attached to the lease, no other key, and the lease itself, no other lease;
  each deleted key takes one revision.
\<close>

theorem server_revoke_deletes:
  assumes "sv_ok sv" and "\<not> sv_blocked sv" and "sv_persistenceErr sv = None" and "sv_wal sv = None \<or> wr = None"
    and "c_Type cmd = CmdLeaseRevoke" and "lease_view (sv_leaseMgr sv) (c_LeaseID cmd) = Some (ttl, e, ks)"
    and "c_ExpireAt cmd \<le> 0 \<or> c_ExpireAt cmd = e"
  shows "\<exists>sv'. apply_cmd now wr idx cmd sv = Some sv' \<and>
    kv_abs (sv_store sv') = (\<lambda>k. if k \<in> dom ks then None else kv_abs (sv_store sv) k) \<and>
    lease_view (sv_leaseMgr sv') = (lease_view (sv_leaseMgr sv))(c_LeaseID cmd := None) \<and>
    sv_currentRev sv' = sv_currentRev sv + int (card (dom ks))"
proof -
  have "c_Type cmd \<noteq> CmdGet" using assms(5) by simp
  then obtain sv' where ap: "apply_cmd now wr idx cmd sv = Some (if c_Type cmd = CmdDeletePrefix \<or> c_Type cmd = CmdGetPrefix
      then sv'\<lparr>sv_blocked := True\<rparr>
      else if sv_blocked sv' then sv' else finish idx (core_reply (timed now cmd) (core sv)) sv')"
    and core: "core sv' = core_apply (timed now cmd) (core sv)"
    by (rule apply_cmd_exec [OF assms(1,3,4)])
  define s where "s = (if sv_blocked sv' then sv' else finish idx (core_reply (timed now cmd) (core sv)) sv')"
  have "apply_cmd now wr idx cmd sv = Some s" using ap assms(5) by (simp add: s_def)
  moreover have "timed now cmd = cmd" using assms(5) by (simp add: timed_def)
  then have step: "core_apply cmd (sv_store sv, sv_leaseMgr sv, sv_currentRev sv) =
      (sv_store s, sv_leaseMgr s, sv_currentRev s)"
    using core by (simp add: s_def flip: core_def)
  have "core_ok (sv_store sv, sv_leaseMgr sv, sv_currentRev sv)"
    using assms(1) by (simp add: sv_ok_def core_def)
  note eff = core_revoke_effect [OF this assms(5-7) step]
  ultimately show ?thesis by (intro exI [of _ s]) (auto simp: eff(2,3) intro: eff(1))
qed

theorem server_revoke_deletes_witness:
  "\<exists>sv sv'. applyLoop
      [(0, None, \<lparr>m_CommandValid = True, m_Command = ICommand (zero_command\<lparr>c_Type := CmdLeaseGrant, c_TTL := 5\<rparr>), m_CommandIndex = 1\<rparr>),
       (0, None, \<lparr>m_CommandValid = True, m_Command = ICommand (zero_command\<lparr>c_Type := CmdPut, c_Key := ''a'', c_Value := ''1'', c_LeaseID := 1\<rparr>), m_CommandIndex = 2\<rparr>)]
      (new_server False) = Some sv \<and>
    apply_cmd 0 None 3 (zero_command\<lparr>c_Type := CmdLeaseRevoke, c_LeaseID := 1\<rparr>) sv = Some sv' \<and>
    kv_abs (sv_store sv) ''a'' = Some (''1'', 1) \<and> kv_abs (sv_store sv') ''a'' = None \<and>
    lease_view (sv_leaseMgr sv') 1 = None \<and> sv_currentRev sv' = sv_currentRev sv + 1"
proof -
  let ?run = "applyLoop
      [(0, None, \<lparr>m_CommandValid = True, m_Command = ICommand (zero_command\<lparr>c_Type := CmdLeaseGrant, c_TTL := 5\<rparr>), m_CommandIndex = 1\<rparr>),
       (0, None, \<lparr>m_CommandValid = True, m_Command = ICommand (zero_command\<lparr>c_Type := CmdPut, c_Key := ''a'', c_Value := ''1'', c_LeaseID := 1\<rparr>), m_CommandIndex = 2\<rparr>)]
      (new_server False)"
  define sv where "sv = the ?run"
  let ?cmd = "zero_command\<lparr>c_Type := CmdLeaseRevoke, c_LeaseID := 1\<rparr>"
  have run: "?run = Some sv" unfolding sv_def by code_simp
  have "sv_ok sv" using applyLoop_ok [OF sv_ok_new] run by (metis option.inject)
  moreover have "\<not> sv_blocked sv" "sv_persistenceErr sv = None" "sv_wal sv = None"
    unfolding sv_def by code_simp+
  moreover have "map_of (lm_leases (sv_leaseMgr sv)) 1 =
      Some \<lparr>l_ID = 1, l_TTL = 5, l_expireAt = 5000000000, l_Keys = [(''a'', ''1'')]\<rparr>"
    unfolding sv_def by code_simp
  then have "lease_view (sv_leaseMgr sv) 1 = Some (5, 5000000000, [''a'' \<mapsto> ''1''])" by (simp add: lease_view_def)
  moreover have abs: "kv_abs (sv_store sv) ''a'' = Some (''1'', 1)" unfolding sv_def by code_simp
  ultimately have "\<exists>sv'. apply_cmd 0 None 3 ?cmd sv = Some sv' \<and> kv_abs (sv_store sv') ''a'' = None \<and>
      lease_view (sv_leaseMgr sv') 1 = None \<and> sv_currentRev sv' = sv_currentRev sv + 1"
    using server_revoke_deletes [of sv None ?cmd 5 5000000000 "[''a'' \<mapsto> ''1'']" 0 3] by (auto simp: zero_command_def)
  with run abs show ?thesis by blast
qed

text \<open>
  C19: the two tables that record who owns a key agree, however the server got where it is. In every
  state the apply loop of a new server reaches, a key attached to a lease is attached to that lease
  only, and the store's own table names the same lease.
\<close>

theorem server_key_owner:
  assumes "applyLoop ms (new_server w) = Some sv"
    and "lease_view (sv_leaseMgr sv) a = Some (ttl, e, ks)" and "ks k = Some v"
  shows "GetKeyLease (sv_store sv) k = a \<and>
    (\<forall>b ttl' e' ks'. lease_view (sv_leaseMgr sv) b = Some (ttl', e', ks') \<and> k \<in> dom ks' \<longrightarrow> b = a)"
proof -
  have "sv_ok sv" using applyLoop_ok [OF sv_ok_new] assms(1) by (metis option.inject)
  then have lk: "linked (sv_store sv) (sv_leaseMgr sv)" by (simp add: sv_ok_def core_def)
  have "map_of (kv_key2Lease (sv_store sv)) k = Some a" by (rule linkedD [OF lk assms(2,3)])
  moreover have "b = a" if "lease_view (sv_leaseMgr sv) b = Some (ttl', e', ks')" "k \<in> dom ks'" for b ttl' e' ks'
    using linkedD [OF lk that(1)] that(2) calculation by auto
  ultimately show ?thesis by (auto simp: GetKeyLease_def gomap_get_def)
qed

theorem server_key_owner_witness:
  "\<exists>sv. applyLoop
      [(0, None, \<lparr>m_CommandValid = True, m_Command = ICommand (zero_command\<lparr>c_Type := CmdLeaseGrant, c_TTL := 5\<rparr>), m_CommandIndex = 1\<rparr>),
       (0, None, \<lparr>m_CommandValid = True, m_Command = ICommand (zero_command\<lparr>c_Type := CmdLeaseAttach, c_Key := ''a'', c_LeaseID := 1\<rparr>), m_CommandIndex = 2\<rparr>)]
      (new_server False) = Some sv \<and> GetKeyLease (sv_store sv) ''a'' = 1"
proof -
  let ?ms = "[(0, None, \<lparr>m_CommandValid = True, m_Command = ICommand (zero_command\<lparr>c_Type := CmdLeaseGrant, c_TTL := 5\<rparr>), m_CommandIndex = 1\<rparr>),
       (0, None, \<lparr>m_CommandValid = True, m_Command = ICommand (zero_command\<lparr>c_Type := CmdLeaseAttach, c_Key := ''a'', c_LeaseID := 1\<rparr>), m_CommandIndex = 2\<rparr>)]"
  define sv where "sv = the (applyLoop ?ms (new_server False))"
  have run: "applyLoop ?ms (new_server False) = Some sv" unfolding sv_def by code_simp
  have "map_of (lm_leases (sv_leaseMgr sv)) 1 =
      Some \<lparr>l_ID = 1, l_TTL = 5, l_expireAt = 5000000000, l_Keys = [(''a'', [])]\<rparr>"
    unfolding sv_def by code_simp
  then have "lease_view (sv_leaseMgr sv) 1 = Some (5, 5000000000, [''a'' \<mapsto> []])" by (simp add: lease_view_def)
  from server_key_owner [OF run this, of "''a''" "[]"] run show ?thesis by auto
qed

text \<open>
  C21: history is immutable for the whole server. However many further messages the loop takes, what
  a reader sees at a revision that the store had reached stays what it was.
\<close>

theorem server_history_immutable:
  assumes "sv_ok sv" and "applyLoop ms sv = Some sv'" and "0 < n" and "n \<le> GetCurrentRevision (sv_store sv)"
  shows "GetAtRevision Unlocked (sv_store sv') key n = GetAtRevision Unlocked (sv_store sv) key n"
proof -
  let ?P = "\<lambda>s. kv_currentRev (sv_store sv) \<le> kv_currentRev (sv_store s) \<and>
    version_at (sv_store s) key n = version_at (sv_store sv) key n"
  from assms(2,1) have "?P sv'"
  proof (induction rule: applyLoop_induct)
    case (step now wr msg s s')
    from step(1,3) show ?case
    proof (cases rule: applyLoop_step_cases)
      case (applied s1 cmd)
      have ok: "core_ok (sv_store s, sv_leaseMgr s, sv_currentRev s)"
        using step(1) by (simp add: sv_ok_def core_def)
      have st: "core_apply (timed now cmd) (sv_store s, sv_leaseMgr s, sv_currentRev s) =
          (sv_store s', sv_leaseMgr s', sv_currentRev s')"
        using applied(1,3) by (simp add: core_def)
      have "n \<le> kv_currentRev (sv_store s)" using step(4) assms(4) by (simp add: GetCurrentRevision_def)
      then show ?thesis using core_apply_history(1) [OF ok st] core_apply_history(2) [OF ok st] step(4) by simp
    qed (use step(4) in \<open>auto simp: core_def\<close>)
  qed simp
  then show ?thesis using assms(3) by (simp add: GetAtRevision_read)
qed

theorem server_history_immutable_witness:
  "\<exists>sv sv'. applyLoop
      [(0, None, \<lparr>m_CommandValid = True, m_Command = ICommand (zero_command\<lparr>c_Type := CmdPut, c_Key := ''a'', c_Value := ''1''\<rparr>), m_CommandIndex = 1\<rparr>)]
      (new_server False) = Some sv \<and>
    applyLoop
      [(0, None, \<lparr>m_CommandValid = True, m_Command = ICommand (zero_command\<lparr>c_Type := CmdDelete, c_Key := ''a''\<rparr>), m_CommandIndex = 2\<rparr>)] sv = Some sv' \<and>
    GetAtRevision Unlocked (sv_store sv') ''a'' 0 = Ret ([], 2) \<and>
    GetAtRevision Unlocked (sv_store sv') ''a'' 1 = Ret (''1'', 1)"
proof -
  let ?put = "[(0, None, \<lparr>m_CommandValid = True, m_Command = ICommand (zero_command\<lparr>c_Type := CmdPut, c_Key := ''a'', c_Value := ''1''\<rparr>), m_CommandIndex = 1\<rparr>)]"
  let ?del = "[(0, None, \<lparr>m_CommandValid = True, m_Command = ICommand (zero_command\<lparr>c_Type := CmdDelete, c_Key := ''a''\<rparr>), m_CommandIndex = 2\<rparr>)]"
  define sv where "sv = the (applyLoop ?put (new_server False))"
  define sv' where "sv' = the (applyLoop ?del sv)"
  have run: "applyLoop ?put (new_server False) = Some sv" unfolding sv_def by code_simp
  have run': "applyLoop ?del sv = Some sv'" unfolding sv'_def sv_def by code_simp
  have ok: "sv_ok sv" using applyLoop_ok [OF sv_ok_new] run by (metis option.inject)
  have cur: "GetCurrentRevision (sv_store sv) = 1" and old: "GetAtRevision Unlocked (sv_store sv) ''a'' 1 = Ret (''1'', 1)"
    unfolding sv_def by code_simp+
  have new: "GetAtRevision Unlocked (sv_store sv') ''a'' 0 = Ret ([], 2)" unfolding sv'_def sv_def by code_simp
  have "GetAtRevision Unlocked (sv_store sv') ''a'' 1 = GetAtRevision Unlocked (sv_store sv) ''a'' 1"
    using server_history_immutable [OF ok run', of 1 "''a''"] cur by simp
  with run run' old new show ?thesis by auto
qed

end
