(* ===== verification/Base64.thy ===== *)
theory Base64
  imports Json
begin

text \<open>
  The standard base64 encoding (\<open>encoding/base64.StdEncoding\<close>), in which \<open>encoding/json\<close> writes a
  byte slice and in which \<open>storage.Snapshot\<close> reads it back.
\<close>

definition b64_char :: "nat \<Rightarrow> char" where
  "b64_char d =
     (if d < 26 then chr (65 + d) else if d < 52 then chr (71 + d) else if d < 62 then chr (d - 4)
      else if d = 62 then chr 43 else chr 47)"

definition b64_value :: "char \<Rightarrow> nat option" where
  "b64_value c =
     (let b = byte c
      in if 65 \<le> b \<and> b \<le> 90 then Some (b - 65)
         else if 97 \<le> b \<and> b \<le> 122 then Some (b - 71)
         else if 48 \<le> b \<and> b \<le> 57 then Some (b + 4)
         else if b = 43 then Some 62 else if b = 47 then Some 63 else None)"

fun b64_encode :: "string \<Rightarrow> string" where
  "b64_encode [] = []"
| "b64_encode [a] =
     [b64_char (byte a div 4), b64_char (byte a mod 4 * 16), CHR ''='', CHR ''='']"
| "b64_encode [a, b] =
     [b64_char (byte a div 4), b64_char (byte a mod 4 * 16 + byte b div 16),
      b64_char (byte b mod 16 * 4), CHR ''='']"
| "b64_encode (a # b # c # r) =
     b64_char (byte a div 4) # b64_char (byte a mod 4 * 16 + byte b div 16) #
     b64_char (byte b mod 16 * 4 + byte c div 64) # b64_char (byte c mod 64) # b64_encode r"

fun b64_quanta :: "string \<Rightarrow> string option" where
  \<comment> \<open>the decoder without line breaks: whole groups of four, padding only at the end\<close>
  "b64_quanta [] = Some []"
| "b64_quanta (p # q # r # s # rest) =
     (case (b64_value p, b64_value q) of
        (Some w, Some x) \<Rightarrow>
          (if r = CHR ''='' then
             (if s = CHR ''='' \<and> rest = [] then Some [chr (w * 4 + x div 16)] else None)
           else case b64_value r of
             None \<Rightarrow> None
           | Some y \<Rightarrow>
               (if s = CHR ''='' then
                  (if rest = [] then Some [chr (w * 4 + x div 16), chr (x mod 16 * 16 + y div 4)] else None)
                else case b64_value s of
                  None \<Rightarrow> None
                | Some z \<Rightarrow>
                    map_option (\<lambda>t. chr (w * 4 + x div 16) # chr (x mod 16 * 16 + y div 4) # chr (y mod 4 * 64 + z) # t)
                      (b64_quanta rest)))
      | _ \<Rightarrow> None)"
| "b64_quanta _ = None"

definition b64_decode :: "string \<Rightarrow> string option" where
  \<comment> \<open>\<open>DecodeString\<close>, which skips carriage returns and newlines\<close>
  "b64_decode s = b64_quanta (filter (\<lambda>c. c \<noteq> CHR 0x0A \<and> c \<noteq> CHR 0x0D) s)"

lemma b64_value_char [simp]: "d < 64 \<Longrightarrow> b64_value (b64_char d) = Some d"
proof -
  assume d: "d < 64"
  consider "d < 26" | "26 \<le> d" "d < 52" | "52 \<le> d" "d < 62" | "d = 62" | "d = 63" using d by linarith
  then show ?thesis by cases (auto simp: b64_value_def b64_char_def Let_def)
qed

lemma b64_char_plain:
  assumes "d < 64"
  shows "b64_char d \<noteq> CHR ''=''" and "b64_char d \<noteq> CHR 0x0A" and "b64_char d \<noteq> CHR 0x0D" and "byte (b64_char d) < 128"
proof -
  have v: "b64_value (b64_char d) = Some d" using assms by simp
  show "b64_char d \<noteq> CHR ''=''" "b64_char d \<noteq> CHR 0x0A" "b64_char d \<noteq> CHR 0x0D"
    using v by (auto simp: b64_value_def Let_def byte_def)
  show "byte (b64_char d) < 128" using assms by (auto simp: b64_char_def)
qed

lemma sextets:
  fixes a b c :: nat
  assumes "a < 256" and "b < 256" and "c < 256"
  shows "a div 4 < 64" "a mod 4 * 16 + b div 16 < 64" "b mod 16 * 4 + c div 64 < 64" "c mod 64 < 64"
    "a mod 4 * 16 < 64" "b mod 16 * 4 < 64"
    "a div 4 * 4 + (a mod 4 * 16 + b div 16) div 16 = a"
    "(a mod 4 * 16 + b div 16) mod 16 * 16 + (b mod 16 * 4 + c div 64) div 4 = b"
    "(b mod 16 * 4 + c div 64) mod 4 * 64 + c mod 64 = c"
    "a div 4 * 4 + a mod 4 * 16 div 16 = a"
    "(a mod 4 * 16 + b div 16) mod 16 * 16 + b mod 16 * 4 div 4 = b"
proof -
  have "b div 16 < 16" "c div 64 < 4" "a div 4 < 64" using assms by (simp_all add: less_mult_imp_div_less)
  then show "a div 4 < 64" "a mod 4 * 16 + b div 16 < 64" "b mod 16 * 4 + c div 64 < 64" "c mod 64 < 64"
    "a mod 4 * 16 < 64" "b mod 16 * 4 < 64"
    "a div 4 * 4 + (a mod 4 * 16 + b div 16) div 16 = a"
    "(a mod 4 * 16 + b div 16) mod 16 * 16 + (b mod 16 * 4 + c div 64) div 4 = b"
    "(b mod 16 * 4 + c div 64) mod 4 * 64 + c mod 64 = c"
    "a div 4 * 4 + a mod 4 * 16 div 16 = a"
    "(a mod 4 * 16 + b div 16) mod 16 * 16 + b mod 16 * 4 div 4 = b"
    using mod_less_divisor [of 4 a] mod_less_divisor [of 16 b]
    by (simp_all add: div_mult_mod_eq)
qed

lemma b64_quanta_group:
  assumes "w < 64" and "x < 64"
  shows "b64_quanta [b64_char w, b64_char x, CHR ''='', CHR ''=''] = Some [chr (w * 4 + x div 16)]"
    and "y < 64 \<Longrightarrow> b64_quanta [b64_char w, b64_char x, b64_char y, CHR ''=''] =
      Some [chr (w * 4 + x div 16), chr (x mod 16 * 16 + y div 4)]"
    and "y < 64 \<Longrightarrow> z < 64 \<Longrightarrow> b64_quanta (b64_char w # b64_char x # b64_char y # b64_char z # rest) =
      map_option (\<lambda>t. chr (w * 4 + x div 16) # chr (x mod 16 * 16 + y div 4) # chr (y mod 4 * 64 + z) # t) (b64_quanta rest)"
  using assms by (simp_all add: b64_char_plain)

lemma b64_quanta_encode: "b64_quanta (b64_encode s) = Some s"
proof (induction s rule: b64_encode.induct)
  case (2 a)
  note sx = sextets [of "byte a" 0 0]
  show ?case unfolding b64_encode.simps
    by (subst b64_quanta_group(1)) (simp_all only: sx byte_less chr_byte zero_less_numeral)
next
  case (3 a b)
  note sx = sextets [of "byte a" "byte b" 0]
  show ?case unfolding b64_encode.simps
    by (subst b64_quanta_group(2)) (simp_all only: sx byte_less chr_byte zero_less_numeral)
next
  case (4 a b c r)
  note sx = sextets [of "byte a" "byte b" "byte c"]
  show ?case unfolding b64_encode.simps
    by (subst b64_quanta_group(3)) (simp_all only: sx byte_less chr_byte 4 option.map)
qed simp

lemma b64_encode_plain:
  "c \<in> set (b64_encode s) \<Longrightarrow> c \<noteq> CHR 0x0A \<and> c \<noteq> CHR 0x0D \<and> byte c < 128"
proof (induction s rule: b64_encode.induct)
  case (2 a)
  note sx = sextets(1,5) [of "byte a" 0 0]
  from 2 show ?case by (auto simp: b64_char_plain sx) (simp add: byte_def)
next
  case (3 a b)
  note sx = sextets(1,2,6) [of "byte a" "byte b" 0]
  from 3 show ?case by (auto simp: b64_char_plain sx) (simp add: byte_def)
next
  case (4 a b c r)
  note sx = sextets(1-4) [of "byte a" "byte b" "byte c"]
  from 4 show ?case by (auto simp: b64_char_plain sx)
qed simp

lemma b64_roundtrip: "b64_decode (b64_encode s) = Some s"
proof -
  have "filter (\<lambda>c. c \<noteq> CHR 0x0A \<and> c \<noteq> CHR 0x0D) (b64_encode s) = b64_encode s"
    using b64_encode_plain by (intro filter_True) blast
  then show ?thesis by (simp add: b64_decode_def b64_quanta_encode)
qed

end
