(* ===== verification/Storage.thy ===== *)
theory Storage
  imports Base64 Kv_Store
begin

text \<open>
  \<open>storage/wal.go\<close>: the journal (one JSON record per line, appended and synced) and the snapshot file
  (one JSON document that replaces the previous one atomically). A file is its bytes and its identity;
  a failing system call is an argument of the operation that makes it (the calls that only read, such
  as \<open>Seek\<close>, \<open>Read\<close> and \<open>Stat\<close>, are taken to succeed where the operation changes nothing).
\<close>

section \<open>Files\<close>

datatype io_error = ErrClosed | OsError string | OffsetOutside | OffsetNotBoundary | JsonError
  | NoObject | TrailingValue | BadField string

record disk_file =
  f_data :: string
  f_id :: string    \<comment> \<open>device and inode, as \<open>FileID\<close> prints them\<close>

abbreviation newline :: char where "newline \<equiv> CHR 0x0A"

fun split_on :: "char \<Rightarrow> string \<Rightarrow> string list" where
  \<comment> \<open>\<open>strings.Split\<close> by a one-byte separator\<close>
  "split_on c [] = [[]]"
| "split_on c (x # xs) =
     (if x = c then [] # split_on c xs
      else case split_on c xs of l # ls \<Rightarrow> (x # l) # ls | [] \<Rightarrow> [[x]])"

definition up_to_last :: "char \<Rightarrow> string \<Rightarrow> string option" where
  \<comment> \<open>the bytes up to and including the last \<open>c\<close> (\<open>strings.LastIndexByte\<close>)\<close>
  "up_to_last c s = (if c \<in> set s then Some (rev (dropWhile (\<lambda>x. x \<noteq> c) (rev s))) else None)"

section \<open>The journal\<close>

type_synonym wal = "disk_file option"   \<comment> \<open>\<open>None\<close>: closed\<close>

datatype write_fault = NoFault | ShortWrite nat string | SyncFault string

definition NewWAL :: "disk_file option \<Rightarrow> string \<Rightarrow> string option \<Rightarrow> string option \<Rightarrow> io_error + wal" where
  \<comment> \<open>the file on disk if there is one, the identity a new file would get, and the errors of
      \<open>OpenFile\<close> and of syncing the directory\<close>
  "NewWAL existing fresh open_err sync_err =
     (case open_err of
        Some e \<Rightarrow> Inl (OsError e)
      | None \<Rightarrow>
          (case sync_err of
             Some e \<Rightarrow> Inl (OsError e)
           | None \<Rightarrow> Inr (Some (case existing of Some f \<Rightarrow> f | None \<Rightarrow> \<lparr>f_data = [], f_id = fresh\<rparr>))))"

definition Write :: "wal \<Rightarrow> string \<Rightarrow> write_fault \<Rightarrow> wal \<times> io_error option" where
  "Write w data fault =
     (case w of
        None \<Rightarrow> (w, Some ErrClosed)
      | Some f \<Rightarrow>
          (case fault of
             ShortWrite n e \<Rightarrow> (Some (f\<lparr>f_data := f_data f @ take n data\<rparr>), Some (OsError e))
           | SyncFault e \<Rightarrow> (Some (f\<lparr>f_data := f_data f @ data\<rparr>), Some (OsError e))
           | NoFault \<Rightarrow> (Some (f\<lparr>f_data := f_data f @ data\<rparr>), None)))"

definition int_of_command_type :: "command_type \<Rightarrow> int" where
  "int_of_command_type ty =
     (case ty of
        CmdPut \<Rightarrow> 0 | CmdGet \<Rightarrow> 1 | CmdDelete \<Rightarrow> 2 | CmdLeaseGrant \<Rightarrow> 3 | CmdLeaseRevoke \<Rightarrow> 4
      | CmdLeaseAttach \<Rightarrow> 5 | CmdLeaseKeepAlive \<Rightarrow> 6 | CmdCAS \<Rightarrow> 7 | CmdDeletePrefix \<Rightarrow> 8
      | CmdGetPrefix \<Rightarrow> 9 | CmdOther n \<Rightarrow> n)"

definition marshal_command :: "command \<Rightarrow> string" where
  \<comment> \<open>\<open>json.Marshal\<close> of a \<open>kv.Command\<close>: the fields in the order of the struct\<close>
  "marshal_command cmd =
     marshal_struct
       [(''Type'', itoa (int_of_command_type (c_Type cmd))), (''Key'', quote (c_Key cmd)),
        (''Value'', quote (c_Value cmd)), (''LeaseID'', itoa (c_LeaseID cmd)), (''TTL'', itoa (c_TTL cmd)),
        (''ExpireAt'', itoa (c_ExpireAt cmd)), (''Revision'', itoa (c_Revision cmd)),
        (''Tombstone'', marshal_bool (c_Tombstone cmd)), (''ExpectedRev'', itoa (c_ExpectedRev cmd)),
        (''Prefix'', quote (c_Prefix cmd))]"

definition wal_record :: "command \<Rightarrow> string" where
  "wal_record cmd = marshal_command cmd @ [newline]"

definition WriteEntry :: "wal \<Rightarrow> command \<Rightarrow> write_fault \<Rightarrow> wal \<times> io_error option" where
  "WriteEntry w cmd fault = Write w (wal_record cmd) fault"

definition Close_wal :: "wal \<Rightarrow> string option \<Rightarrow> wal \<times> io_error option" where
  "Close_wal w close_err =
     (case w of None \<Rightarrow> (None, None) | Some _ \<Rightarrow> (None, map_option OsError close_err))"

definition ReadAll :: "wal \<Rightarrow> io_error + string" where
  "ReadAll w = (case w of None \<Rightarrow> Inl ErrClosed | Some f \<Rightarrow> Inr (f_data f))"

fun decode_lines :: "string list \<Rightarrow> io_error + jval list" where
  "decode_lines [] = Inr []"
| "decode_lines (line # lines) =
     (if line = [] then decode_lines lines
      else case unmarshal line of
             None \<Rightarrow> Inl JsonError
           | Some entry \<Rightarrow>
               (case decode_lines lines of Inl e \<Rightarrow> Inl e | Inr entries \<Rightarrow> Inr (entry # entries)))"

definition decodeEntries :: "string \<Rightarrow> io_error + jval list" where
  "decodeEntries data =
     (if data \<noteq> [] \<and> last data \<noteq> newline
      then (case up_to_last newline data of
              Some data' \<Rightarrow> decode_lines (split_on newline data')
            | None \<Rightarrow> Inr [])
      else decode_lines (split_on newline data))"

definition ReadEntries :: "wal \<Rightarrow> io_error + jval list" where
  "ReadEntries w = (case ReadAll w of Inl e \<Rightarrow> Inl e | Inr data \<Rightarrow> decodeEntries data)"

definition ReadEntriesFrom :: "wal \<Rightarrow> int \<Rightarrow> io_error + jval list" where
  "ReadEntriesFrom w offset =
     (case ReadAll w of
        Inl e \<Rightarrow> Inl e
      | Inr data \<Rightarrow>
          (if offset < 0 \<or> offset > int (length data) then Inl OffsetOutside
           else if offset > 0 \<and> data ! nat (offset - 1) \<noteq> newline then Inl OffsetNotBoundary
           else decodeEntries (drop (nat offset) data)))"

text \<open>
  \<open>Clear\<close> replaces the file by an empty one with a new identity. Its system calls in order: creating,
  syncing and closing the temporary file, renaming it, opening it, closing the old file, syncing the
  directory.
\<close>

record clear_faults =
  cf_prepare :: "string option"   \<comment> \<open>\<open>CreateTemp\<close>, \<open>Sync\<close>, \<open>Close\<close> or \<open>Rename\<close>: the old file stays\<close>
  cf_open :: "string option"
  cf_close :: "string option"
  cf_dir :: "string option"

definition Clear_wal :: "wal \<Rightarrow> string \<Rightarrow> clear_faults \<Rightarrow> wal \<times> io_error option" where
  "Clear_wal w fresh cf =
     (case w of
        None \<Rightarrow> (w, Some ErrClosed)
      | Some f \<Rightarrow>
          (case cf_prepare cf of
             Some e \<Rightarrow> (w, Some (OsError e))
           | None \<Rightarrow>
               (case cf_open cf of
                  Some e \<Rightarrow> (None, Some (OsError e))
                | None \<Rightarrow>
                    (Some \<lparr>f_data = [], f_id = fresh\<rparr>,
                     case cf_close cf of Some e \<Rightarrow> Some (OsError e) | None \<Rightarrow> map_option OsError (cf_dir cf)))))"

definition join_lines :: "string list \<Rightarrow> string" where
  "join_lines ls = intercalate [newline] ls"

record truncate_faults =
  tf_read :: "string option"            \<comment> \<open>\<open>Seek\<close> or \<open>ReadAll\<close>\<close>
  tf_truncate :: "string option"        \<comment> \<open>the first \<open>Truncate(0)\<close>\<close>
  tf_write :: "(nat \<times> string) option"   \<comment> \<open>the second \<open>Seek\<close> or \<open>Write\<close>, after so many bytes\<close>
  tf_sync :: "string option"            \<comment> \<open>the second \<open>Truncate\<close> or \<open>Sync\<close>\<close>

definition Truncate :: "wal \<Rightarrow> int \<Rightarrow> truncate_faults \<Rightarrow> wal \<times> io_error option" where
  "Truncate w index tf =
     (case w of
        None \<Rightarrow> (w, Some ErrClosed)
      | Some f \<Rightarrow>
          (if index \<le> 0 then (w, None)
           else if tf_read tf \<noteq> None then (w, map_option OsError (tf_read tf))
           else (let lines0 = split_on newline (f_data f);
                     lines = (if lines0 \<noteq> [] \<and> last lines0 = [] then butlast lines0 else lines0);
                     remaining = join_lines (drop (nat index) lines) @ [newline]
                 in if tf_truncate tf \<noteq> None then (w, map_option OsError (tf_truncate tf))
                    else if index \<ge> int (length lines) then (Some (f\<lparr>f_data := []\<rparr>), map_option OsError (tf_sync tf))
                    else case tf_write tf of
                      Some (n, e) \<Rightarrow> (Some (f\<lparr>f_data := take n remaining\<rparr>), Some (OsError e))
                    | None \<Rightarrow> (Some (f\<lparr>f_data := remaining\<rparr>), map_option OsError (tf_sync tf)))))"

definition Size_wal :: "wal \<Rightarrow> io_error + int" where
  "Size_wal w = (case w of None \<Rightarrow> Inl ErrClosed | Some f \<Rightarrow> Inr (int (length (f_data f))))"

definition FileID :: "wal \<Rightarrow> io_error + string" where
  "FileID w = (case w of None \<Rightarrow> Inl ErrClosed | Some f \<Rightarrow> Inr (f_id f))"

section \<open>Records and lines\<close>

definition json_ok :: "command \<Rightarrow> bool" where
  \<comment> \<open>a command as the program has them: strings of valid UTF-8, integers of 64 bits\<close>
  "json_ok cmd \<longleftrightarrow>
     valid_utf8 (c_Key cmd) \<and> valid_utf8 (c_Value cmd) \<and> valid_utf8 (c_Prefix cmd) \<and>
     (\<forall>i \<in> {int_of_command_type (c_Type cmd), c_LeaseID cmd, c_TTL cmd, c_ExpireAt cmd, c_Revision cmd, c_ExpectedRev cmd}.
        \<bar>i\<bar> \<le> 2 ^ 63)"

definition json_of_command :: "command \<Rightarrow> jval" where
  "json_of_command cmd =
     JObj [(''Type'', JFloat (through_float (int_of_command_type (c_Type cmd)))), (''Key'', JStr (c_Key cmd)),
        (''Value'', JStr (c_Value cmd)), (''LeaseID'', JFloat (through_float (c_LeaseID cmd))),
        (''TTL'', JFloat (through_float (c_TTL cmd))), (''ExpireAt'', JFloat (through_float (c_ExpireAt cmd))),
        (''Revision'', JFloat (through_float (c_Revision cmd))), (''Tombstone'', JBool (c_Tombstone cmd)),
        (''ExpectedRev'', JFloat (through_float (c_ExpectedRev cmd))), (''Prefix'', JStr (c_Prefix cmd))]"

lemma valid_utf8_ascii: "\<forall>c \<in> set s. byte c < 128 \<Longrightarrow> valid_utf8 s"
  by (induction s) (auto simp: valid_utf8.simps utf8_size_ascii)

lemma unmarshal_command:
  assumes "json_ok cmd"
  shows "unmarshal (marshal_command cmd) = Some (json_of_command cmd)"
proof -
  note json = reads_as_int [OF order_trans [of _ "2 ^ 63"]] reads_as_string reads_as_bool
  have "unmarshal (marshal_command cmd) = Some (JObj (fold (\<lambda>(k, v). AList.update k v)
      [(''Type'', JFloat (through_float (int_of_command_type (c_Type cmd)))), (''Key'', JStr (c_Key cmd)),
        (''Value'', JStr (c_Value cmd)), (''LeaseID'', JFloat (through_float (c_LeaseID cmd))),
        (''TTL'', JFloat (through_float (c_TTL cmd))), (''ExpireAt'', JFloat (through_float (c_ExpireAt cmd))),
        (''Revision'', JFloat (through_float (c_Revision cmd))), (''Tombstone'', JBool (c_Tombstone cmd)),
        (''ExpectedRev'', JFloat (through_float (c_ExpectedRev cmd))), (''Prefix'', JStr (c_Prefix cmd))] []))"
    unfolding marshal_command_def
    by (rule unmarshal_struct)
      (use assms in \<open>simp_all add: json_ok_def json\<close>, simp_all add: valid_utf8_ascii byte_def)
  then show ?thesis by (simp add: json_of_command_def)
qed

lemma hex_digit_not_newline: "d < 16 \<Longrightarrow> hex_digit d \<noteq> newline"
  by (simp add: hex_digit_def byte_eq_iff) (simp add: byte_def)

lemma byte_newline: "byte newline = 10"
  by (simp add: byte_def)

lemma utf8_bytes_high:
  "utf8_size (c # r) = Suc n \<Longrightarrow> 128 \<le> byte c \<Longrightarrow> x \<in> set (take (Suc n) (c # r)) \<Longrightarrow> 128 \<le> byte x"
  by (auto simp: utf8_size.simps Let_def cont_def second_ok_def split: if_splits list.splits)

lemma escape_ascii_no_newline: "newline \<notin> set (escape_ascii c)"
proof (cases "byte c < 128")
  case True
  then have "byte c div 16 < 16" by (intro less_mult_imp_div_less) simp
  then show ?thesis using hex_digit_not_newline [of "byte c div 16"] hex_digit_not_newline [of "byte c mod 16"]
    by (auto simp: escape_ascii_def html_safe_def byte_newline)
next
  case False
  have "byte c div 16 < 16" by (rule less_mult_imp_div_less) simp
  then show ?thesis using False hex_digit_not_newline [of "byte c div 16"] hex_digit_not_newline [of "byte c mod 16"]
    by (auto simp: escape_ascii_def html_safe_def byte_newline)
qed

lemma quote_body_no_newline: "newline \<notin> set (quote_body s)"
proof (induction s rule: quote_body.induct)
  case (2 c r)
  show ?case
  proof (cases "byte c < 128")
    case True
    then show ?thesis using 2 by (simp add: quote_body.simps escape_ascii_no_newline)
  next
    case False
    show ?thesis
    proof (cases "utf8_size (c # r)")
      case 0
      then show ?thesis using False 2 by (simp add: quote_body.simps)
    next
      case (Suc n)
      have "newline \<notin> set (take (Suc n) (c # r))"
        using utf8_bytes_high [OF Suc, of newline] False by (auto simp: byte_newline simp del: take_Suc_Cons)
      moreover have "newline \<noteq> hex_digit (byte (r ! Suc 0) mod 16)"
        using hex_digit_not_newline [of "byte (r ! Suc 0) mod 16"] by simp
      ultimately show ?thesis using False 2(3) [OF False Suc] Suc by (simp add: quote_body.simps)
    qed
  qed
qed (simp add: quote_body.simps)

lemma itoa_no_newline: "newline \<notin> set (itoa i)"
  using utoa_digits [of "nat i"] utoa_digits [of "nat (- i)"]
  by (auto simp: itoa_def is_digit_def byte_newline dest: bspec [of _ _ newline])

lemma marshal_command_no_newline: "newline \<notin> set (marshal_command cmd)"
  by (simp add: marshal_command_def marshal_struct_def quote_def quote_body_no_newline itoa_no_newline)
    (cases "c_Tombstone cmd"; simp)

lemma marshal_command_hd: "\<exists>r. marshal_command cmd = CHR ''{'' # quote_ch # r"
  by (simp add: marshal_command_def marshal_struct_def quote_def)

lemma split_on_line: "c \<notin> set l \<Longrightarrow> split_on c (l @ c # rest) = l # split_on c rest"
  by (induction l) auto

lemma split_on_last: "c \<notin> set l \<Longrightarrow> split_on c l = [l]"
  by (induction l) auto

definition journal :: "command list \<Rightarrow> string" where
  "journal cs = concat (map wal_record cs)"

lemma journal_simps [simp]:
  "journal [] = []" "journal (c # cs) = wal_record c @ journal cs" "journal (cs @ ds) = journal cs @ journal ds"
  by (simp_all add: journal_def)

lemma last_journal: "journal cs = [] \<or> last (journal cs) = newline"
  by (induction cs rule: rev_induct) (simp_all add: wal_record_def)

lemma decode_lines_journal:
  assumes "\<forall>c \<in> set cs. json_ok c"
  shows "decode_lines (split_on newline (journal cs @ rest)) =
    map_sum id (\<lambda>vs. map json_of_command cs @ vs) (decode_lines (split_on newline rest))"
  using assms
proof (induction cs)
  case Nil
  then show ?case by (simp add: sum.map_ident)
next
  case (Cons c cs)
  obtain r where "marshal_command c = CHR ''{'' # quote_ch # r" using marshal_command_hd by blast
  then have "marshal_command c \<noteq> []" by simp
  moreover have "split_on newline (journal (c # cs) @ rest) =
      marshal_command c # split_on newline (journal cs @ rest)"
    by (simp add: wal_record_def split_on_line marshal_command_no_newline)
  ultimately show ?case using Cons
    by (simp add: unmarshal_command) (cases "decode_lines (split_on newline rest)"; simp)
qed

lemma decodeEntries_journal:
  assumes "\<forall>c \<in> set cs. json_ok c"
  shows "decodeEntries (journal cs) = Inr (map json_of_command cs)"
  using decode_lines_journal [OF assms, of "[]"] last_journal [of cs]
  by (auto simp: decodeEntries_def)

lemma up_to_last_torn:
  assumes "c \<notin> set t" and "s = [] \<or> last s = c" and "s \<noteq> []"
  shows "up_to_last c (s @ t) = Some s"
proof -
  obtain s' where s: "s = s' @ [c]" using assms(2,3) by (metis append_butlast_last_id)
  have "dropWhile (\<lambda>x. x \<noteq> c) (rev t @ c # rev s') = c # rev s'"
    using assms(1) by (subst dropWhile_append2) auto
  then show ?thesis by (simp add: up_to_last_def s)
qed

lemma decodeEntries_torn:
  assumes ok: "\<forall>c \<in> set cs. json_ok c" and nl: "newline \<notin> set t"
  shows "decodeEntries (journal cs @ t) = Inr (map json_of_command cs)"
proof (cases "t = []")
  case True
  then show ?thesis using decodeEntries_journal [OF ok] by simp
next
  case False
  then have last: "last (journal cs @ t) \<noteq> newline" using nl last_in_set by fastforce
  show ?thesis
  proof (cases "journal cs = []")
    case True
    have "cs = []"
    proof (rule ccontr)
      assume "cs \<noteq> []"
      then show False using True by (cases cs) (simp_all add: wal_record_def)
    qed
    then show ?thesis using last nl False by (simp add: decodeEntries_def up_to_last_def)
  next
    case journal: False
    then show ?thesis using last False up_to_last_torn [OF nl last_journal journal]
        decodeEntries_journal [OF ok] last_journal [of cs]
      by (simp add: decodeEntries_def)
  qed
qed

section \<open>Properties of the journal\<close>

definition write_entries :: "wal \<Rightarrow> command list \<Rightarrow> wal" where
  \<comment> \<open>a run of successful \<open>WriteEntry\<close> calls\<close>
  "write_entries w cs = fold (\<lambda>c w. fst (WriteEntry w c NoFault)) cs w"

lemma write_entries_data:
  "write_entries (Some f) cs = Some (f\<lparr>f_data := f_data f @ journal cs\<rparr>)"
  by (induction cs arbitrary: f) (simp_all add: write_entries_def WriteEntry_def Write_def)

lemma marshal_command_take: "n < length (wal_record c) \<Longrightarrow> newline \<notin> set (take n (wal_record c))"
  using marshal_command_no_newline [of c] by (auto simp: wal_record_def dest: in_set_takeD)

text \<open>
  C9: a crash during an append loses at most the record being written. However many bytes of the last
  record reach the disk, reading the journal back yields exactly the records whose append completed,
  in order, each as the JSON object of its command.
\<close>

theorem wal_crash_safe:
  assumes "\<forall>c \<in> set cs. json_ok c" and "n < length (wal_record c)"
  shows "ReadEntries (fst (WriteEntry (write_entries (Some \<lparr>f_data = [], f_id = i\<rparr>) cs) c (ShortWrite n e))) =
    Inr (map json_of_command cs)"
  using decodeEntries_torn [OF assms(1) marshal_command_take [OF assms(2)]]
  by (simp add: write_entries_data WriteEntry_def Write_def ReadEntries_def ReadAll_def)

theorem wal_crash_safe_witness:
  "ReadEntries (fst (WriteEntry (write_entries (Some \<lparr>f_data = [], f_id = ''1:7''\<rparr>) [zero_command\<lparr>c_Key := ''a''\<rparr>])
      (zero_command\<lparr>c_Key := ''b''\<rparr>) (ShortWrite 5 ''ENOSPC''))) = Inr [json_of_command (zero_command\<lparr>c_Key := ''a''\<rparr>)]"
proof -
  have "json_ok (zero_command\<lparr>c_Key := ''a''\<rparr>)"
    by (simp add: json_ok_def zero_command_def int_of_command_type_def valid_utf8.simps utf8_size.simps byte_def)
  moreover have "5 < length (wal_record (zero_command\<lparr>c_Key := ''b''\<rparr>))"
    by (simp add: wal_record_def marshal_command_def marshal_struct_def quote_def quote_body.simps
        zero_command_def escape_ascii_def html_safe_def byte_def)
  ultimately show ?thesis
    using wal_crash_safe [of "[zero_command\<lparr>c_Key := ''a''\<rparr>]" 5 "zero_command\<lparr>c_Key := ''b''\<rparr>" "''1:7''" "''ENOSPC''"]
    by simp
qed

text \<open>
  the first append after such a crash makes the journal unreadable. \<open>NewWAL\<close> keeps the fragment
  of the torn record and appends behind it, so the next record continues the fragment's line; once a
  single byte of a record was torn, everything written later is lost to recovery, which then fails.
\<close>

theorem wal_append_after_torn:
  assumes "\<forall>c \<in> set cs. json_ok c" and "torn = fst (WriteEntry (write_entries (Some \<lparr>f_data = [], f_id = i\<rparr>) cs) c (ShortWrite 1 e))"
  shows "\<exists>w. NewWAL torn fresh None None = Inr w \<and> ReadEntries w = Inr (map json_of_command cs) \<and>
    ReadEntries (write_entries w (d # ds)) = Inl JsonError"
proof -
  obtain r where r: "marshal_command c = CHR ''{'' # quote_ch # r" using marshal_command_hd by blast
  obtain q where q: "marshal_command d = CHR ''{'' # quote_ch # q" using marshal_command_hd by blast
  let ?f = "\<lparr>f_data = journal cs @ ''{'', f_id = i\<rparr>"
  have torn: "torn = Some ?f"
    by (simp add: assms(2) write_entries_data WriteEntry_def Write_def wal_record_def r)
  have "unmarshal (CHR ''{'' # marshal_command d) = None"
    by (simp add: q unmarshal_def parse_value.simps parse_members.simps skip_ws_id)
  moreover have "split_on newline (''{'' @ journal (d # ds)) = (CHR ''{'' # marshal_command d) # split_on newline (journal ds)"
    using split_on_line [of newline "CHR ''{'' # marshal_command d" "journal ds"] marshal_command_no_newline [of d]
    by (simp add: wal_record_def)
  ultimately have "decode_lines (split_on newline (journal cs @ ''{'' @ journal (d # ds))) = Inl JsonError"
    unfolding decode_lines_journal [OF assms(1)] by simp
  moreover have "last (journal cs @ ''{'' @ journal (d # ds)) = newline"
    using last_journal [of "d # ds"] by (auto simp: wal_record_def)
  ultimately have "ReadEntries (write_entries (Some ?f) (d # ds)) = Inl JsonError"
    by (simp add: write_entries_data ReadEntries_def ReadAll_def decodeEntries_def)
  moreover have "ReadEntries (Some ?f) = Inr (map json_of_command cs)"
    using decodeEntries_torn [OF assms(1), of "''{''"] by (simp add: ReadEntries_def ReadAll_def)
  ultimately show ?thesis by (simp add: NewWAL_def torn)
qed

theorem wal_append_after_torn_witness:
  "\<exists>w. NewWAL (fst (WriteEntry (Some \<lparr>f_data = [], f_id = ''1:7''\<rparr>) zero_command (ShortWrite 1 ''EIO''))) ''1:8'' None None = Inr w \<and>
     ReadEntries w = Inr [] \<and> ReadEntries (write_entries w [zero_command]) = Inl JsonError"
  using wal_append_after_torn [of "[]" _ "''1:7''" zero_command "''EIO''" "''1:8''" zero_command "[]"]
  by (simp add: write_entries_def)

text \<open>
  reading from an offset. With the offset that \<open>Size\<close> gave after some records were written, the
  reader returns exactly the records written later; an offset inside a record is rejected, and so is
  one beyond the end.
\<close>

theorem wal_read_suffix:
  assumes "\<forall>c \<in> set (cs @ ds). json_ok c" and "w = write_entries (Some \<lparr>f_data = [], f_id = i\<rparr>) cs"
    and "Size_wal w = Inr n" and "0 < k" and "k < int (length (wal_record d))"
  shows "ReadEntriesFrom (write_entries w ds) n = Inr (map json_of_command ds) \<and>
    ReadEntriesFrom (write_entries w (d # ds)) (n + k) = Inl OffsetNotBoundary \<and>
    ReadEntriesFrom w (n + k) = Inl OffsetOutside"
proof -
  have w: "w = Some \<lparr>f_data = journal cs, f_id = i\<rparr>" by (simp add: assms(2) write_entries_data)
  have n: "n = int (length (journal cs))" using assms(3) by (simp add: w Size_wal_def)
  have boundary: "journal cs ! (length (journal cs) - 1) = newline" if "journal cs \<noteq> []"
    using last_journal [of cs] that by (simp add: last_conv_nth)
  have "(journal cs @ journal ds) ! nat (n - 1) = newline" if "0 < n"
  proof -
    have "nat (n - 1) = length (journal cs) - 1" "length (journal cs) - 1 < length (journal cs)"
      using that n by simp_all
    then show ?thesis using boundary that n by (simp add: nth_append)
  qed
  then have 1: "ReadEntriesFrom (write_entries w ds) n = Inr (map json_of_command ds)"
    using decodeEntries_journal [of ds] assms(1)
    by (auto simp: ReadEntriesFrom_def ReadAll_def w write_entries_data n)
  define j where "j = nat k"
  have j: "k = int j" "0 < j" "j < length (wal_record d)" using assms(4,5) by (simp_all add: j_def)
  then have "nat (n + k - 1) = length (journal cs) + (j - 1)" "j - 1 < length (wal_record d)" by (simp_all add: n)
  then have "(journal cs @ wal_record d @ journal ds) ! nat (n + k - 1) = wal_record d ! (j - 1)"
    by (simp add: nth_append)
  moreover have "wal_record d ! (j - 1) \<in> set (marshal_command d)"
    using j by (auto simp: wal_record_def nth_append)
  ultimately have "(journal cs @ wal_record d @ journal ds) ! nat (n + k - 1) \<noteq> newline"
    using marshal_command_no_newline [of d] by metis
  then have 2: "ReadEntriesFrom (write_entries w (d # ds)) (n + k) = Inl OffsetNotBoundary"
    using j by (simp add: ReadEntriesFrom_def ReadAll_def w write_entries_data n)
  have 3: "ReadEntriesFrom w (n + k) = Inl OffsetOutside"
    using assms(4) by (simp add: ReadEntriesFrom_def ReadAll_def w n)
  from 1 2 3 show ?thesis by blast
qed

theorem wal_read_suffix_witness:
  "\<exists>w n. w = write_entries (Some \<lparr>f_data = [], f_id = ''1:7''\<rparr>) [zero_command] \<and> Size_wal w = Inr n \<and>
     ReadEntriesFrom (write_entries w [zero_command\<lparr>c_Type := CmdDelete\<rparr>]) n =
       Inr [json_of_command (zero_command\<lparr>c_Type := CmdDelete\<rparr>)] \<and>
     ReadEntriesFrom w (n + 1) = Inl OffsetOutside"
proof -
  let ?w = "write_entries (Some \<lparr>f_data = [], f_id = ''1:7''\<rparr>) [zero_command]"
  have ok: "json_ok zero_command" "json_ok (zero_command\<lparr>c_Type := CmdDelete\<rparr>)"
    by (simp_all add: json_ok_def zero_command_def int_of_command_type_def valid_utf8.simps)
  obtain n where n: "Size_wal ?w = Inr n" by (simp add: write_entries_data Size_wal_def)
  have "1 < int (length (wal_record zero_command))"
    by (simp add: wal_record_def marshal_command_def marshal_struct_def quote_def)
  from wal_read_suffix [OF _ refl n, of "[zero_command\<lparr>c_Type := CmdDelete\<rparr>]" 1 zero_command] this ok n show ?thesis
    by (intro exI [of _ ?w] exI [of _ n]) simp
qed

lemma split_on_journal: "split_on newline (journal cs) = map marshal_command cs @ [[]]"
  by (induction cs) (simp_all add: wal_record_def split_on_line marshal_command_no_newline)

lemma join_lines_journal: "cs \<noteq> [] \<Longrightarrow> join_lines (map marshal_command cs) @ [newline] = journal cs"
proof (induction cs rule: induct_list012)
  case (3 c d cs)
  then show ?case by (simp add: join_lines_def wal_record_def)
qed (simp_all add: join_lines_def wal_record_def)

definition no_truncate_faults :: truncate_faults where
  "no_truncate_faults = \<lparr>tf_read = None, tf_truncate = None, tf_write = None, tf_sync = None\<rparr>"

text \<open>
  \<open>Truncate\<close> removes exactly the first \<open>k\<close> records of a journal and leaves the others as they were.
\<close>

theorem wal_truncate_drops:
  "Truncate (write_entries (Some \<lparr>f_data = [], f_id = i\<rparr>) cs) (int k) no_truncate_faults =
     (write_entries (Some \<lparr>f_data = [], f_id = i\<rparr>) (drop k cs), None)"
proof (cases "k = 0")
  case True
  then show ?thesis by (simp add: Truncate_def no_truncate_faults_def write_entries_data)
next
  case False
  then show ?thesis
  proof (cases "k < length cs")
    case True
    then have "join_lines (map marshal_command (drop k cs)) @ [newline] = journal (drop k cs)"
      by (intro join_lines_journal) simp
    then show ?thesis using False True
      by (simp add: Truncate_def no_truncate_faults_def write_entries_data split_on_journal drop_map)
  next
    case out: False
    then show ?thesis using False by (simp add: Truncate_def no_truncate_faults_def write_entries_data split_on_journal)
  qed
qed

section \<open>The snapshot file\<close>

record snapshot =
  sn_data :: string
  sn_term :: int
  sn_idx :: int
  sn_walOffset :: int
  sn_walID :: string
  sn_open :: bool      \<comment> \<open>\<open>s.file\<close> is not nil\<close>
  sn_disk :: string    \<comment> \<open>the bytes of the file the path names\<close>

record save_faults =
  sf_prepare :: "string option"   \<comment> \<open>anything before and including the rename: the old file stays\<close>
  sf_open :: "string option"
  sf_close :: "string option"
  sf_dir :: "string option"

definition no_faults :: save_faults where
  "no_faults = \<lparr>sf_prepare = None, sf_open = None, sf_close = None, sf_dir = None\<rparr>"

definition snapshot_text :: "string \<Rightarrow> int \<Rightarrow> int \<Rightarrow> string \<Rightarrow> int \<Rightarrow> string" where
  \<comment> \<open>\<open>Encode\<close> of the map, whose keys are written in order; a byte slice is written in base64\<close>
  "snapshot_text data tm idx walID walOffset =
     marshal_struct
       [(''data'', quote (b64_encode data)), (''idx'', itoa idx), (''term'', itoa tm),
        (''wal_id'', quote walID), (''wal_offset'', itoa walOffset)] @ [newline]"

definition SaveWithWAL ::
  "snapshot \<Rightarrow> string \<Rightarrow> int \<Rightarrow> int \<Rightarrow> string \<Rightarrow> int \<Rightarrow> save_faults \<Rightarrow> snapshot \<times> io_error option" where
  "SaveWithWAL s data tm idx walID walOffset sf =
     (if \<not> sn_open s then (s, Some ErrClosed)
      else case sf_prepare sf of
        Some e \<Rightarrow> (s, Some (OsError e))
      | None \<Rightarrow>
          (let s1 = s\<lparr>sn_disk := snapshot_text data tm idx walID walOffset\<rparr>
           in case sf_open sf of
                Some e \<Rightarrow> (s1, Some (OsError e))
              | None \<Rightarrow>
                  (case sf_close sf of
                     Some e \<Rightarrow> (s1, Some (OsError e))
                   | None \<Rightarrow>
                       (case sf_dir sf of
                          Some e \<Rightarrow> (s1, Some (OsError e))
                        | None \<Rightarrow> (s1\<lparr>sn_data := data, sn_term := tm, sn_idx := idx,
                                     sn_walOffset := walOffset, sn_walID := walID\<rparr>, None)))))"

definition firstOffset :: "int list \<Rightarrow> int" where
  "firstOffset offsets = (case offsets of [] \<Rightarrow> 0 | n # _ \<Rightarrow> n)"

definition Save :: "snapshot \<Rightarrow> string \<Rightarrow> int \<Rightarrow> int \<Rightarrow> int list \<Rightarrow> save_faults \<Rightarrow> snapshot \<times> io_error option" where
  "Save s data tm idx walOffset sf = SaveWithWAL s data tm idx [] (firstOffset walOffset) sf"

definition json_int :: "jval \<Rightarrow> int option" where
  \<comment> \<open>\<open>v.(float64)\<close>, converted\<close>
  "json_int v = (case v of JFloat n \<Rightarrow> Some (float_to_int64 n) | JFrac n \<Rightarrow> Some (float_to_int64 n) | _ \<Rightarrow> None)"

definition load_fields :: "(string, jval) gomap \<Rightarrow> snapshot \<Rightarrow> io_error + snapshot" where
  "load_fields m s =
     (case jfield m ''data'' of
        JStr data \<Rightarrow>
          (case b64_decode data of
             None \<Rightarrow> Inl (BadField ''data'')
           | Some decoded \<Rightarrow>
               (case json_int (jfield m ''term'') of
                  None \<Rightarrow> Inl (BadField ''term'')
                | Some tm \<Rightarrow>
                    (case json_int (jfield m ''idx'') of
                       None \<Rightarrow> Inl (BadField ''idx'')
                     | Some idx \<Rightarrow>
                         Inr (s\<lparr>sn_data := decoded, sn_term := tm, sn_idx := idx,
                                sn_walOffset := (case json_int (jfield m ''wal_offset'') of Some n \<Rightarrow> n | None \<Rightarrow> sn_walOffset s),
                                sn_walID := (case jfield m ''wal_id'' of JStr t \<Rightarrow> t | _ \<Rightarrow> sn_walID s)\<rparr>))))
      | _ \<Rightarrow> Inl (BadField ''data''))"

definition loadFromFile :: "snapshot \<Rightarrow> io_error + snapshot" where
  "loadFromFile s =
     (let t = sn_disk s; fuel = 2 * length t + 2
      in if t = [] then Inr s
         else case parse_value fuel 0 t of
                None \<Rightarrow> Inl JsonError
              | Some (v, rest) \<Rightarrow>
                  (case v of
                     JNull \<Rightarrow> Inl NoObject
                   | JObj m \<Rightarrow>
                       (if skip_ws rest = [] then load_fields m s
                        else case parse_value fuel 0 rest of Some _ \<Rightarrow> Inl TrailingValue | None \<Rightarrow> Inl JsonError)
                   | _ \<Rightarrow> Inl JsonError))"

definition NewSnapshot :: "string \<Rightarrow> string option \<Rightarrow> string option \<Rightarrow> io_error + snapshot" where
  \<comment> \<open>the bytes on disk (none for a new file) and the errors of opening the file and syncing the directory\<close>
  "NewSnapshot disk open_err sync_err =
     (case open_err of
        Some e \<Rightarrow> Inl (OsError e)
      | None \<Rightarrow>
          (case sync_err of
             Some e \<Rightarrow> Inl (OsError e)
           | None \<Rightarrow>
               loadFromFile \<lparr>sn_data = [], sn_term = 0, sn_idx = 0, sn_walOffset = 0, sn_walID = [],
                             sn_open = True, sn_disk = disk\<rparr>))"

definition Close_snapshot :: "snapshot \<Rightarrow> string option \<Rightarrow> snapshot \<times> io_error option" where
  "Close_snapshot s close_err =
     (if \<not> sn_open s then (s, None) else (s\<lparr>sn_open := False\<rparr>, map_option OsError close_err))"

definition Size_snapshot :: "snapshot \<Rightarrow> int" where
  "Size_snapshot s = int (length (sn_data s))"

definition Exists_snapshot :: "snapshot \<Rightarrow> bool" where
  "Exists_snapshot s \<longleftrightarrow> length (sn_data s) > 0"

definition Delete_snapshot :: "snapshot \<Rightarrow> string option \<Rightarrow> string option \<Rightarrow> snapshot \<times> io_error option" where
  \<comment> \<open>with the errors of truncating and of seeking or syncing\<close>
  "Delete_snapshot s trunc_err sync_err =
     (if \<not> sn_open s then (s, Some ErrClosed)
      else (let s1 = s\<lparr>sn_data := [], sn_term := 0, sn_idx := 0, sn_walOffset := 0, sn_walID := []\<rparr>
            in case trunc_err of
                 Some e \<Rightarrow> (s1, Some (OsError e))
               | None \<Rightarrow> (s1\<lparr>sn_disk := []\<rparr>, map_option OsError sync_err)))"

definition Load :: "snapshot \<Rightarrow> string \<times> int \<times> int" where
  "Load s = (sn_data s, sn_term s, sn_idx s)"

definition WALOffset :: "snapshot \<Rightarrow> int" where
  "WALOffset s = sn_walOffset s"

definition WALID :: "snapshot \<Rightarrow> string" where
  "WALID s = sn_walID s"

section \<open>Properties of the snapshot file\<close>

lemma quote_ascii_valid: "valid_utf8 (b64_encode data)"
  using b64_encode_plain by (intro valid_utf8_ascii) blast

lemma parse_snapshot_text:
  assumes "valid_utf8 walID" and "\<forall>i \<in> {tm, idx, walOffset}. \<bar>i\<bar> \<le> 2 ^ 63"
  shows "\<exists>m. parse_value (2 * length (snapshot_text data tm idx walID walOffset) + 2) 0
      (snapshot_text data tm idx walID walOffset) = Some (JObj m, [newline]) \<and>
    m = [(''data'', JStr (b64_encode data)), (''idx'', JFloat (through_float idx)), (''term'', JFloat (through_float tm)),
         (''wal_id'', JStr walID), (''wal_offset'', JFloat (through_float walOffset))]"
proof -
  let ?fs = "[(''data'', quote (b64_encode data)), (''idx'', itoa idx), (''term'', itoa tm),
        (''wal_id'', quote walID), (''wal_offset'', itoa walOffset)]"
  let ?kvs = "[(''data'', JStr (b64_encode data)), (''idx'', JFloat (through_float idx)), (''term'', JFloat (through_float tm)),
         (''wal_id'', JStr walID), (''wal_offset'', JFloat (through_float walOffset))]"
  let ?t = "marshal_fields ?fs @ CHR ''}'' # [newline]"
  note json = reads_as_int [OF order_trans [of _ "2 ^ 63"]] reads_as_string reads_as_bool
  have fields: "list_all2 (\<lambda>(name, tx) (name', v). name' = name \<and> valid_utf8 name \<and> reads_as tx v) ?fs ?kvs"
    using assms by (simp add: json quote_ascii_valid) (simp add: valid_utf8_ascii byte_def)
  have "parse_members (Suc (2 * length ?t + 2)) 1 [] ?t = Some (fold (\<lambda>(k, v). AList.update k v) ?kvs [], [newline])"
    using length_marshal_fields [of ?fs] by (intro parse_members_fields [OF fields]) simp_all
  moreover obtain cs where "?t = quote_ch # cs" by (simp add: quote_def)
  ultimately have "parse_value (2 * length (CHR ''{'' # ?t) + 2) 0 (CHR ''{'' # ?t) = Some (JObj ?kvs, [newline])"
    by (simp add: parse_value.simps skip_ws_id del: marshal_fields.simps)
  then show ?thesis by (simp add: snapshot_text_def marshal_struct_def)
qed

lemma float_to_int64_small: "\<bar>i\<bar> \<le> 2 ^ 53 \<Longrightarrow> float_to_int64 (through_float i) = i"
  by (simp add: through_float_small float_to_int64_def max_int64_def abs_le_iff)

text \<open>
  what \<open>SaveWithWAL\<close> wrote is what a restarted process loads: the data byte for byte, the term,
  the index, the journal's identity and the offset in it.
\<close>

theorem snapshot_file_roundtrip:
  assumes "sn_open s" and "valid_utf8 walID" and "\<bar>tm\<bar> \<le> 2 ^ 53" and "\<bar>idx\<bar> \<le> 2 ^ 53" and "\<bar>walOffset\<bar> \<le> 2 ^ 53"
  shows "\<exists>s' s''. SaveWithWAL s data tm idx walID walOffset no_faults = (s', None) \<and>
    NewSnapshot (sn_disk s') None None = Inr s'' \<and>
    Load s'' = (data, tm, idx) \<and> WALID s'' = walID \<and> WALOffset s'' = walOffset"
proof -
  let ?t = "snapshot_text data tm idx walID walOffset"
  have "parse_value (2 * length ?t + 2) 0 ?t = Some (JObj [(''data'', JStr (b64_encode data)), (''idx'', JFloat (through_float idx)), (''term'', JFloat (through_float tm)),
         (''wal_id'', JStr walID), (''wal_offset'', JFloat (through_float walOffset))], [newline])"
    using parse_snapshot_text [of walID tm idx walOffset data] assms(2-5) by simp
  moreover have "?t \<noteq> []" by (simp add: snapshot_text_def)
  moreover have "skip_ws [newline] = []" by (simp add: skip_ws_def is_space_def)
  ultimately show ?thesis using assms
    by (simp add: SaveWithWAL_def no_faults_def NewSnapshot_def loadFromFile_def load_fields_def json_int_def
        jfield_def gomap_get_def b64_roundtrip float_to_int64_small Load_def WALID_def WALOffset_def Let_def)
qed

theorem snapshot_file_roundtrip_witness:
  "\<exists>s' s''. SaveWithWAL \<lparr>sn_data = [], sn_term = 0, sn_idx = 0, sn_walOffset = 0, sn_walID = [], sn_open = True, sn_disk = []\<rparr>
      [chr 255, newline] 0 7 ''8:15'' 1024 no_faults = (s', None) \<and>
    NewSnapshot (sn_disk s') None None = Inr s'' \<and> Load s'' = ([chr 255, newline], 0, 7) \<and> WALOffset s'' = 1024"
proof -
  have "valid_utf8 ''8:15''" by (simp add: valid_utf8_ascii byte_def)
  then show ?thesis
    using snapshot_file_roundtrip [of "\<lparr>sn_data = [], sn_term = 0, sn_idx = 0, sn_walOffset = 0, sn_walID = [], sn_open = True, sn_disk = []\<rparr>"
        "''8:15''" 0 7 1024 "[chr 255, newline]"] by auto
qed



end
