(* ===== verification/Recovery.thy ===== *)
theory Recovery
  imports Server_Apply Storage
begin

text \<open>
  Start-up and shutdown of \<open>server/server.go\<close>: the snapshot that \<open>savePersistentState\<close> writes, the
  journal suffix behind it, and \<open>restorePersistentState\<close>, which replays the journal through
  \<open>applyRecoveredCommand\<close>. Replay is shown to implement the same machine as \<open>applyLoop\<close>, so a restarted
  server has the state the old one had. The JSON text of a server snapshot is produced and read by a
  pair of functions, the arguments \<open>enc\<close> and \<open>dec\<close>.
\<close>

section \<open>Replay\<close>

definition store_run :: "kvstore \<Rightarrow> command \<Rightarrow> (kvstore \<Rightarrow> string \<Rightarrow> (kv_error + core) go) \<Rightarrow> (kv_error + core) go" where
  \<comment> \<open>\<open>result, err := s.store.Apply(cmd)\<close>, returning \<open>err\<close>\<close>
  "store_run kv cmd k =
     (case Apply kv cmd of
        Blocked \<Rightarrow> Blocked
      | Ret (kv', Inl err) \<Rightarrow> Ret (Inl err)
      | Ret (kv', Inr result) \<Rightarrow> k kv' result)"

fun recover_deletes :: "string list \<Rightarrow> core \<Rightarrow> (kv_error + core) go" where
  \<comment> \<open>the loop of \<open>CmdLeaseRevoke\<close>\<close>
  "recover_deletes [] c = Ret (Inr c)"
| "recover_deletes (key # keys) (kv, le, rv) =
     store_run kv (zero_command\<lparr>c_Type := CmdDelete, c_Key := key, c_Revision := rv + 1\<rparr>)
       (\<lambda>kv' _. recover_deletes keys (kv', le, rv + 1))"

definition recover_rev :: "command \<Rightarrow> int \<Rightarrow> command \<times> int" where
  \<comment> \<open>the revision of a write, at the start of \<open>applyRecoveredCommand\<close>\<close>
  "recover_rev cmd currentRev =
     (if c_Type cmd = CmdPut \<or> c_Type cmd = CmdDelete \<or> c_Type cmd = CmdCAS \<or> c_Type cmd = CmdLeaseAttach \<or>
         c_Type cmd = CmdDeletePrefix
      then (if c_Revision cmd = 0 then (cmd\<lparr>c_Revision := currentRev + 1\<rparr>, currentRev + 1)
            else if c_Revision cmd > currentRev then (cmd, c_Revision cmd) else (cmd, currentRev))
      else (cmd, currentRev))"

definition recover_expiry :: "int \<Rightarrow> command \<Rightarrow> int \<times> int" where
  \<comment> \<open>\<open>ttl\<close> and \<open>expireAt\<close> of a lease command\<close>
  "recover_expiry now cmd =
     (let ttl = (if c_TTL cmd \<le> 0 then 10 else c_TTL cmd)
      in (ttl, if c_ExpireAt cmd \<le> 0 then deadline now ttl else c_ExpireAt cmd))"

definition recover_switch :: "int \<Rightarrow> command \<Rightarrow> core \<Rightarrow> (kv_error + core) go" where
  "recover_switch now cmd c =
     (case c of (kv, le, rv) \<Rightarrow>
      (case c_Type cmd of
         CmdLeaseGrant \<Rightarrow>
           (case recover_expiry now cmd of (ttl, expireAt) \<Rightarrow> Ret (Inr (kv, fst (GrantUntil le ttl expireAt), rv)))
       | CmdLeaseRevoke \<Rightarrow>
           (let (le', keys) = (if c_ExpireAt cmd > 0 then RevokeLeaseIfMatches le (c_LeaseID cmd) (c_ExpireAt cmd)
                               else RevokeLease le (c_LeaseID cmd))
            in recover_deletes keys (kv, le', rv))
       | CmdLeaseKeepAlive \<Rightarrow>
           (case recover_expiry now cmd of (ttl, expireAt) \<Rightarrow>
              Ret (Inr (kv, fst (KeepAliveUntil le (c_LeaseID cmd) ttl expireAt), rv)))
       | CmdLeaseAttach \<Rightarrow>
           (if c_LeaseID cmd > 0
            then (let le1 = fst (Revoke le (c_Key cmd));
                      le2 = Attach le1 (c_LeaseID cmd) (c_Key cmd) (c_Value cmd);
                      kv1 = SetKeyLease kv (c_Key cmd) (c_LeaseID cmd)
                  in store_run kv1 (cmd\<lparr>c_Type := CmdPut\<rparr>) (\<lambda>kv' _. Ret (Inr (kv', le2, rv))))
            else Ret (Inr c))
       | CmdDeletePrefix \<Rightarrow>
           (let (kv', deletedKeys) = DeletePrefix kv (c_Prefix cmd)
            in Ret (Inr (kv', fold (\<lambda>key le. fst (Revoke le key)) deletedKeys le, rv)))
       | CmdGetPrefix \<Rightarrow> Ret (Inr c)
       | CmdCAS \<Rightarrow>
           (let leaseID = GetKeyLease kv (c_Key cmd)
            in store_run kv cmd (\<lambda>kv' result.
                 Ret (Inr (kv', if result = ''OK'' \<and> leaseID > 0 then Attach le leaseID (c_Key cmd) (c_Value cmd) else le, rv))))
       | _ \<Rightarrow>
           (let le1 = (if c_Type cmd = CmdPut \<or> c_Type cmd = CmdDelete then fst (Revoke le (c_Key cmd)) else le)
            in store_run kv cmd (\<lambda>kv' _.
                 Ret (Inr (if c_Type cmd = CmdPut \<and> c_LeaseID cmd > 0
                           then (SetKeyLease kv' (c_Key cmd) (c_LeaseID cmd), Attach le1 (c_LeaseID cmd) (c_Key cmd) (c_Value cmd), rv)
                           else (kv', le1, rv)))))))"

definition applyRecoveredCommand :: "int \<Rightarrow> command \<Rightarrow> core \<Rightarrow> (kv_error + core) go" where
  "applyRecoveredCommand now cmd0 c =
     (case c of (kv, le, rv0) \<Rightarrow>
      (case recover_rev cmd0 rv0 of (cmd, rv) \<Rightarrow>
       (case recover_switch now cmd (kv, le, rv) of
          Blocked \<Rightarrow> Blocked
        | Ret (Inl err) \<Rightarrow> Ret (Inl err)
        | Ret (Inr (kv', le', rv')) \<Rightarrow>
            Ret (Inr (kv', le', if GetCurrentRevision kv' > rv' then GetCurrentRevision kv' else rv')))))"

datatype recover_error =
    DecodeSnapshot | NoServerState | RestoreKV kv_error | RestoreLease lease_error
  | IdentifyWAL io_error | ReadSuffix io_error | ReadWAL io_error
  | DecodeEntry string nat | ReplayEntry string nat kv_error

fun replay_from :: "nat \<Rightarrow> int \<Rightarrow> string \<Rightarrow> jval list \<Rightarrow> core \<Rightarrow> (recover_error + core) go" where
  "replay_from i now source [] c = Ret (Inr c)"
| "replay_from i now source (entry # entries) c =
     (case commandFromValue (IValue entry) of
        None \<Rightarrow> Ret (Inl (DecodeEntry source i))
      | Some cmd \<Rightarrow>
          (case applyRecoveredCommand now cmd c of
             Blocked \<Rightarrow> Blocked
           | Ret (Inl err) \<Rightarrow> Ret (Inl (ReplayEntry source i err))
           | Ret (Inr c') \<Rightarrow> replay_from (Suc i) now source entries c'))"

definition replayEntries :: "int \<Rightarrow> string \<Rightarrow> jval list \<Rightarrow> core \<Rightarrow> (recover_error + core) go" where
  "replayEntries now source entries c = replay_from 0 now source entries c"

section \<open>Snapshots of the server\<close>

record server_snapshot =
  sp_Store :: "store_snapshot option"     \<comment> \<open>\<open>None\<close>: the member is missing\<close>
  sp_Leases :: "lease_snapshot option"
  sp_CurrentRev :: int

definition restore_snapshot :: "server_snapshot \<Rightarrow> core \<Rightarrow> recover_error + core" where
  "restore_snapshot state c =
     (case c of (kv, le, rv) \<Rightarrow>
      if sp_Store state = None \<and> sp_Leases state = None then Inl NoServerState
      else case (case sp_Store state of None \<Rightarrow> Inr kv | Some s \<Rightarrow> Restore kv s) of
        Inl err \<Rightarrow> Inl (RestoreKV err)
      | Inr kv' \<Rightarrow>
          (case (case sp_Leases state of None \<Rightarrow> Inr le | Some s \<Rightarrow> Restore_leases le s) of
             Inl err \<Rightarrow> Inl (RestoreLease err)
           | Inr le' \<Rightarrow>
               Inr (kv', le', if GetCurrentRevision kv' > sp_CurrentRev state
                              then GetCurrentRevision kv' else sp_CurrentRev state)))"

definition replay_read :: "int \<Rightarrow> string \<Rightarrow> (io_error \<Rightarrow> recover_error) \<Rightarrow> io_error + jval list \<Rightarrow> core \<Rightarrow> (recover_error + core) go" where
  "replay_read now source wrap entries c =
     (case entries of Inl err \<Rightarrow> Ret (Inl (wrap err)) | Inr es \<Rightarrow> replayEntries now source es c)"

definition restorePersistentState ::
  "(string \<Rightarrow> server_snapshot option) \<Rightarrow> int \<Rightarrow> snapshot option \<Rightarrow> wal option \<Rightarrow> core \<Rightarrow> (recover_error + core) go" where
  "restorePersistentState dec now snap w c =
     (case (case snap of
              None \<Rightarrow> Inr (None, c)
            | Some s \<Rightarrow>
                (case Load s of (data, _, _) \<Rightarrow>
                   if length data > 0
                   then (case dec data of
                           None \<Rightarrow> Inl DecodeSnapshot
                         | Some state \<Rightarrow> map_sum id (\<lambda>c. (Some s, c)) (restore_snapshot state c))
                   else Inr (None, c))) of
        Inl err \<Rightarrow> Ret (Inl err)
      | Inr (has_snapshot, c1) \<Rightarrow>
          (case w of
             None \<Rightarrow> Ret (Inr c1)
           | Some wal \<Rightarrow>
               (case has_snapshot of
                  Some s \<Rightarrow>
                    (case FileID wal of
                       Inl err \<Rightarrow> Ret (Inl (IdentifyWAL err))
                     | Inr walID \<Rightarrow>
                         (let offset = (if WALID s \<noteq> [] \<and> WALID s = walID then WALOffset s else 0)
                          in replay_read now ''WAL suffix'' ReadSuffix (ReadEntriesFrom wal offset) c1))
                | None \<Rightarrow> replay_read now ''WAL'' ReadWAL (ReadEntries wal) c1)))"

definition NewServer :: "(string \<Rightarrow> server_snapshot option) \<Rightarrow> int \<Rightarrow> snapshot option \<Rightarrow> wal option \<Rightarrow> (recover_error option \<times> server) go" where
  \<comment> \<open>the state of the new server and its \<open>startupErr\<close>\<close>
  "NewServer dec now snap w =
     (let sv = new_server (w \<noteq> None)
      in case restorePersistentState dec now snap w (core sv) of
           Blocked \<Rightarrow> Blocked
         | Ret (Inl err) \<Rightarrow> Ret (Some err, sv)
         | Ret (Inr (kv, le, rv)) \<Rightarrow> Ret (None, sv\<lparr>sv_store := kv, sv_leaseMgr := le, sv_currentRev := rv\<rparr>))"

definition server_state :: "core \<Rightarrow> server_snapshot" where
  \<comment> \<open>what \<open>savePersistentState\<close> puts into the snapshot\<close>
  "server_state c =
     (case c of (kv, le, rv) \<Rightarrow>
       \<lparr>sp_Store = Some (Snapshot kv), sp_Leases = Some (Snapshot_leases le),
        sp_CurrentRev = (if GetCurrentRevision kv > rv then GetCurrentRevision kv else rv)\<rparr>)"

datatype save_error = IdentifyFailed io_error | MeasureFailed io_error | WriteFailed io_error | ClearFailed io_error

definition savePersistentState ::
  "(server_snapshot \<Rightarrow> string) \<Rightarrow> core \<Rightarrow> snapshot option \<Rightarrow> wal option \<Rightarrow> save_faults \<Rightarrow> string \<Rightarrow> clear_faults \<Rightarrow>
   snapshot option \<times> wal option \<times> save_error option" where
  "savePersistentState enc c snap w sf fresh cf =
     (case snap of
        None \<Rightarrow> (snap, w, None)
      | Some s \<Rightarrow>
          (let state = server_state c; data = enc state; currentRev = sp_CurrentRev state;
               save = (\<lambda>walID walOffset. SaveWithWAL s data 0 currentRev walID walOffset sf)
           in case w of
                None \<Rightarrow> (case save [] 0 of (s', r) \<Rightarrow> (Some s', None, map_option WriteFailed r))
              | Some wal \<Rightarrow>
                  (case FileID wal of
                     Inl e \<Rightarrow> (snap, w, Some (IdentifyFailed e))
                   | Inr walID \<Rightarrow>
                       (case Size_wal wal of
                          Inl e \<Rightarrow> (snap, w, Some (MeasureFailed e))
                        | Inr walOffset \<Rightarrow>
                            (case save walID walOffset of
                               (s', Some e) \<Rightarrow> (Some s', w, Some (WriteFailed e))
                             | (s', None) \<Rightarrow>
                                 (case Clear_wal wal fresh cf of
                                    (wal', r) \<Rightarrow> (Some s', Some wal', map_option ClearFailed r)))))))"

definition Shutdown ::
  "(server_snapshot \<Rightarrow> string) \<Rightarrow> recover_error option \<Rightarrow> server \<Rightarrow> snapshot option \<Rightarrow> wal option \<Rightarrow> save_faults \<Rightarrow> string \<Rightarrow> clear_faults \<Rightarrow>
   snapshot option \<times> wal option" where
  \<comment> \<open>once Raft and the loops have stopped: save, then close both files\<close>
  "Shutdown enc startupErr sv snap w sf fresh cf =
     (let (snap1, w1) =
            (if startupErr = None \<and> sv_persistenceErr sv = None
             then (case savePersistentState enc (core sv) snap w sf fresh cf of (a, b, _) \<Rightarrow> (a, b))
             else (snap, w))
      in (map_option (\<lambda>s. fst (Close_snapshot s None)) snap1, map_option (\<lambda>wal. fst (Close_wal wal None)) w1))"

section \<open>Replay implements the machine\<close>

definition replayable :: "int \<Rightarrow> command \<Rightarrow> bool" where
  \<comment> \<open>a journalled command as \<open>applyLoop\<close> writes it at revision \<open>rv\<close>, of a type that replay handles\<close>
  "replayable rv cmd \<longleftrightarrow>
     c_Type cmd \<noteq> CmdGet \<and> (\<forall>n. c_Type cmd \<noteq> CmdOther n) \<and>
     (is_write (c_Type cmd) \<longrightarrow> c_Revision cmd = rv + 1) \<and>
     (c_Type cmd = CmdLeaseGrant \<or> c_Type cmd = CmdLeaseKeepAlive \<longrightarrow> 0 < c_ExpireAt cmd)"

lemma recover_deletes_eq:
  "recover_deletes keys (kv, le, rv) = (case del_keys keys (kv, rv) of (kv', rv') \<Rightarrow> Ret (Inr (kv', le, rv')))"
proof (induction keys arbitrary: kv rv)
  case (Cons k ks)
  have "Apply kv (delete_at k (rv + 1)) = Ret (kv_apply kv (delete_at k (rv + 1)), Inr [])"
    by (simp add: kv_apply_def Apply_def delete_at_def Let_def split: prod.splits)
  then show ?case using Cons by (simp add: store_run_def delete_at_def split: prod.splits)
qed simp

lemma store_run_put:
  assumes "rev_ok kv cmd" and "c_Type cmd = CmdPut \<or> c_Type cmd = CmdDelete"
  shows "store_run kv cmd k = k (kv_apply kv cmd) []"
  using assms by (auto simp: store_run_def kv_apply_def Apply_CmdPut Apply_CmdDelete)

lemma recover_switch_step:
  assumes rv: "is_write (c_Type cmd) \<Longrightarrow> rev_ok kv cmd" and le: "lm_ok le"
    and ty: "c_Type cmd \<noteq> CmdGet" "\<And>n. c_Type cmd \<noteq> CmdOther n"
    and ex: "c_Type cmd = CmdLeaseGrant \<or> c_Type cmd = CmdLeaseKeepAlive \<Longrightarrow> 0 < c_ExpireAt cmd"
  shows "\<exists>rv'. recover_switch now cmd (kv, le, r) =
      Ret (Inr (case core_step cmd (kv, le, r) of (kv', le', _) \<Rightarrow> (kv', le', rv'))) \<and>
    max rv' (kv_currentRev (fst (core_step cmd (kv, le, r)))) =
      max (snd (snd (core_step cmd (kv, le, r)))) (kv_currentRev (fst (core_step cmd (kv, le, r))))"
proof (cases "c_Type cmd")
  case CmdLeaseAttach
  have "rev_ok (SetKeyLease kv (c_Key cmd) a) (cmd\<lparr>c_Type := CmdPut\<rparr>)" for a
    using rv CmdLeaseAttach by (simp add: rev_ok_def cmd_rev_def SetKeyLease_def is_write_def)
  then show ?thesis using CmdLeaseAttach rv
    by (auto simp: recover_switch_def store_run_put core_step.simps kv_apply_def Apply_CmdPut Apply_CmdLeaseAttach
        is_write_def SetKeyLease_def write_version_def append_version_def cmd_rev_def Let_def)
next
  case CmdCAS
  then show ?thesis using rv
    by (auto simp: recover_switch_def store_run_def core_step.simps kv_apply_def Apply_CmdCAS is_write_def)
next
  case CmdLeaseRevoke
  then show ?thesis
    by (auto simp: recover_switch_def recover_deletes_eq core_step.simps revoke_choice_def split: prod.splits)
next
  case CmdDeletePrefix
  then show ?thesis by (auto simp: recover_switch_def core_step.simps split: prod.splits)
qed (use assms in \<open>auto simp: recover_switch_def recover_expiry_def store_run_put core_step.simps is_write_def
       kv_apply_def Apply_CmdPut SetKeyLease_def ttl_of_def\<close>)

lemma replay_step:
  assumes ok: "core_ok (kv, le, rv)" and re: "replayable rv cmd"
  shows "applyRecoveredCommand now cmd (kv, le, rv) = Ret (Inr (core_apply cmd (kv, le, rv)))"
proof -
  have kv: "kv_ok kv" "kv_currentRev kv \<le> rv" and le: "lm_ok le" using ok by simp_all
  have "0 \<le> rv" using kv kv_ok_cur [of kv] by linarith
  then have rr: "recover_rev cmd rv = (cmd, next_rev cmd rv)"
    using re by (auto simp: recover_rev_def replayable_def is_write_def next_rev_def)
  have wr: "with_rev rv cmd = cmd" using re by (simp add: with_rev_def replayable_def)
  have "is_write (c_Type cmd) \<Longrightarrow> rev_ok kv cmd" using re kv by (simp add: replayable_def rev_ok_def)
  then obtain rv' where rv': "recover_switch now cmd (kv, le, next_rev cmd rv) =
      Ret (Inr (case core_step cmd (kv, le, next_rev cmd rv) of (kv', le', _) \<Rightarrow> (kv', le', rv')))"
    "max rv' (kv_currentRev (fst (core_step cmd (kv, le, next_rev cmd rv)))) =
      max (snd (snd (core_step cmd (kv, le, next_rev cmd rv)))) (kv_currentRev (fst (core_step cmd (kv, le, next_rev cmd rv))))"
    using recover_switch_step [of cmd kv le now "next_rev cmd rv"] le re by (auto simp: replayable_def)
  obtain kv1 le1 r1 where c1: "core_step cmd (kv, le, next_rev cmd rv) = (kv1, le1, r1)" by (cases "core_step cmd (kv, le, next_rev cmd rv)")
  have ap: "core_apply cmd (kv, le, rv) = (kv1, le1, r1)" by (simp add: core_apply_eq wr c1)
  then have "kv_currentRev kv1 \<le> r1" using core_ok_apply [OF ok, of cmd] by simp
  then have "(if kv_currentRev kv1 > rv' then kv_currentRev kv1 else rv') = r1" using rv'(2) c1 by (simp add: max_def split: if_splits)
  then show ?thesis using rv'(1) c1 ap by (auto simp: applyRecoveredCommand_def rr GetCurrentRevision_def split: if_splits)
qed

section \<open>From the journal's bytes to the command\<close>

definition exact :: "command \<Rightarrow> bool" where
  \<comment> \<open>the journal can represent the command: valid UTF-8, and integers that a \<open>float64\<close> represents\<close>
  "exact cmd \<longleftrightarrow> json_ok cmd \<and>
     (\<forall>i \<in> {int_of_command_type (c_Type cmd), c_LeaseID cmd, c_TTL cmd, c_ExpireAt cmd, c_Revision cmd, c_ExpectedRev cmd}.
        float_to_int64 (through_float i) = i) \<and>
     command_type_of_int (int_of_command_type (c_Type cmd)) = c_Type cmd"

lemma command_of_json:
  "command_of_map (case json_of_command cmd of JObj m \<Rightarrow> m | _ \<Rightarrow> []) =
     cmd\<lparr>c_Type := command_type_of_int (float_to_int64 (through_float (int_of_command_type (c_Type cmd)))),
         c_LeaseID := float_to_int64 (through_float (c_LeaseID cmd)), c_TTL := float_to_int64 (through_float (c_TTL cmd)),
         c_ExpireAt := float_to_int64 (through_float (c_ExpireAt cmd)), c_Revision := float_to_int64 (through_float (c_Revision cmd)),
         c_ExpectedRev := float_to_int64 (through_float (c_ExpectedRev cmd))\<rparr>"
  by (simp add: json_of_command_def command_of_map_def jfield_def gomap_get_def toString_def toInt64_def toInt_def toBool_def)

lemma command_json_exact:
  assumes "exact cmd"
  shows "commandFromValue (IValue (json_of_command cmd)) = Some cmd"
proof -
  obtain m where m: "json_of_command cmd = JObj m" by (simp add: json_of_command_def)
  then have "commandFromValue (IValue (json_of_command cmd)) = Some (command_of_map (case json_of_command cmd of JObj m \<Rightarrow> m | _ \<Rightarrow> []))"
    by (simp add: commandFromValue_def)
  then show ?thesis using assms by (simp add: command_of_json exact_def)
qed

fun replay_ok :: "command list \<Rightarrow> core \<Rightarrow> bool" where
  "replay_ok [] c \<longleftrightarrow> True"
| "replay_ok (cmd # cmds) c \<longleftrightarrow>
     exact cmd \<and> replayable (snd (snd c)) cmd \<and> replay_ok cmds (core_apply cmd c)"

lemma replay_from_fold:
  assumes "core_ok c" and "replay_ok cmds c"
  shows "replay_from i now src (map json_of_command cmds) c = Ret (Inr (fold core_apply cmds c))"
  using assms
proof (induction cmds arbitrary: i c)
  case (Cons cmd cmds)
  obtain kv le rv where c: "c = (kv, le, rv)" by (cases c)
  have "applyRecoveredCommand now cmd c = Ret (Inr (core_apply cmd c))"
    using replay_step [of kv le rv cmd now] Cons.prems c by simp
  then show ?case using Cons core_ok_apply [of c cmd] by (simp add: command_json_exact)
qed simp

lemma replay_ok_append:
  "replay_ok (xs @ ys) c \<longleftrightarrow> replay_ok xs c \<and> replay_ok ys (fold core_apply xs c)"
  by (induction xs arbitrary: c) simp_all

section \<open>Recovery restores the live state\<close>

fun rev_chain :: "command list \<Rightarrow> core \<Rightarrow> bool" where
  \<comment> \<open>every write of the journal carries the revision that follows the state before it\<close>
  "rev_chain [] c \<longleftrightarrow> True"
| "rev_chain (cmd # cmds) c \<longleftrightarrow>
     (is_write (c_Type cmd) \<longrightarrow> c_Revision cmd = snd (snd c) + 1) \<and> rev_chain cmds (core_apply cmd c)"

lemma rev_chain_append:
  "rev_chain (xs @ ys) c \<longleftrightarrow> rev_chain xs c \<and> rev_chain ys (fold core_apply xs c)"
  by (induction xs arbitrary: c) simp_all

lemma core_apply_with_rev: "core_apply (with_rev r cmd) c = core_apply cmd c"
  by (cases c) (simp add: core_apply.simps with_rev_def)

lemma core_apply_get: "c_Type cmd = CmdGet \<Longrightarrow> core_apply cmd c = c"
  by (cases c) (simp add: core_apply.simps core_step.simps is_write_def)

lemma journal_matches_core:
  assumes "applyLoop ms (new_server True) = Some sv" and "sv_persistenceErr sv = None"
  shows "\<exists>js. sv_wal sv = Some js \<and> rev_chain js core_init \<and> core sv = fold core_apply js core_init"
proof -
  let ?P = "\<lambda>s. sv_persistenceErr s = None \<longrightarrow>
    (\<exists>js. sv_wal s = Some js \<and> rev_chain js core_init \<and> core s = fold core_apply js core_init)"
  from assms(1) sv_ok_new have "?P sv"
  proof (induction rule: applyLoop_induct)
    case init
    then show ?case by (simp add: new_server_def core_def core_init_def)
  next
    case (step now wr msg s s')
    have chain: "is_write (c_Type c) \<longrightarrow> c_Revision (with_rev (sv_currentRev s) c) = snd (snd (core s)) + 1" for c
      by (simp add: with_rev_def core_def)
    from step(1,3) show ?case
    proof (cases rule: applyLoop_step_cases)
      case (get s1 cmd)
      then obtain js where "sv_wal s = Some js" "rev_chain js core_init" "core s = fold core_apply js core_init"
        using step(4) by auto
      then show ?thesis using get chain [of "timed now cmd"]
        by (auto simp: rev_chain_append core_apply_with_rev core_apply_get)
    next
      case (applied s1 cmd)
      then obtain js where "sv_wal s = Some js" "rev_chain js core_init" "core s = fold core_apply js core_init"
        using step(4) by auto
      then show ?thesis using applied chain [of "timed now cmd"]
        by (auto simp: rev_chain_append core_apply_with_rev)
    qed (use step(4) in auto)
  qed
  then show ?thesis using assms(2) by blast
qed

lemma replay_ok_chain:
  assumes "rev_chain js c"
    and "\<forall>cmd \<in> set js. exact cmd \<and> c_Type cmd \<noteq> CmdGet \<and> (\<forall>n. c_Type cmd \<noteq> CmdOther n) \<and>
      (c_Type cmd = CmdLeaseGrant \<or> c_Type cmd = CmdLeaseKeepAlive \<longrightarrow> 0 < c_ExpireAt cmd)"
  shows "replay_ok js c"
  using assms by (induction js arbitrary: c) (auto simp: replayable_def)

definition recoverable :: "command \<Rightarrow> bool" where
  \<comment> \<open>a journal record that replay can bring back as it was\<close>
  "recoverable cmd \<longleftrightarrow> exact cmd \<and> c_Type cmd \<noteq> CmdGet \<and> (\<forall>n. c_Type cmd \<noteq> CmdOther n) \<and>
     (c_Type cmd = CmdLeaseGrant \<or> c_Type cmd = CmdLeaseKeepAlive \<longrightarrow> 0 < c_ExpireAt cmd)"

lemma recoverableI:
  assumes "valid_utf8 (c_Key cmd)" "valid_utf8 (c_Value cmd)" "valid_utf8 (c_Prefix cmd)"
    and "\<forall>i \<in> {c_LeaseID cmd, c_TTL cmd, c_ExpireAt cmd, c_Revision cmd, c_ExpectedRev cmd}. \<bar>i\<bar> \<le> 2 ^ 53"
    and "c_Type cmd \<noteq> CmdGet" "\<forall>n. c_Type cmd \<noteq> CmdOther n"
    and "c_Type cmd = CmdLeaseGrant \<or> c_Type cmd = CmdLeaseKeepAlive \<longrightarrow> 0 < c_ExpireAt cmd"
  shows "recoverable cmd"
proof -
  have "\<bar>int_of_command_type (c_Type cmd)\<bar> \<le> 2 ^ 53"
    "command_type_of_int (int_of_command_type (c_Type cmd)) = c_Type cmd"
    using assms(6) by (cases "c_Type cmd"; simp add: int_of_command_type_def command_type_of_int_def)+
  moreover have "\<bar>i\<bar> \<le> 2 ^ 53 \<Longrightarrow> \<bar>i\<bar> \<le> 2 ^ 63" for i :: int by simp
  ultimately show ?thesis using assms
    by (simp add: recoverable_def exact_def json_ok_def float_to_int64_small)
qed

text \<open>
  C1: recovery restores the live state. Let a server with a journal process any sequence of messages
  without a persistence failure, and let it crash at any moment, possibly in the middle of appending a
  further record. When the journal's records are ones that JSON represents exactly (and no \<open>CmdGet\<close> or
  unknown command is among them), the server that is started on that journal comes up without an
  error and with the same store, the same leases and the same revision counter.
\<close>

theorem recovery_restores_state:
  assumes "applyLoop ms (new_server True) = Some sv" and "sv_persistenceErr sv = None" and "sv_wal sv = Some js"
    and "\<forall>cmd \<in> set js. recoverable cmd" and "n < length (wal_record torn)"
    and "w = fst (WriteEntry (write_entries (Some \<lparr>f_data = [], f_id = i\<rparr>) js) torn (ShortWrite n e))"
  shows "\<exists>sv'. NewServer dec now None (Some w) = Ret (None, sv') \<and> core sv' = core sv"
proof -
  have "rev_chain js core_init" and core: "core sv = fold core_apply js core_init"
    using journal_matches_core [OF assms(1,2)] assms(3) by auto
  then have re: "replay_ok js core_init"
    using assms(4) by (intro replay_ok_chain) (simp_all add: recoverable_def)
  have "\<forall>cmd \<in> set js. json_ok cmd" using assms(4) by (simp add: recoverable_def exact_def)
  from decodeEntries_torn [OF this marshal_command_take [OF assms(5)]]
  have "ReadEntries w = Inr (map json_of_command js)"
    by (simp add: assms(6) write_entries_data WriteEntry_def Write_def ReadEntries_def ReadAll_def)
  moreover have "Server_Apply.core (new_server True) = core_init"
    by (simp add: core_def new_server_def core_init_def)
  ultimately have "restorePersistentState dec now None (Some w) (Server_Apply.core (new_server True)) = Ret (Inr (core sv))"
    using replay_from_fold [OF core_ok_init re, of 0 now "''WAL''"]
    by (simp add: restorePersistentState_def replay_read_def replayEntries_def core)
  then show ?thesis by (auto simp: NewServer_def core_def)
qed

theorem recovery_restores_state_witness:
  "\<exists>sv sv' w. applyLoop
      [(7, None, \<lparr>m_CommandValid = True, m_Command = ICommand (zero_command\<lparr>c_Type := CmdLeaseGrant, c_TTL := 5\<rparr>), m_CommandIndex = 1\<rparr>),
       (7, None, \<lparr>m_CommandValid = True, m_Command = ICommand (zero_command\<lparr>c_Type := CmdPut, c_Key := ''a'', c_Value := ''1'', c_LeaseID := 1\<rparr>), m_CommandIndex = 2\<rparr>)]
      (new_server True) = Some sv \<and>
    w = fst (WriteEntry (write_entries (Some \<lparr>f_data = [], f_id = ''1:7''\<rparr>) (the (sv_wal sv))) zero_command (ShortWrite 9 ''EIO'')) \<and>
    NewServer (\<lambda>_. None) 1000 None (Some w) = Ret (None, sv') \<and> kv_abs (sv_store sv') ''a'' = Some (''1'', 1)"
proof -
  let ?ms = "[(7, None, \<lparr>m_CommandValid = True, m_Command = ICommand (zero_command\<lparr>c_Type := CmdLeaseGrant, c_TTL := 5\<rparr>), m_CommandIndex = 1\<rparr>),
       (7, None, \<lparr>m_CommandValid = True, m_Command = ICommand (zero_command\<lparr>c_Type := CmdPut, c_Key := ''a'', c_Value := ''1'', c_LeaseID := 1\<rparr>), m_CommandIndex = 2\<rparr>)]"
  define sv where "sv = the (applyLoop ?ms (new_server True))"
  let ?g = "zero_command\<lparr>c_Type := CmdLeaseGrant, c_TTL := 5, c_ExpireAt := 5000000007\<rparr>"
  let ?p = "zero_command\<lparr>c_Type := CmdPut, c_Key := ''a'', c_Value := ''1'', c_LeaseID := 1, c_Revision := 1\<rparr>"
  let ?w = "fst (WriteEntry (write_entries (Some \<lparr>f_data = [], f_id = ''1:7''\<rparr>) [?g, ?p]) zero_command (ShortWrite 9 ''EIO''))"
  have run: "applyLoop ?ms (new_server True) = Some sv" unfolding sv_def by code_simp
  have facts: "sv_persistenceErr sv = None" "sv_wal sv = Some [?g, ?p]" and abs: "kv_abs (sv_store sv) ''a'' = Some (''1'', 1)"
    unfolding sv_def by code_simp+
  have "recoverable ?g" by (rule recoverableI) (simp_all add: zero_command_def valid_utf8_ascii byte_def)
  moreover have "recoverable ?p" by (rule recoverableI) (simp_all add: zero_command_def valid_utf8_ascii byte_def)
  moreover have "9 < length (wal_record zero_command)"
    by (simp add: wal_record_def marshal_command_def marshal_struct_def quote_def quote_body.simps
        zero_command_def escape_ascii_def html_safe_def byte_def)
  ultimately obtain sv' where "NewServer (\<lambda>_. None) 1000 None (Some ?w) = Ret (None, sv')" "core sv' = core sv"
    using recovery_restores_state [OF run facts, of 9 zero_command ?w "''1:7''" "''EIO''" "\<lambda>_. None" 1000] by auto
  then show ?thesis using run facts(2) abs by (intro exI [of _ sv] exI [of _ sv'] exI [of _ ?w]) (simp add: core_def)
qed

section \<open>Replicas\<close>

definition clock_free :: "iface \<Rightarrow> bool" where
  \<comment> \<open>a lease command already carries its expiry time, as \<open>Submit\<close> makes it\<close>
  "clock_free v \<longleftrightarrow>
     (case commandFromValue v of
        None \<Rightarrow> True
      | Some cmd \<Rightarrow> c_Type cmd = CmdLeaseGrant \<or> c_Type cmd = CmdLeaseKeepAlive \<longrightarrow> 0 < c_ExpireAt cmd)"

lemma applyLoop_step_agree:
  assumes ok: "sv_ok s" "sv_ok t" and eq: "core s = core t" "sv_blocked s = sv_blocked t"
    and s: "applyLoop_step now wr msg s = Some s'" and t: "applyLoop_step now' wr' msg t = Some t'"
    and pe: "sv_persistenceErr s' = None" "sv_persistenceErr t' = None" and cf: "clock_free (m_Command msg)"
  shows "core s' = core t' \<and> sv_blocked s' = sv_blocked t'"
proof (cases "\<exists>cmd. commandFromValue (m_Command msg) = Some cmd \<and> m_CommandValid msg \<and>
    m_Command msg \<noteq> Barrier \<and> \<not> sv_blocked s")
  case True
  then obtain cmd where c: "commandFromValue (m_Command msg) = Some cmd" and nb: "\<not> sv_blocked s" "\<not> sv_blocked t"
    and ap: "apply_cmd now wr (m_CommandIndex msg) cmd s = Some s'" "apply_cmd now' wr' (m_CommandIndex msg) cmd t = Some t'"
    using s t eq(2) by (auto simp: applyLoop_step_def)
  have timed: "timed n cmd = cmd" for n using cf c by (auto simp: clock_free_def timed_def)
  have out: "core s' = (if c_Type cmd = CmdGet then core s else core_apply cmd (core s)) \<and>
      (sv_blocked s' \<longleftrightarrow> c_Type cmd \<in> {CmdGet, CmdGetPrefix, CmdDeletePrefix})"
    if "sv_ok s" "\<not> sv_blocked s" "apply_cmd now wr (m_CommandIndex msg) cmd s = Some s'" "sv_persistenceErr s' = None"
    for s s' now wr using that(1-3)
    by (cases rule: apply_cmd_cases) (use that(4) in \<open>auto simp: timed\<close>)
  from out [OF ok(1) nb(1) ap(1) pe(1)] out [OF ok(2) nb(2) ap(2) pe(2)] eq(1) show ?thesis by simp
next
  case False
  then have "s' = s" "t' = t" using s t eq(2) by (auto simp: applyLoop_step_def split: option.splits if_splits)
  then show ?thesis using eq by simp
qed

lemma persistenceErr_sticky:
  assumes "sv_ok s" and "applyLoop_step now wr msg s = Some s'" and "sv_persistenceErr s' = None"
  shows "sv_persistenceErr s = None"
  using assms(1,2) by (cases rule: applyLoop_step_cases) (use assms(3) in auto)

lemma applyLoop_split:
  assumes "sv_ok s" and "applyLoop ((now, wr, msg) # ms) s = Some s'"
  obtains s1 where "applyLoop_step now wr msg s = Some s1" "applyLoop ms s1 = Some s'" "sv_ok s1"
proof -
  obtain s1 where s1: "applyLoop_step now wr msg s = Some s1" "applyLoop ms s1 = Some s'"
    using assms(2) by (auto split: Option.bind_splits)
  have "sv_ok s1" using assms(1) s1(1) by (cases rule: applyLoop_step_cases) (use assms(1) in auto)
  with s1 show thesis by (rule that)
qed

lemma applyLoop_sticky:
  assumes "sv_ok s" and "applyLoop ms s = Some s'" and "sv_persistenceErr s' = None"
  shows "sv_persistenceErr s = None"
  using assms
proof (induction ms arbitrary: s)
  case (Cons m ms)
  obtain now wr msg where m: "m = (now, wr, msg)" by (cases m)
  obtain s1 where "applyLoop_step now wr msg s = Some s1" "applyLoop ms s1 = Some s'" "sv_ok s1"
    using applyLoop_split Cons.prems m by metis
  then show ?case using Cons persistenceErr_sticky by blast
qed simp

lemma replicas_agree_from:
  assumes "sv_ok s" "sv_ok t" "core s = core t" "sv_blocked s = sv_blocked t"
    and "map (\<lambda>m. snd (snd m)) ms = map (\<lambda>m. snd (snd m)) ms'"
    and "applyLoop ms s = Some s'" "applyLoop ms' t = Some t'"
    and "sv_persistenceErr s' = None" "sv_persistenceErr t' = None"
    and "\<forall>(_, _, msg) \<in> set ms. clock_free (m_Command msg)"
  shows "core s' = core t'"
  using assms
proof (induction ms arbitrary: s t ms')
  case (Cons m ms)
  obtain now wr msg where m: "m = (now, wr, msg)" by (cases m)
  obtain now' wr' ns where ms': "ms' = (now', wr', msg) # ns" and ns: "map (\<lambda>m. snd (snd m)) ms = map (\<lambda>m. snd (snd m)) ns"
    using Cons.prems(5) m by (cases ms') auto
  obtain s1 where s1: "applyLoop_step now wr msg s = Some s1" "applyLoop ms s1 = Some s'" "sv_ok s1"
    using applyLoop_split Cons.prems(1,6) m by metis
  obtain t1 where t1: "applyLoop_step now' wr' msg t = Some t1" "applyLoop ns t1 = Some t'" "sv_ok t1"
    using applyLoop_split Cons.prems(2,7) ms' by metis
  have "sv_persistenceErr s1 = None" "sv_persistenceErr t1 = None"
    using applyLoop_sticky s1 t1 Cons.prems(8,9) by blast+
  moreover have "clock_free (m_Command msg)" using Cons.prems(10) m by simp
  ultimately have "core s1 = core t1 \<and> sv_blocked s1 = sv_blocked t1"
    using applyLoop_step_agree [OF Cons.prems(1-4) s1(1) t1(1)] by blast
  then show ?case using Cons.IH [OF s1(3) t1(3) _ _ ns s1(2) t1(2)] Cons.prems(8-10) by simp
qed simp



section \<open>Expiry times and floating point\<close>

definition committed :: "int \<Rightarrow> iface \<Rightarrow> apply_msg" where
  "committed idx v = \<lparr>m_CommandValid = True, m_Command = v, m_CommandIndex = idx\<rparr>"

lemma live_step:
  assumes "sv_ok s" "\<not> sv_blocked s" "sv_persistenceErr s = None" "sv_wal s = None"
    and "commandFromValue v = Some cmd" "c_Type cmd \<notin> {CmdGet, CmdGetPrefix, CmdDeletePrefix}"
  obtains s' where "applyLoop_step now wr (committed idx v) s = Some s'" "core s' = core_apply (timed now cmd) (core s)"
    "sv_ok s'" "\<not> sv_blocked s'" "sv_persistenceErr s' = None" "sv_wal s' = None"
proof -
  have "c_Type cmd \<noteq> CmdGet" "sv_wal s = None \<or> wr = None" using assms(4,6) by simp_all
  moreover have "v \<noteq> Barrier" using assms(5) by (auto simp: commandFromValue_def)
  ultimately show thesis
    using assms that
    by (rule_tac apply_cmd_exec [OF assms(1,3), of wr cmd now idx])
      (auto simp: applyLoop_step_def committed_def same_rest_def sv_ok_def)
qed

definition grant_cmd :: "int \<Rightarrow> int \<Rightarrow> command" where
  "grant_cmd ttl e = zero_command\<lparr>c_Type := CmdLeaseGrant, c_TTL := ttl, c_ExpireAt := e\<rparr>"

definition revoke_cmd :: "int \<Rightarrow> int \<Rightarrow> command" where
  \<comment> \<open>what \<open>cleanupExpiredLeases\<close> submits\<close>
  "revoke_cmd a e = zero_command\<lparr>c_Type := CmdLeaseRevoke, c_LeaseID := a, c_ExpireAt := e\<rparr>"

definition via_json :: "int \<Rightarrow> int" where
  \<comment> \<open>an \<open>int64\<close> that was sent as JSON and converted back\<close>
  "via_json i = float_to_int64 (through_float i)"

lemma via_json_small: "\<bar>i\<bar> \<le> 2 ^ 53 \<Longrightarrow> via_json i = i"
  by (simp add: via_json_def float_to_int64_small)

lemma via_json_idem: "0 < via_json i \<Longrightarrow> via_json (via_json i) = via_json i"
  by (auto simp: via_json_def float_to_int64_def through_float_idem split: if_splits)

lemma json_lease_commands:
  assumes "\<bar>ttl\<bar> \<le> 2 ^ 53"
  shows "commandFromValue (IValue (json_of_command (grant_cmd ttl e))) = Some (grant_cmd ttl (via_json e))"
    and "commandFromValue (IValue (json_of_command (revoke_cmd 1 e))) = Some (revoke_cmd 1 (via_json e))"
  using command_of_json [of "grant_cmd ttl e"] command_of_json [of "revoke_cmd 1 e"] assms
    via_json_small [of ttl, unfolded via_json_def] via_json_small [of 0, unfolded via_json_def]
    via_json_small [of 1, unfolded via_json_def] via_json_small [of 3, unfolded via_json_def] via_json_small [of 4, unfolded via_json_def]
  by (simp_all add: commandFromValue_def json_of_command_def grant_cmd_def revoke_cmd_def zero_command_def
      int_of_command_type_def command_type_of_int_def via_json_def)

lemma core_grant:
  "0 < ttl \<Longrightarrow> core_apply (grant_cmd ttl e) core_init =
    (NewKVStore, fst (GrantUntil NewLeaseManager ttl e), 0)"
  by (simp add: core_init_def core_apply.simps core_step.simps is_write_def grant_cmd_def ttl_of_def)

lemma revoke_after_grant:
  assumes "0 < f" and "core_apply (revoke_cmd 1 f) (NewKVStore, fst (GrantUntil NewLeaseManager ttl e), 0) = (kv, le, r)"
  shows "lease_view le 1 = (if f = e then None else Some (ttl, e, Map.empty))"
  using assms
  by (auto simp: core_apply.simps core_step.simps is_write_def revoke_cmd_def revoke_choice_def RevokeLeaseIfMatches_def
      revokeLeaseLocked_def GrantUntil_def NewLeaseManager_def lease_view_def Let_def split: prod.splits if_splits)

text \<open>
  C30: lease expiry times beyond \<open>2\<^sup>5\<^sup>3\<close> make replicas diverge. The leader keeps the exact time of a
  grant, a follower gets it through JSON and keeps the rounded one. When the follower leads later and
  revokes the expired lease with the time it has, the command removes the lease on the follower only:
  the old leader compares the rounded time with its exact one and keeps the lease.
\<close>

theorem lease_expiry_diverges:
  assumes "0 < ttl" and "ttl \<le> 2 ^ 53" and "0 < via_json e" and "0 < e" and "via_json e \<noteq> e"
  shows "\<exists>old new.
    applyLoop [(now, None, committed 1 (ICommand (grant_cmd ttl e))),
               (now', None, committed 2 (IValue (json_of_command (revoke_cmd 1 (via_json e)))))] (new_server False) = Some old \<and>
    applyLoop [(now, None, committed 1 (IValue (json_of_command (grant_cmd ttl e)))),
               (now', None, committed 2 (ICommand (revoke_cmd 1 (via_json e))))] (new_server False) = Some new \<and>
    lease_view (sv_leaseMgr old) 1 = Some (ttl, e, Map.empty) \<and> lease_view (sv_leaseMgr new) 1 = None"
proof -
  have run: "\<exists>s. applyLoop [(now, None, committed 1 v), (now', None, committed 2 u)] (new_server False) = Some s \<and>
      lease_view (sv_leaseMgr s) 1 = (if via_json e = x then None else Some (ttl, x, Map.empty))"
    if v: "commandFromValue v = Some (grant_cmd ttl x)" and u: "commandFromValue u = Some (revoke_cmd 1 (via_json e))" and x: "0 < x"
    for v u x
  proof -
    let ?g = "grant_cmd ttl x" and ?r = "revoke_cmd 1 (via_json e)"
    have new: "sv_ok (new_server False)" "\<not> sv_blocked (new_server False)" "sv_persistenceErr (new_server False) = None"
      "sv_wal (new_server False) = None" "core (new_server False) = core_init"
      by (simp_all add: sv_ok_new) (simp_all add: new_server_def core_def core_init_def)
    have ty: "c_Type ?g \<notin> {CmdGet, CmdGetPrefix, CmdDeletePrefix}" "c_Type ?r \<notin> {CmdGet, CmdGetPrefix, CmdDeletePrefix}"
      by (simp_all add: grant_cmd_def revoke_cmd_def)
    have t: "timed n ?g = ?g" "timed n ?r = ?r" for n
      using x by (simp_all add: timed_def grant_cmd_def revoke_cmd_def)
    obtain s1 where s1: "applyLoop_step now None (committed 1 v) (new_server False) = Some s1" "core s1 = core_apply ?g core_init"
      "sv_ok s1" "\<not> sv_blocked s1" "sv_persistenceErr s1 = None" "sv_wal s1 = None"
      using live_step [OF new(1-4) v ty(1), of now None 1] t new(5) by metis
    obtain s2 where s2: "applyLoop_step now' None (committed 2 u) s1 = Some s2" "core s2 = core_apply ?r (core s1)"
      using live_step [OF s1(3-6) u ty(2), of now' None 2] t by metis
    have "core_apply ?r (NewKVStore, fst (GrantUntil NewLeaseManager ttl x), 0) = (sv_store s2, sv_leaseMgr s2, sv_currentRev s2)"
      using s1(2) s2(2) core_grant [OF assms(1), of x] by (simp add: core_def)
    from revoke_after_grant [OF assms(3) this] s1(1) s2(1) show ?thesis by simp
  qed
  have ttl: "\<bar>ttl\<bar> \<le> 2 ^ 53" using assms(1,2) by simp
  note json = json_lease_commands [OF ttl]
  have cmd: "commandFromValue (ICommand c) = Some c" for c by (simp add: commandFromValue_def)
  have "commandFromValue (IValue (json_of_command (revoke_cmd 1 (via_json e)))) = Some (revoke_cmd 1 (via_json e))"
    using json(2) via_json_idem [OF assms(3)] by simp
  from run [OF cmd this assms(4)] run [OF json(1) cmd assms(3)] assms(5) show ?thesis by auto
qed

lemma nearest_nanoseconds: "nearest 1700000000000000001 = 1700000000000000000"
proof -
  have "bitlen 1700000000000000001 = 61" by (simp add: bitlen.simps)
  then show ?thesis by (simp add: nearest_def round_half_even_def)
qed

theorem lease_expiry_diverges_witness:
  "\<exists>old new.
    applyLoop [(0, None, committed 1 (ICommand (grant_cmd 5 1700000000000000001))),
               (0, None, committed 2 (IValue (json_of_command (revoke_cmd 1 1700000000000000000))))] (new_server False) = Some old \<and>
    applyLoop [(0, None, committed 1 (IValue (json_of_command (grant_cmd 5 1700000000000000001)))),
               (0, None, committed 2 (ICommand (revoke_cmd 1 1700000000000000000)))] (new_server False) = Some new \<and>
    lease_view (sv_leaseMgr old) 1 \<noteq> None \<and> lease_view (sv_leaseMgr new) 1 = None"
proof -
  have "via_json 1700000000000000001 = 1700000000000000000"
    by (simp add: via_json_def through_float_def nearest_nanoseconds float_to_int64_def max_int64_def)
  with lease_expiry_diverges [of 5 1700000000000000001 0 0] show ?thesis by auto
qed

section \<open>Checkpoints\<close>

lemma restore_own_snapshot:
  assumes "core_ok (kv, le, rv)" and "persistable le"
  obtains kv' le' where "restore_snapshot (server_state (kv, le, rv)) core_init = Inr (kv', le', rv)"
    "kv_data kv' = kv_data kv" "kv_key2Lease kv' = kv_key2Lease kv" "kv_currentRev kv' = kv_currentRev kv"
    "lm_leases le' = lm_leases le" "lm_leaseID le' = lm_leaseID le" "lm_ok le'"
proof -
  have kv: "kv_ok kv" "kv_currentRev kv \<le> rv" and le: "lm_ok le" using assms(1) by simp_all
  obtain le' where "Restore_leases NewLeaseManager (Snapshot_leases le) = Inr le'"
    "lm_leases le' = lm_leases le" "lm_leaseID le' = lm_leaseID le" "lm_ok le'"
    using Restore_Snapshot_leases [OF le, of NewLeaseManager] assms(2) by (auto split: sum.splits)
  then show thesis using that kv Restore_Snapshot [OF kv(1), of NewKVStore]
    by (simp add: restore_snapshot_def server_state_def core_init_def GetCurrentRevision_def)
qed

lemma SaveWithWAL_reload:
  assumes "sn_open s" and "valid_utf8 walID" and "\<bar>idx\<bar> \<le> 2 ^ 53" and "\<bar>off\<bar> \<le> 2 ^ 53"
    and "SaveWithWAL s data 0 idx walID off no_faults = (s', r)"
  obtains s'' where "NewSnapshot (sn_disk s') None None = Inr s''" "Load s'' = (data, 0, idx)"
    "WALID s'' = walID" "WALOffset s'' = off" "r = None"
proof -
  let ?t = "snapshot_text data 0 idx walID off"
  have s': "s' = s\<lparr>sn_disk := ?t, sn_data := data, sn_term := 0, sn_idx := idx, sn_walOffset := off, sn_walID := walID\<rparr>" "r = None"
    using assms(1,5) by (auto simp: SaveWithWAL_def no_faults_def)
  have "parse_value (2 * length ?t + 2) 0 ?t = Some (JObj [(''data'', JStr (b64_encode data)), (''idx'', JFloat (through_float idx)), (''term'', JFloat (through_float 0)),
         (''wal_id'', JStr walID), (''wal_offset'', JFloat (through_float off))], [newline])"
    using parse_snapshot_text [of walID 0 idx off data] assms(2-4) by simp
  moreover have "?t \<noteq> []" by (simp add: snapshot_text_def)
  moreover have "skip_ws [newline] = []" by (simp add: skip_ws_def is_space_def)
  ultimately show thesis using assms(2-4) s' that
    by (simp add: NewSnapshot_def loadFromFile_def load_fields_def json_int_def
        jfield_def gomap_get_def b64_roundtrip float_to_int64_small Load_def WALID_def WALOffset_def Let_def)
qed

lemma replay_nothing: "replay_read now src f (Inr []) c = Ret (Inr c)"
  by (simp add: replay_read_def replayEntries_def)

text \<open>
  C10: a checkpoint survives a crash at its weakest moment. After \<open>savePersistentState\<close> has written the
  snapshot, a restart gives back the store's versions and lease table, the leases and the revision
  counter, both when the journal was cleared (its identity changed, the new journal is empty) and when
  clearing failed (the identity is the old one, and the recorded offset skips every record that the
  snapshot already contains): nothing is lost and nothing is applied twice.
\<close>

theorem checkpoint_restores_state:
  assumes "core_ok (kv, le, rv)" and "persistable le" and "rv \<le> 2 ^ 53"
    and "dec (enc (server_state (kv, le, rv))) = Some (server_state (kv, le, rv))" and "enc (server_state (kv, le, rv)) \<noteq> []"
    and "sn_open s" and "f = \<lparr>f_data = journal js, f_id = i\<rparr>" and "valid_utf8 i" and "i \<noteq> []"
    and "length (journal js) \<le> 2 ^ 53" and "fresh \<noteq> i" and "cf_open cf = None"
    and "savePersistentState enc (kv, le, rv) (Some s) (Some (Some f)) no_faults fresh cf = (Some s', Some w, r)"
  shows "\<exists>s'' kv' le'. NewSnapshot (sn_disk s') None None = Inr s'' \<and>
    restorePersistentState dec now (Some s'') (Some w) core_init = Ret (Inr (kv', le', rv)) \<and>
    kv_data kv' = kv_data kv \<and> kv_key2Lease kv' = kv_key2Lease kv \<and> kv_currentRev kv' = kv_currentRev kv \<and>
    lm_leases le' = lm_leases le \<and> lm_leaseID le' = lm_leaseID le"
proof -
  let ?st = "server_state (kv, le, rv)"
  have "kv_currentRev kv \<le> rv" "0 \<le> rv" using assms(1) kv_ok_cur [of kv] by auto
  then have rev: "sp_CurrentRev ?st = rv" "\<bar>rv\<bar> \<le> 2 ^ 53"
    using assms(3) by (simp_all add: server_state_def GetCurrentRevision_def)
  let ?n = "int (length (journal js))"
  obtain s1 q where save: "SaveWithWAL s (enc ?st) 0 rv i ?n no_faults = (s1, q)" by force
  have n: "\<bar>?n\<bar> \<le> 2 ^ 53" using assms(10) by (simp add: of_nat_le_iff [symmetric] del: of_nat_le_iff)
  obtain s'' where s'': "NewSnapshot (sn_disk s1) None None = Inr s''" "Load s'' = (enc ?st, 0, rv)"
    "WALID s'' = i" "WALOffset s'' = ?n" "q = None"
    by (rule SaveWithWAL_reload [OF assms(6) assms(8) rev(2) n save])
  have s1: "s' = s1" and cl: "fst (Clear_wal (Some f) fresh cf) = w"
    using assms(13) save s''(5) rev(1) assms(7)
    by (auto simp: savePersistentState_def FileID_def Size_wal_def Let_def split: prod.splits)
  consider "w = Some f" | "w = Some \<lparr>f_data = [], f_id = fresh\<rparr>"
    using cl assms(12) by (auto simp: Clear_wal_def split: option.splits)
  then have rd: "\<exists>id. FileID w = Inr id \<and>
      ReadEntriesFrom w (if WALID s'' \<noteq> [] \<and> WALID s'' = id then WALOffset s'' else 0) = Inr []"
  proof cases
    case 1
    have "nat (?n - 1) = length (journal js) - 1" by linarith
    then have "journal js ! nat (?n - 1) = newline" if "journal js \<noteq> []"
      using last_journal [of js] that by (simp add: last_conv_nth)
    then show ?thesis using 1 assms(7,9) s''(3,4)
      by (auto simp: FileID_def ReadEntriesFrom_def ReadAll_def decodeEntries_def)
  next
    case 2
    then show ?thesis using assms(11) s''(3) by (auto simp: FileID_def ReadEntriesFrom_def ReadAll_def decodeEntries_def)
  qed
  obtain kv' le' where re: "restore_snapshot ?st core_init = Inr (kv', le', rv)"
    "kv_data kv' = kv_data kv" "kv_key2Lease kv' = kv_key2Lease kv" "kv_currentRev kv' = kv_currentRev kv"
    "lm_leases le' = lm_leases le" "lm_leaseID le' = lm_leaseID le" "lm_ok le'"
    by (rule restore_own_snapshot [OF assms(1,2)])
  have "restorePersistentState dec now (Some s'') (Some w) core_init = Ret (Inr (kv', le', rv))"
    using rd re(1) s''(2) assms(4,5) by (auto simp: restorePersistentState_def replay_nothing Let_def)
  then show ?thesis using s'' s1 re by auto
qed

theorem checkpoint_restores_state_witness:
  "\<exists>s' w s'' kv' le'.
    savePersistentState (\<lambda>_. ''{}'') core_init
      (Some \<lparr>sn_data = [], sn_term = 0, sn_idx = 0, sn_walOffset = 0, sn_walID = [], sn_open = True, sn_disk = []\<rparr>)
      (Some (Some \<lparr>f_data = [], f_id = ''1:7''\<rparr>)) no_faults ''1:8''
      \<lparr>cf_prepare = Some ''ENOSPC'', cf_open = None, cf_close = None, cf_dir = None\<rparr> =
      (Some s', Some w, Some (ClearFailed (OsError ''ENOSPC''))) \<and>
    NewSnapshot (sn_disk s') None None = Inr s'' \<and>
    restorePersistentState (\<lambda>_. Some (server_state core_init)) 0 (Some s'') (Some w) core_init = Ret (Inr (kv', le', 0))"
proof -
  let ?s = "\<lparr>sn_data = [], sn_term = 0, sn_idx = 0, sn_walOffset = 0, sn_walID = [], sn_open = True, sn_disk = []\<rparr>"
  let ?f = "\<lparr>f_data = [], f_id = ''1:7''\<rparr>"
  let ?cf = "\<lparr>cf_prepare = Some ''ENOSPC'', cf_open = None, cf_close = None, cf_dir = None\<rparr>"
  have ok: "core_ok (NewKVStore, NewLeaseManager, 0)" using core_ok_init by (simp add: core_init_def)
  have pe: "persistable NewLeaseManager" by (simp add: persistable_def NewLeaseManager_def)
  have v: "valid_utf8 ''1:7''" by (simp add: valid_utf8_ascii byte_def)
  obtain s' w where save: "savePersistentState (\<lambda>_. ''{}'') (NewKVStore, NewLeaseManager, 0) (Some ?s) (Some (Some ?f)) no_faults ''1:8'' ?cf =
      (Some s', Some w, Some (ClearFailed (OsError ''ENOSPC'')))"
    by (simp add: savePersistentState_def FileID_def Size_wal_def SaveWithWAL_def no_faults_def Clear_wal_def Let_def)
  from checkpoint_restores_state [OF ok pe _ _ _ _ _ v _ _ _ _ save, of "\<lambda>_. Some (server_state core_init)" "[]" 0] save
  show ?thesis by (auto simp: core_init_def)
qed

end
