(* ===== verification/Lock_Manager.thy ===== *)
theory Lock_Manager
  imports Lease_Manager
begin

text \<open>
  The distributed locks of \<open>server/lock.go\<close>: a lock is an entry of a table that names a
  lease, and it is held as long as that lease is alive. The operations act on the table and
  on the server's lease manager, which other parts of the server change as well; the step
  relation interleaves both, and mutual exclusion is an invariant of it.
\<close>

section \<open>State\<close>

datatype lock_error = ErrLockNotHeld | ErrLockAlreadyHeld | ErrLockExpired

record lock_info =
  li_Key :: string
  li_LeaseID :: int
  li_OwnerID :: string
  li_AcquiredAt :: int
  li_watcherCh :: bool  \<comment> \<open>whether a channel has been made; nothing is ever sent on it\<close>

record lock_handle =
  lh_Key :: string
  lh_LeaseID :: int
  lh_OwnerID :: string

record lock_with_watch =
  lw_Key :: string
  lw_LeaseID :: int
  lw_OwnerID :: string
  lw_WatcherID :: int
  lw_WatcherCh :: bool

datatype try_lock_result = TryLockSuccess | TryLockContended | TryLockError

type_synonym locks = "(string, lock_info) gomap"

section \<open>Operations\<close>

definition NewLockManager :: locks where
  "NewLockManager = []"

definition Acquire ::
  "int \<Rightarrow> int \<Rightarrow> locks \<Rightarrow> lease_mgr \<Rightarrow> string \<Rightarrow> int \<Rightarrow> string \<Rightarrow>
   locks \<times> lease_mgr \<times> (lock_error + lock_handle)" where
  \<comment> \<open>\<open>now\<close> is the clock read by \<open>Grant\<close> and \<open>acquiredAt\<close> the one read afterwards\<close>
  "Acquire now acquiredAt lk le key ttl ownerID =
     (if (case map_of lk key of
            None \<Rightarrow> False
          | Some info \<Rightarrow> li_LeaseID info > 0 \<and> GetLease le (li_LeaseID info) \<noteq> None)
      then (lk, le, Inl ErrLockAlreadyHeld)
      else let ttl' = (if ttl \<le> 0 then 10 else ttl);
               (le', leaseID) = Grant now le ttl'
           in (AList.update key \<lparr>li_Key = key, li_LeaseID = leaseID, li_OwnerID = ownerID,
                 li_AcquiredAt = acquiredAt, li_watcherCh = False\<rparr> lk, le',
               Inr \<lparr>lh_Key = key, lh_LeaseID = leaseID, lh_OwnerID = ownerID\<rparr>))"

definition Release ::
  "locks \<Rightarrow> lease_mgr \<Rightarrow> string \<Rightarrow> int \<Rightarrow> string \<Rightarrow> locks \<times> lease_mgr \<times> lock_error option" where
  "Release lk le key leaseID ownerID =
     (case map_of lk key of
        None \<Rightarrow> (lk, le, Some ErrLockNotHeld)
      | Some info \<Rightarrow>
          if li_LeaseID info \<noteq> leaseID then (lk, le, Some ErrLockNotHeld)
          else if li_OwnerID info \<noteq> ownerID then (lk, le, Some ErrLockNotHeld)
          else let (le', keys) = RevokeLease le leaseID
               in if length keys = 0 \<and> GetLease le' leaseID = None
                  then (lk, le', Some ErrLockExpired)
                  else (AList.delete key lk, le', None))"

definition KeepAlive_check :: "locks \<Rightarrow> string \<Rightarrow> int \<Rightarrow> string \<Rightarrow> lock_error option" where
  \<comment> \<open>the part of \<open>KeepAlive\<close> that runs under the mutex of the lock table\<close>
  "KeepAlive_check lk key leaseID ownerID =
     (case map_of lk key of
        None \<Rightarrow> Some ErrLockNotHeld
      | Some info \<Rightarrow>
          if li_LeaseID info \<noteq> leaseID \<or> li_OwnerID info \<noteq> ownerID then Some ErrLockNotHeld else None)"

definition KeepAlive_lock ::
  "int \<Rightarrow> locks \<Rightarrow> lease_mgr \<Rightarrow> string \<Rightarrow> int \<Rightarrow> string \<Rightarrow> int \<Rightarrow> lease_mgr \<times> lock_error option" where
  "KeepAlive_lock now lk le key leaseID ownerID ttl =
     (case KeepAlive_check lk key leaseID ownerID of
        Some err \<Rightarrow> (le, Some err)
      | None \<Rightarrow>
          (let ttl' = (if ttl \<le> 0 then 10 else ttl);
               (le', ok) = KeepAlive now le leaseID ttl'
           in (le', if \<not> ok then Some ErrLockExpired else None)))"

definition GetLockStatus :: "locks \<Rightarrow> lease_mgr \<Rightarrow> string \<Rightarrow> locks \<times> bool \<times> int" where
  "GetLockStatus lk le key =
     (case map_of lk key of
        None \<Rightarrow> (lk, False, 0)
      | Some info \<Rightarrow>
          if GetLease le (li_LeaseID info) = None then (AList.delete key lk, False, 0)
          else (lk, True, li_LeaseID info))"

definition ListLocks :: "locks \<Rightarrow> string list" where
  "ListLocks lk = map fst lk"

definition OnLeaseExpired :: "locks \<Rightarrow> int \<Rightarrow> string list \<Rightarrow> locks" where
  "OnLeaseExpired lk leaseID keys =
     fold (\<lambda>key lk. case map_of lk key of
             None \<Rightarrow> lk
           | Some info \<Rightarrow> if li_LeaseID info = leaseID then AList.delete key lk else lk) keys lk"

definition TryAcquire ::
  "int \<Rightarrow> int \<Rightarrow> locks \<Rightarrow> lease_mgr \<Rightarrow> string \<Rightarrow> int \<Rightarrow> string \<Rightarrow> bool \<Rightarrow>
   locks \<times> lease_mgr \<times> lock_with_watch option \<times> try_lock_result" where
  "TryAcquire now acquiredAt lk le key ttl ownerID wait =
     (case Acquire now acquiredAt lk le key ttl ownerID of
        (lk1, le1, Inl err) \<Rightarrow>
          if err = ErrLockAlreadyHeld
          then if wait
               then (case map_of lk1 key of
                       None \<Rightarrow> lk1
                     | Some info \<Rightarrow> AList.update key (info\<lparr>li_watcherCh := True\<rparr>) lk1, le1,
                     Some \<lparr>lw_Key = key, lw_LeaseID = 0, lw_OwnerID = ownerID, lw_WatcherID = 0, lw_WatcherCh = True\<rparr>,
                     TryLockContended)
               else (lk1, le1, None, TryLockContended)
          else (lk1, le1, None, TryLockError)
      | (lk1, le1, Inr handle) \<Rightarrow>
          (lk1, le1,
           Some \<lparr>lw_Key = key, lw_LeaseID = lh_LeaseID handle, lw_OwnerID = ownerID, lw_WatcherID = 0, lw_WatcherCh = False\<rparr>,
           TryLockSuccess))"

definition GetLockInfo :: "locks \<Rightarrow> string \<Rightarrow> lock_info option" where
  "GetLockInfo lk key = map_of lk key"

definition lock_error_text :: "lock_error \<Rightarrow> string" where
  "lock_error_text err =
     (case err of
        ErrLockNotHeld \<Rightarrow> ''lock not held''
      | ErrLockAlreadyHeld \<Rightarrow> ''lock already held by another client''
      | ErrLockExpired \<Rightarrow> ''lock expired'')"

definition jname :: "string \<Rightarrow> string" where
  \<comment> \<open>a member name of the format strings, with its quotes and colon\<close>
  "jname n = CHR 0x22 # n @ [CHR 0x22, CHR '':'']"

definition FormatLockResponse :: "lock_handle \<Rightarrow> lock_error option \<Rightarrow> string" where
  \<comment> \<open>the keys and owners are copied into the text as they are, without JSON escaping\<close>
  "FormatLockResponse handle err =
     (case err of
        Some e \<Rightarrow> CHR ''{'' # jname ''ok'' @ ''false,'' @ jname ''error'' @ [CHR 0x22] @ lock_error_text e @ [CHR 0x22] @ ''}''
      | None \<Rightarrow>
          CHR ''{'' # jname ''ok'' @ ''true,'' @ jname ''key'' @ [CHR 0x22] @ lh_Key handle @ [CHR 0x22] @ '','' @
          jname ''lease_id'' @ itoa (lh_LeaseID handle) @ '','' @
          jname ''owner_id'' @ [CHR 0x22] @ lh_OwnerID handle @ [CHR 0x22] @ ''}'')"

section \<open>Interleavings of the lock operations with the rest of the server\<close>

text \<open>
  A state holds the lock table, the lease manager and, as history, the handles that have been
  returned to clients. Each operation is one step; a \<open>lease\<close> step is whatever the state machine
  or the expiry of leases does to the lease manager in between.
\<close>

type_synonym lock_state = "locks \<times> lease_mgr \<times> lock_handle list"

inductive lock_step :: "lock_state \<Rightarrow> lock_state \<Rightarrow> bool" where
  acquire: "Acquire now at lk le key ttl owner = (lk', le', r) \<Longrightarrow>
    lock_step (lk, le, hs) (lk', le', case r of Inl _ \<Rightarrow> hs | Inr h \<Rightarrow> h # hs)"
| release: "Release lk le key a owner = (lk', le', r) \<Longrightarrow> lock_step (lk, le, hs) (lk', le', hs)"
| keepalive: "KeepAlive_lock now lk le key a owner ttl = (le', r) \<Longrightarrow> lock_step (lk, le, hs) (lk, le', hs)"
| status: "GetLockStatus lk le key = (lk', b, a) \<Longrightarrow> lock_step (lk, le, hs) (lk', le, hs)"
| mark: "map_of lk key = Some info \<Longrightarrow>
    lock_step (lk, le, hs) (AList.update key (info\<lparr>li_watcherCh := True\<rparr>) lk, le, hs)"
| lease: "lock_step (lk, le, hs) (lk, lease_step op le, hs)"

definition lock_init :: lock_state where
  "lock_init = (NewLockManager, NewLeaseManager, [])"

definition alive :: "lease_mgr \<Rightarrow> int \<Rightarrow> bool" where
  "alive le a \<longleftrightarrow> GetLease le a \<noteq> None"

definition holds_lock :: "locks \<Rightarrow> lock_handle \<Rightarrow> bool" where
  "holds_lock lk h \<longleftrightarrow> (case map_of lk (lh_Key h) of
     None \<Rightarrow> False | Some info \<Rightarrow> li_LeaseID info = lh_LeaseID h \<and> li_OwnerID info = lh_OwnerID h)"

fun lock_inv :: "lock_state \<Rightarrow> bool" where
  "lock_inv (lk, le, hs) \<longleftrightarrow> lm_ok le \<and>
     (\<forall>h \<in> set hs. 0 < lh_LeaseID h \<and> lh_LeaseID h \<le> lm_leaseID le \<and>
        (alive le (lh_LeaseID h) \<longrightarrow> holds_lock lk h))"

text \<open>Lease ids are not reused: an operation brings no lease of an old id back to life.\<close>

lemma alive_view: "alive le a \<longleftrightarrow> lease_view le a \<noteq> None"
  by (simp add: alive_def GetLease_def lease_view_def)

lemma Revoke_alive: "lm_ok le \<Longrightarrow> alive (fst (Revoke le k)) a \<longleftrightarrow> alive le a"
  by (cases rule: Revoke_cases [of le k]) (auto simp: alive_def GetLease_def map_of_gomap_update)

lemma alive_step:
  assumes "lm_ok le" and "a \<le> lm_leaseID le" and "alive (lease_step op le) a"
  shows "alive le a"
proof (cases op)
  case (OpGrant ttl e)
  then show ?thesis using assms by (auto simp: alive_view view_GrantUntil split: if_splits)
next
  case (OpRevokeKey k)
  then show ?thesis using assms by (simp add: Revoke_alive)
next
  case (OpRevokeIfMatches b e)
  then show ?thesis using assms
    by (auto simp: RevokeLeaseIfMatches_def alive_view view_revokeLeaseLocked split: option.splits if_splits)
next
  case (OpRemoveExpired now)
  then show ?thesis using assms
    by (auto simp: RemoveExpired_revoke alive_view view_revokeLeaseLocked split: option.splits if_splits)
qed (use assms in \<open>auto simp: alive_view view_Attach view_KeepAliveUntil view_revokeLeaseLocked
    RevokeLease_def split: option.splits if_splits\<close>)

lemma counter_step: "lm_ok le \<Longrightarrow> lm_leaseID le \<le> lm_leaseID (lease_step op le)"
  by (cases op) (auto simp: lm_counter RevokeLease_def RevokeLeaseIfMatches_def RemoveExpired_revoke
      split: option.splits)

lemma lock_inv_lease:
  assumes "lock_inv (lk, le, hs)"
  shows "lock_inv (lk, lease_step op le, hs)"
  using assms alive_step [of le _ op] counter_step [of le op] lm_ok_step [of le op]
  by (auto intro: order_trans)

lemma KeepAlive_lock_step:
  "KeepAlive_lock now lk le key a owner ttl = (le', r) \<Longrightarrow> le' = le \<or> (\<exists>op. le' = lease_step op le)"
  by (auto simp: KeepAlive_lock_def KeepAlive_def Let_def split: option.splits prod.splits
      intro: exI [of _ "OpKeepAlive a (if ttl \<le> 0 then 10 else ttl) (deadline now (if ttl \<le> 0 then 10 else ttl))"])

lemma holds_other: "key \<noteq> lh_Key h \<Longrightarrow> holds_lock (AList.update key info lk) h = holds_lock lk h"
  "key \<noteq> lh_Key h \<Longrightarrow> holds_lock (AList.delete key lk) h = holds_lock lk h"
  by (simp_all add: holds_lock_def map_of_gomap_update map_of_gomap_delete)

lemma Acquire_refused:
  assumes "holds_lock lk h" and "0 < lh_LeaseID h" and "alive le (lh_LeaseID h)"
  shows "Acquire now at lk le (lh_Key h) ttl owner = (lk, le, Inl ErrLockAlreadyHeld)"
  using assms by (auto simp: Acquire_def holds_lock_def alive_def split: option.splits)

lemma lock_inv_acquire:
  assumes inv: "lock_inv (lk, le, hs)" and acq: "Acquire now at lk le key ttl owner = (lk', le', r)"
  shows "lock_inv (lk', le', case r of Inl _ \<Rightarrow> hs | Inr h \<Rightarrow> h # hs)"
proof (cases r)
  case (Inl err)
  then have "lk' = lk \<and> le' = le" using acq by (auto simp: Acquire_def Let_def split: if_splits prod.splits)
  then show ?thesis using inv Inl by simp
next
  case (Inr h)
  define t where "t = (if ttl \<le> 0 then 10 else ttl)"
  let ?e = "deadline now t" and ?n = "lm_leaseID le + 1"
  have free: "\<not> alive le (lh_LeaseID g)" if "g \<in> set hs" "lh_Key g = key" for g
  proof
    assume live: "alive le (lh_LeaseID g)"
    then have "holds_lock lk g" "0 < lh_LeaseID g" using inv that(1) by simp_all
    from Acquire_refused [OF this live] show False using acq Inr that(2) by simp
  qed
  have gr: "Grant now le t = (lease_step (OpGrant t ?e) le, ?n)"
    by (simp add: Grant_def GrantUntil_def Let_def)
  have le': "le' = lease_step (OpGrant t ?e) le" and h: "h = \<lparr>lh_Key = key, lh_LeaseID = ?n, lh_OwnerID = owner\<rparr>"
    and lk': "lk' = AList.update key \<lparr>li_Key = key, li_LeaseID = ?n, li_OwnerID = owner,
       li_AcquiredAt = at, li_watcherCh = False\<rparr> lk"
    using acq Inr gr by (auto simp: Acquire_def Let_def t_def split: if_splits)
  have "lock_inv (lk, le', hs)" unfolding le' by (rule lock_inv_lease [OF inv])
  moreover have "holds_lock lk' h" by (simp add: h lk' holds_lock_def map_of_gomap_update)
  moreover have "lm_leaseID le' = ?n" by (simp add: le' lm_counter)
  moreover have "0 \<le> lm_leaseID le" using inv by (simp add: lm_ok_counter)
  moreover have "holds_lock lk' g" if "g \<in> set hs" "alive le' (lh_LeaseID g)" "holds_lock lk g" for g
  proof -
    have "alive le (lh_LeaseID g)"
      using alive_step [of le "lh_LeaseID g" "OpGrant t ?e"] inv that le' by auto
    then have "lh_Key g \<noteq> key" using free that(1) by blast
    then show ?thesis using that(3) by (simp add: lk' holds_other)
  qed
  ultimately show ?thesis using Inr h by auto
qed

lemma lock_inv_release:
  assumes inv: "lock_inv (lk, le, hs)" and rel: "Release lk le key a owner = (lk', le', r)"
  shows "lock_inv (lk', le', hs)"
proof (cases "lk' = lk")
  case True
  have "le' = le \<or> le' = lease_step (OpRevokeLease a) le"
    using rel by (auto simp: Release_def split: option.splits if_splits prod.splits)
  then show ?thesis using inv lock_inv_lease [OF inv, of "OpRevokeLease a"] True by blast
next
  case False
  then obtain info where info: "map_of lk key = Some info" "li_LeaseID info = a"
    and lk': "lk' = AList.delete key lk" and le': "le' = lease_step (OpRevokeLease a) le"
    using rel by (auto simp: Release_def split: option.splits if_splits prod.splits)
  have gone: "\<not> alive le' a" by (simp add: le' alive_view RevokeLease_def view_revokeLeaseLocked)
  have inv': "lock_inv (lk, le', hs)" unfolding le' by (rule lock_inv_lease [OF inv])
  have "holds_lock lk' h" if "h \<in> set hs" "alive le' (lh_LeaseID h)" for h
  proof -
    have "holds_lock lk h" using inv' that by simp
    moreover from this have "lh_Key h \<noteq> key" using info gone that(2) by (auto simp: holds_lock_def)
    ultimately show ?thesis by (simp add: lk' holds_other)
  qed
  then show ?thesis using inv' by simp
qed

lemma lock_inv_step: "lock_step s s' \<Longrightarrow> lock_inv s \<Longrightarrow> lock_inv s'"
proof (induction rule: lock_step.induct)
  case (acquire now at lk le key ttl owner lk' le' r hs)
  show ?case by (rule lock_inv_acquire [OF acquire(2,1)])
next
  case (release lk le key a owner lk' le' r hs)
  show ?case by (rule lock_inv_release [OF release(2,1)])
next
  case (keepalive now lk le key a owner ttl le' r hs)
  from KeepAlive_lock_step [OF keepalive(1)] show ?case
  proof (elim disjE exE)
    show ?case if "le' = le" using keepalive(2) that by simp
    show ?case if "le' = lease_step op le" for op unfolding that by (rule lock_inv_lease [OF keepalive(2)])
  qed
next
  case (status lk le key lk' b a hs)
  have "holds_lock lk' h" if live: "alive le (lh_LeaseID h)" and held: "holds_lock lk h" for h
  proof (cases "lh_Key h = key")
    case True
    then obtain info where "map_of lk key = Some info" "li_LeaseID info = lh_LeaseID h"
      using held by (auto simp: holds_lock_def split: option.splits)
    then have "lk' = lk" using status(1) live by (auto simp: GetLockStatus_def alive_def)
    then show ?thesis using held by simp
  next
    case False
    have "lk' = lk \<or> lk' = AList.delete key lk"
      using status(1) by (auto simp: GetLockStatus_def split: option.splits if_splits)
    then show ?thesis using held False holds_other(2) by metis
  qed
  then show ?case using status(2) by simp
next
  case (mark lk key info le hs)
  have "holds_lock (AList.update key (info\<lparr>li_watcherCh := True\<rparr>) lk) h = holds_lock lk h" for h
    using mark(1) by (simp add: holds_lock_def map_of_gomap_update)
  then show ?case using mark(2) by simp
next
  case (lease lk le hs op)
  then show ?case by (rule lock_inv_lease)
qed

lemma lock_inv_reach: "lock_step\<^sup>*\<^sup>* lock_init s \<Longrightarrow> lock_inv s"
  by (induction rule: rtranclp_induct) (simp_all add: lock_init_def lm_ok_New lock_inv_step)

section \<open>Properties\<close>

text \<open>
  C16: locks exclude each other. In every state that the lock operations reach, interleaved in
  any way with grants, renewals, expirations and revocations of leases, two handles that were
  given out for the same key and whose leases are both still alive are the same handle; and
  while the lease of a handle is alive, \<open>Acquire\<close> on its key is refused to everybody.
\<close>

theorem lock_mutual_exclusion:
  assumes "lock_step\<^sup>*\<^sup>* lock_init (lk, le, hs)"
    and "h \<in> set hs" and "GetLease le (lh_LeaseID h) \<noteq> None"
  shows "(\<forall>h' \<in> set hs. lh_Key h' = lh_Key h \<longrightarrow> GetLease le (lh_LeaseID h') \<noteq> None \<longrightarrow> h' = h) \<and>
    Acquire now at lk le (lh_Key h) ttl owner = (lk, le, Inl ErrLockAlreadyHeld)"
proof -
  note inv = lock_inv_reach [OF assms(1)]
  have holds: "holds_lock lk g" if "g \<in> set hs" "GetLease le (lh_LeaseID g) \<noteq> None" for g
    using inv that by (simp add: alive_def)
  have "h' = h" if "h' \<in> set hs" "lh_Key h' = lh_Key h" "GetLease le (lh_LeaseID h') \<noteq> None" for h'
    using holds [OF assms(2,3)] holds [OF that(1,3)] that(2)
    by (auto simp: holds_lock_def split: option.splits)
  moreover have "0 < lh_LeaseID h" using inv assms(2) by simp
  ultimately show ?thesis
    using Acquire_refused [OF holds [OF assms(2,3)]] assms(3) by (simp add: alive_def)
qed

theorem lock_mutual_exclusion_witness:
  "\<exists>lk le h. lock_step\<^sup>*\<^sup>* lock_init (lk, le, [h]) \<and> lh_Key h = ''m'' \<and>
     Acquire 5 6 lk le ''m'' 3 ''bob'' = (lk, le, Inl ErrLockAlreadyHeld)"
proof -
  define r where "r = Acquire 1 2 NewLockManager NewLeaseManager ''m'' 3 ''ann''"
  let ?h = "\<lparr>lh_Key = ''m'', lh_LeaseID = 1, lh_OwnerID = ''ann''\<rparr>"
  obtain lk le x where r: "r = (lk, le, x)" by (cases r)
  have x: "snd (snd r) = Inr ?h" and live: "GetLease (fst (snd r)) 1 \<noteq> None"
    unfolding r_def by code_simp+
  have "lock_step (NewLockManager, NewLeaseManager, []) (lk, le, case x of Inl _ \<Rightarrow> [] | Inr h \<Rightarrow> [h])"
    using r unfolding r_def by (rule lock_step.acquire)
  then have reach: "lock_step\<^sup>*\<^sup>* lock_init (lk, le, [?h])" using x r by (simp add: lock_init_def r_into_rtranclp)
  then have "Acquire 5 6 lk le (lh_Key ?h) 3 ''bob'' = (lk, le, Inl ErrLockAlreadyHeld)"
    using lock_mutual_exclusion [OF reach, of ?h 5 6 3 "''bob''"] live r by simp
  then have "lock_step\<^sup>*\<^sup>* lock_init (lk, le, [?h]) \<and> lh_Key ?h = ''m'' \<and>
      Acquire 5 6 lk le ''m'' 3 ''bob'' = (lk, le, Inl ErrLockAlreadyHeld)"
    using reach by simp
  then show ?thesis by blast
qed

text \<open>
  what \<open>Release\<close> does to a lock that the caller holds. The lease is revoked, so that the
  next \<open>Acquire\<close> of the key succeeds whoever asks, and no other lease is touched. But unless a
  key was attached to the lock's own lease the call reports \<open>lock expired\<close> and leaves the entry
  in the table: success is reported only for a lease that held keys.
\<close>

theorem lock_release_frees:
  assumes "lm_ok le" and "map_of lk key = Some info" and "GetLease le (li_LeaseID info) = Some l"
  shows "case Release lk le key (li_LeaseID info) (li_OwnerID info) of (lk', le', r) \<Rightarrow>
    lease_view le' = (lease_view le)(li_LeaseID info := None) \<and>
    (r = (if l_Keys l = [] then Some ErrLockExpired else None)) \<and>
    (lk' = (if l_Keys l = [] then lk else AList.delete key lk)) \<and>
    (\<exists>lk'' le'' h. Acquire now at lk' le' key ttl owner = (lk'', le'', Inr h) \<and>
       lh_Key h = key \<and> lh_OwnerID h = owner \<and> GetLease le'' (lh_LeaseID h) \<noteq> None)"
proof -
  let ?a = "li_LeaseID info"
  have l: "map_of (lm_leases le) ?a = Some l" using assms(3) by (simp add: GetLease_def)
  obtain le' keys where rv: "RevokeLease le ?a = (le', keys)" by fastforce
  have le': "lease_view le' = (lease_view le)(?a := None)"
    using view_revokeLeaseLocked [of le ?a] rv by (simp add: RevokeLease_def)
  have "length keys = length (l_Keys l)" using rv l by (auto simp: RevokeLease_def revokeLeaseLocked_def)
  then have keys: "keys = [] \<longleftrightarrow> l_Keys l = []" by (metis length_0_conv)
  have gone: "GetLease le' ?a = None" using le' alive_view [of le' ?a] by (simp add: alive_def)
  define lk' where "lk' = (if l_Keys l = [] then lk else AList.delete key lk)"
  have rel: "Release lk le key ?a (li_OwnerID info) =
      (lk', le', if l_Keys l = [] then Some ErrLockExpired else None)"
    using assms(2) rv gone keys by (simp add: Release_def lk'_def)
  have free: "map_of lk' key = None \<or> map_of lk' key = Some info"
    using assms(2) by (simp add: lk'_def map_of_gomap_delete)
  obtain le'' n where gr: "Grant now le' (if ttl \<le> 0 then 10 else ttl) = (le'', n)" by fastforce
  have "GetLease le'' n \<noteq> None"
    using gr by (auto simp: Grant_def GrantUntil_def Let_def GetLease_def map_of_gomap_update)
  moreover have "\<exists>lk''. Acquire now at lk' le' key ttl owner =
      (lk'', le'', Inr \<lparr>lh_Key = key, lh_LeaseID = n, lh_OwnerID = owner\<rparr>)"
    using free gone gr by (auto simp: Acquire_def Let_def)
  ultimately show ?thesis using rel le' by (auto simp: lk'_def)
qed

theorem lock_release_frees_witness:
  "case Acquire 1 2 NewLockManager NewLeaseManager ''m'' 3 ''ann'' of (lk, le, _) \<Rightarrow>
     lm_ok le \<and> snd (snd (Release lk le ''m'' 1 ''ann'')) = Some ErrLockExpired"
proof -
  let ?lk = "[(''m'', \<lparr>li_Key = ''m'', li_LeaseID = 1, li_OwnerID = ''ann'', li_AcquiredAt = 2, li_watcherCh = False\<rparr>)]"
  let ?le = "run_leases [OpGrant 3 3000000001]"
  let ?l = "\<lparr>l_ID = 1, l_TTL = 3, l_expireAt = 3000000001, l_Keys = []\<rparr>"
  have acq: "Acquire 1 2 NewLockManager NewLeaseManager ''m'' 3 ''ann'' =
      (?lk, ?le, Inr \<lparr>lh_Key = ''m'', lh_LeaseID = 1, lh_OwnerID = ''ann''\<rparr>)"
    by code_simp
  have l: "GetLease ?le 1 = Some ?l" by code_simp
  let ?info = "\<lparr>li_Key = ''m'', li_LeaseID = 1, li_OwnerID = ''ann'', li_AcquiredAt = 2, li_watcherCh = False\<rparr>"
  have "case Release ?lk ?le ''m'' (li_LeaseID ?info) (li_OwnerID ?info) of (lk', le', r) \<Rightarrow>
      lease_view le' = (lease_view ?le)(li_LeaseID ?info := None) \<and>
      (r = (if l_Keys ?l = [] then Some ErrLockExpired else None)) \<and>
      (lk' = (if l_Keys ?l = [] then ?lk else AList.delete ''m'' ?lk)) \<and>
      (\<exists>lk'' le'' h. Acquire 9 9 lk' le' ''m'' 3 ''bob'' = (lk'', le'', Inr h) \<and>
         lh_Key h = ''m'' \<and> lh_OwnerID h = ''bob'' \<and> GetLease le'' (lh_LeaseID h) \<noteq> None)"
    by (rule lock_release_frees [OF lm_ok_run]) (use l in simp_all)
  then have "snd (snd (Release ?lk ?le ''m'' 1 ''ann'')) = Some ErrLockExpired"
    by (auto split: prod.splits)
  then show ?thesis unfolding acq prod.case using lm_ok_run by blast
qed

end
