(* ===== verification/Raft_Log.thy ===== *)
theory Raft_Log
  imports Wj_Prelude "HOL-Library.Monad_Syntax"
begin

text \<open>
  The replicated log of \<open>raft/log.go\<close> and the loop with which a follower merges the entries
  of a request into it (\<open>raft/rpc.go\<close>). A nil pointer that is dereferenced and a slice
  expression out of range are panics, the value \<open>None\<close>. The commands are opaque to Raft: they
  are the type variable \<open>'c\<close>.
\<close>

named_theorems raft_log \<open>effect of the log operations on indexes and entries\<close>

section \<open>Entries, logs and slices\<close>

record 'c entry =
  e_Term :: int
  e_Command :: 'c

record 'c raft_log =
  l_Entries :: "'c entry list"
  l_FirstLogIndex :: int
  l_LastLogIndex :: int

definition NewLog :: "'c raft_log" where
  "NewLog = \<lparr>l_Entries = [], l_FirstLogIndex = 0, l_LastLogIndex = - 1\<rparr>"

definition slice_to :: "int \<Rightarrow> 'a list \<Rightarrow> 'a list option" where
  \<comment> \<open>\<open>xs[:k]\<close>; the spare capacity of a slice past its length is not modelled\<close>
  "slice_to k xs = (if 0 \<le> k \<and> k \<le> int (length xs) then Some (take (nat k) xs) else None)"

definition slice_from :: "int \<Rightarrow> 'a list \<Rightarrow> 'a list option" where
  \<comment> \<open>\<open>xs[k:]\<close>\<close>
  "slice_from k xs = (if 0 \<le> k \<and> k \<le> int (length xs) then Some (drop (nat k) xs) else None)"

definition getRealIndex :: "'c raft_log \<Rightarrow> int \<Rightarrow> int" where
  "getRealIndex lg index = index - l_FirstLogIndex lg"

definition getOneEntry :: "'c raft_log \<Rightarrow> int \<Rightarrow> 'c entry option" where
  \<comment> \<open>\<open>None\<close> is the nil pointer\<close>
  "getOneEntry lg index =
     (let realIdx = getRealIndex lg index
      in if realIdx < 0 \<or> realIdx \<ge> int (length (l_Entries lg)) then None
         else Some (l_Entries lg ! nat realIdx))"

definition appendL :: "'c entry list \<Rightarrow> 'c raft_log \<Rightarrow> 'c raft_log option" where
  "appendL newEntries lg =
     do { kept \<leftarrow> slice_to (getRealIndex lg (l_LastLogIndex lg) + 1) (l_Entries lg);
          Some (lg\<lparr>l_Entries := kept @ newEntries,
                   l_LastLogIndex := l_LastLogIndex lg + int (length newEntries)\<rparr>) }"

definition getAppendEntries :: "'c raft_log \<Rightarrow> int \<Rightarrow> 'c entry list" where
  "getAppendEntries lg start =
     (if l_FirstLogIndex lg > l_LastLogIndex lg then []
      else if start > l_LastLogIndex lg then []
      else (let startIdx0 = getRealIndex lg start;
                endIdx0 = getRealIndex lg (l_LastLogIndex lg);
                startIdx = (if startIdx0 < 0 then 0 else startIdx0);
                endIdx = (if endIdx0 \<ge> int (length (l_Entries lg))
                          then int (length (l_Entries lg)) - 1 else endIdx0)
            in if startIdx > endIdx then []
               else drop (nat startIdx) (take (nat (endIdx + 1)) (l_Entries lg))))"

definition log_empty :: "'c raft_log \<Rightarrow> bool" where
  "log_empty lg \<longleftrightarrow> l_FirstLogIndex lg > l_LastLogIndex lg"

section \<open>Merging the entries of a request\<close>

fun append_loop :: "'c entry list \<Rightarrow> int \<Rightarrow> 'c raft_log \<Rightarrow> 'c raft_log option" where
  \<comment> \<open>the \<open>for\<close> loop of \<open>handleAppendEntriesRPC\<close>; \<open>idx\<close> before its increment\<close>
  "append_loop [] idx lg = Some lg"
| "append_loop (entry # entries) idx lg =
     (if idx + 1 < l_FirstLogIndex lg then append_loop entries (idx + 1) lg
      else if idx + 1 \<le> l_LastLogIndex lg
      then do { old \<leftarrow> getOneEntry lg (idx + 1);
                if e_Term old \<noteq> e_Term entry
                then do { kept \<leftarrow> slice_to (getRealIndex lg (idx + 1)) (l_Entries lg);
                          append_loop entries (idx + 1)
                            (lg\<lparr>l_Entries := kept @ [entry], l_LastLogIndex := idx + 1\<rparr>) }
                else append_loop entries (idx + 1) lg }
      else append_loop entries (idx + 1)
             (lg\<lparr>l_Entries := l_Entries lg @ [entry], l_LastLogIndex := l_LastLogIndex lg + 1\<rparr>))"

text \<open>The reference: keep the longest common run of terms, then take the new entries.\<close>

fun reconcile :: "'c entry list \<Rightarrow> 'c entry list \<Rightarrow> 'c entry list" where
  "reconcile old [] = old"
| "reconcile [] new = new"
| "reconcile (x # old) (y # new) =
     (if e_Term x = e_Term y then x # reconcile old new else y # new)"

section \<open>Well-formed logs\<close>

definition log_ok :: "'c raft_log \<Rightarrow> bool" where
  "log_ok lg \<longleftrightarrow>
     0 \<le> l_FirstLogIndex lg \<and>
     int (length (l_Entries lg)) = l_LastLogIndex lg - l_FirstLogIndex lg + 1"

definition log_of :: "int \<Rightarrow> 'c entry list \<Rightarrow> 'c raft_log" where
  \<comment> \<open>the log that holds the entries from the given first index on\<close>
  "log_of first es =
     \<lparr>l_Entries = es, l_FirstLogIndex = first, l_LastLogIndex = first + int (length es) - 1\<rparr>"

lemma log_ok_NewLog [simp]: "log_ok NewLog"
  by (simp add: log_ok_def NewLog_def)

lemma log_of_simps [simp, raft_log]:
  "l_Entries (log_of f es) = es" "l_FirstLogIndex (log_of f es) = f"
  "l_LastLogIndex (log_of f es) = f + int (length es) - 1"
  by (simp_all add: log_of_def)

lemma log_ok_log_of: "log_ok lg \<longleftrightarrow> 0 \<le> l_FirstLogIndex lg \<and> lg = log_of (l_FirstLogIndex lg) (l_Entries lg)"
  by (cases lg) (auto simp: log_ok_def log_of_def)

lemma log_ok_of [simp]: "log_ok (log_of f es) \<longleftrightarrow> 0 \<le> f"
  by (simp add: log_ok_def)

lemma log_of_cases:
  assumes "log_ok lg"
  obtains f es where "0 \<le> f" "lg = log_of f es"
  using assms log_ok_log_of that by blast

lemma slice_to_Some [simp]: "slice_to (int k) xs = Some (take k xs) \<longleftrightarrow> k \<le> length xs"
  by (simp add: slice_to_def)

lemma appendL_ok [raft_log]: "appendL new (log_of f es) = Some (log_of f (es @ new))"
  by (simp add: appendL_def getRealIndex_def log_of_def slice_to_def)

lemma getOneEntry_of [raft_log]:
  "getOneEntry (log_of f es) i =
     (if f \<le> i \<and> i < f + int (length es) then Some (es ! nat (i - f)) else None)"
  by (auto simp: getOneEntry_def getRealIndex_def Let_def)

lemma getOneEntry_Some_iff:
  "log_ok lg \<Longrightarrow> getOneEntry lg i \<noteq> None \<longleftrightarrow> l_FirstLogIndex lg \<le> i \<and> i \<le> l_LastLogIndex lg"
  by (auto elim!: log_of_cases simp: raft_log split: if_splits)

lemma getAppendEntries_of [raft_log]:
  "f \<le> i \<Longrightarrow> getAppendEntries (log_of f es) i = drop (nat (i - f)) es"
  by (auto simp: getAppendEntries_def getRealIndex_def Let_def)

lemma reconcile_Nil [simp]: "reconcile [] new = new"
  by (cases new) simp_all

lemma take_snoc_nth: "k < length xs \<Longrightarrow> take k xs @ [y] = take (Suc k) (xs[k := y])"
  by (simp add: take_Suc_conv_app_nth)

text \<open>The loop computes the reference, whenever the entries continue the log.\<close>

lemma append_loop_append:
  "i = f + int (length es) - 1 \<Longrightarrow> append_loop new i (log_of f es) = Some (log_of f (es @ new))"
proof (induction new arbitrary: i es)
  case (Cons y new)
  have "append_loop (y # new) i (log_of f es) = append_loop new (i + 1) (log_of f (es @ [y]))"
    using Cons.prems by (simp add: log_of_def)
  then show ?case using Cons.IH[of "i + 1" "es @ [y]"] Cons.prems by simp
qed simp

lemma append_loop_reconcile:
  assumes "k \<le> length es"
  shows "append_loop new (f + int k - 1) (log_of f es) =
           Some (log_of f (take k es @ reconcile (drop k es) new))"
  using assms
proof (induction new arbitrary: k)
  case (Cons y new)
  have idx: "f + int k - 1 + 1 = f + int (Suc k) - 1" by simp
  show ?case
  proof (cases "k < length es")
    case True
    have old: "getOneEntry (log_of f es) (f + int k) = Some (es ! k)"
      using True by (simp add: raft_log)
    have drop: "drop k es = es ! k # drop (Suc k) es" by (rule Cons_nth_drop_Suc[symmetric, OF True])
    show ?thesis
    proof (cases "e_Term (es ! k) = e_Term y")
      case same: True
      have "append_loop (y # new) (f + int k - 1) (log_of f es) =
              append_loop new (f + int (Suc k) - 1) (log_of f es)"
        using True old same by (simp add: idx del: of_nat_Suc) (simp add: algebra_simps)
      also have "\<dots> = Some (log_of f (take (Suc k) es @ reconcile (drop (Suc k) es) new))"
        using Cons.IH[of "Suc k"] True by simp
      finally show ?thesis using True same by (simp add: drop take_Suc_conv_app_nth)
    next
      case False
      have cut: "slice_to (getRealIndex (log_of f es) (f + int k)) es = Some (take k es)"
        using True by (simp add: getRealIndex_def slice_to_def)
      have "append_loop (y # new) (f + int k - 1) (log_of f es) =
              append_loop new (f + int k) (log_of f (take k es @ [y]))"
        using True old False cut by (simp add: log_of_def)
      also have "\<dots> = Some (log_of f ((take k es @ [y]) @ new))"
        by (rule append_loop_append) (use True in simp)
      finally show ?thesis using False by (simp add: drop)
    qed
  next
    case False
    then have "k = length es" using Cons.prems by simp
    then show ?thesis using append_loop_append[of "f + int k - 1" f es "y # new"] by simp
  qed
qed simp

text \<open>Entries below the first index are skipped: the log holds them in its snapshot.\<close>

lemma append_loop_skip:
  "i + int (length pre) < f \<Longrightarrow>
     append_loop (pre @ new) i (log_of f es) = append_loop new (i + int (length pre)) (log_of f es)"
  by (induction pre arbitrary: i) (simp_all add: algebra_simps)

lemma append_loop_ok:
  "log_ok lg \<Longrightarrow> \<exists>lg'. append_loop new i lg = Some lg' \<and> log_ok lg' \<and> l_FirstLogIndex lg' = l_FirstLogIndex lg"
proof (induction new arbitrary: i lg)
  case (Cons y new)
  obtain f es where lg: "0 \<le> f" "lg = log_of f es" using Cons.prems by (rule log_of_cases)
  have step: "\<exists>es'. append_loop (y # new) i lg = append_loop new (i + 1) (log_of f es')"
  proof -
    have old: "f \<le> i + 1 \<Longrightarrow> i + 1 < f + int (length es) \<Longrightarrow>
                 getOneEntry (log_of f es) (i + 1) = Some (es ! nat (i + 1 - f))" for i
      by (simp add: raft_log)
    have cut: "f \<le> i + 1 \<Longrightarrow> i + 1 < f + int (length es) \<Longrightarrow>
       slice_to (getRealIndex (log_of f es) (i + 1)) es = Some (take (nat (i + 1 - f)) es)" for i
      by (simp add: getRealIndex_def slice_to_def)
    consider "i + 1 < f" | "f \<le> i + 1" "i + 1 < f + int (length es)" | "f \<le> i + 1" "f + int (length es) \<le> i + 1"
      by linarith
    then show ?thesis
    proof cases
      case 1 then show ?thesis by (auto simp: lg)
    next
      case 2
      have upd: "(log_of f es)\<lparr>l_Entries := take (nat (i + 1 - f)) es @ [y], l_LastLogIndex := i + 1\<rparr> =
                   log_of f (take (nat (i + 1 - f)) es @ [y])"
        using 2 by (simp add: log_of_def)
      have "append_loop (y # new) i lg =
              append_loop new (i + 1)
                (if e_Term (es ! nat (i + 1 - f)) \<noteq> e_Term y then log_of f (take (nat (i + 1 - f)) es @ [y])
                 else log_of f es)"
        unfolding upd[symmetric] using 2 old[OF 2] cut[OF 2] by (simp add: lg)
      then show ?thesis by (simp split: if_splits) blast+
    next
      case 3
      have upd: "(log_of f es)\<lparr>l_Entries := es @ [y], l_LastLogIndex := f + int (length es)\<rparr> = log_of f (es @ [y])"
        by (simp add: log_of_def)
      have "append_loop (y # new) i lg = append_loop new (i + 1) (log_of f (es @ [y]))"
        unfolding upd[symmetric] using 3 by (simp add: lg)
      then show ?thesis by blast
    qed
  qed
  then obtain es' where "append_loop (y # new) i lg = append_loop new (i + 1) (log_of f es')" by blast
  then show ?case using Cons.IH[of "log_of f es'" "i + 1"] lg by simp
qed simp

end
