(* ===== verification/Raft_Node.thy ===== *)
theory Raft_Node
  imports Raft_Log
begin

text \<open>
  One Raft peer (\<open>raft/raft.go\<close>, \<open>leader_election.go\<close>, \<open>log_replication.go\<close>, \<open>rpc.go\<close>,
  \<open>snapshot.go\<close>, \<open>tracker.go\<close>, \<open>util.go\<close>, \<open>persister.go\<close>): its state and every handler. Each
  section of code that runs under \<open>rf.Mu\<close> is one function on the state. A goroutine that it
  starts is a value of type \<open>spawn\<close> in its result; a call over the network splits the code
  that makes it into the part before the call and the part that takes the reply. The clock
  and the random number of a timer reset are the argument \<open>clk\<close>. \<open>applyCond.Broadcast\<close> sets
  a flag that the waiting goroutine of \<open>sendMsgToTester\<close> clears. A panic is \<open>None\<close>.
\<close>

section \<open>The channel to the service\<close>

record 'c raft_msg =
  rm_CommandValid :: bool
  rm_Command :: "'c option"     \<comment> \<open>\<open>None\<close> is nil\<close>
  rm_CommandIndex :: int
  rm_SnapshotValid :: bool
  rm_Snapshot :: string
  rm_SnapshotTerm :: int
  rm_SnapshotIndex :: int

record 'c apply_helper =
  ah_applyCh :: "'c raft_msg list"  \<comment> \<open>the messages sent on the channel so far\<close>
  ah_lastItemIndex :: int
  ah_q :: "'c raft_msg list"
  ah_done :: bool
  ah_dead :: bool

definition NewApplyHelper :: "int \<Rightarrow> 'c apply_helper" where
  "NewApplyHelper lastApplied =
     \<lparr>ah_applyCh = [], ah_lastItemIndex = lastApplied, ah_q = [], ah_done = False, ah_dead = False\<rparr>"

definition tryApply :: "'c raft_msg \<Rightarrow> 'c apply_helper \<Rightarrow> 'c apply_helper option" where
  "tryApply msg h =
     (if rm_CommandValid msg
      then (if rm_CommandIndex msg \<le> ah_lastItemIndex h then Some h
            else if rm_CommandIndex msg = ah_lastItemIndex h + 1
            then Some (h\<lparr>ah_q := ah_q h @ [msg], ah_lastItemIndex := ah_lastItemIndex h + 1\<rparr>)
            else None)
      else if rm_SnapshotValid msg
      then (if rm_SnapshotIndex msg \<le> ah_lastItemIndex h then Some h
            else Some (h\<lparr>ah_q := ah_q h @ [msg], ah_lastItemIndex := rm_SnapshotIndex msg\<rparr>))
      else None)"

definition applier :: "'c apply_helper \<Rightarrow> 'c apply_helper" where
  \<comment> \<open>one round of the loop, or the wait for a message\<close>
  "applier h =
     (if ah_done h then h
      else case ah_q h of
          [] \<Rightarrow> if ah_dead h then h\<lparr>ah_done := True\<rparr> else h
        | msg # q \<Rightarrow> h\<lparr>ah_q := q, ah_applyCh := ah_applyCh h @ [msg]\<rparr>)"

definition helper_Kill :: "'c apply_helper \<Rightarrow> 'c apply_helper" where
  "helper_Kill h = h\<lparr>ah_dead := True\<rparr>"

section \<open>Stable storage\<close>

text \<open>
  The bytes that \<open>persist\<close> writes are kept as the values it hands to the encoder.
\<close>

record 'c raft_state =
  p_CurrentTerm :: int
  p_votedFor :: int
  p_log :: "'c raft_log"
  p_snapshotLastIncludeIndex :: int
  p_snapshotLastIncludeTerm :: int

record 'c persister =
  ps_raftstate :: "'c raft_state option"  \<comment> \<open>\<open>None\<close> is the empty byte slice\<close>
  ps_snapshot :: string

definition MakePersister :: "'c persister" where
  "MakePersister = \<lparr>ps_raftstate = None, ps_snapshot = []\<rparr>"

definition SaveRaftState :: "'c raft_state \<Rightarrow> 'c persister \<Rightarrow> 'c persister" where
  "SaveRaftState st ps = ps\<lparr>ps_raftstate := Some st\<rparr>"

definition SaveStateAndSnapshot :: "'c raft_state \<Rightarrow> string \<Rightarrow> 'c persister \<Rightarrow> 'c persister" where
  "SaveStateAndSnapshot st snapshot ps = ps\<lparr>ps_raftstate := Some st, ps_snapshot := snapshot\<rparr>"

definition persister_Copy :: "'c persister \<Rightarrow> 'c persister" where
  "persister_Copy ps = MakePersister\<lparr>ps_raftstate := ps_raftstate ps, ps_snapshot := ps_snapshot ps\<rparr>"

definition SnapshotSize :: "'c persister \<Rightarrow> int" where
  "SnapshotSize ps = int (length (ps_snapshot ps))"

section \<open>The peer\<close>

datatype role = Follower | Candidate | Leader

record peer_tracker =
  t_nextIndex :: int
  t_matchIndex :: int
  t_lastAck :: int

record 'c raft =
  rf_peers :: "string list"
  rf_persister :: "'c persister"
  rf_me :: int
  rf_dead :: bool
  rf_State :: role
  rf_CurrentTerm :: int
  rf_votedFor :: int
  rf_electionTimeout :: int     \<comment> \<open>times and durations in nanoseconds\<close>
  rf_lastElection :: int
  rf_lastHeartbeat :: int
  rf_peerTrackers :: "peer_tracker list"
  rf_log :: "'c raft_log"
  rf_CommitIndex :: int
  rf_LastApplied :: int
  rf_ApplyHelper :: "'c apply_helper"
  rf_applyWake :: bool          \<comment> \<open>a \<open>Broadcast\<close> that the waiting goroutine has not taken yet\<close>
  rf_applySenderDone :: bool
  rf_snapshot :: string
  rf_snapshotLastIncludeIndex :: int
  rf_snapshotLastIncludeTerm :: int
  rf_electionVotes :: int
  rf_electionDone :: bool

record 'c append_args =
  aa_LeaderTerm :: int
  aa_LeaderId :: int
  aa_PrevLogIndex :: int
  aa_PrevLogTerm :: int
  aa_Entries :: "'c entry list"
  aa_LeaderCommit :: int

record append_reply =
  ar_FollowerTerm :: int
  ar_Success :: bool
  ar_PrevLogIndex :: int
  ar_PrevLogTerm :: int

record vote_args =
  va_Term :: int
  va_CandidateId :: int
  va_LastLogIndex :: int
  va_LastLogTerm :: int

record vote_reply =
  vr_Term :: int
  vr_VoteGranted :: bool

record install_args =
  ia_Term :: int
  ia_LeaderId :: int
  ia_LastIncludeIndex :: int
  ia_LastIncludeTerm :: int
  ia_Snapshot :: string

datatype spawn =
    GoRequestVote int string vote_args int   \<comment> \<open>peer index, address, arguments, term\<close>
  | GoStartAppendEntries bool
  | GoAppendEntries int bool
  | GoInstallSnapshot int

definition zero_append_reply :: append_reply where
  "zero_append_reply = \<lparr>ar_FollowerTerm = 0, ar_Success = False, ar_PrevLogIndex = 0, ar_PrevLogTerm = 0\<rparr>"

definition zero_append_args :: "'c append_args" where
  "zero_append_args =
     \<lparr>aa_LeaderTerm = 0, aa_LeaderId = 0, aa_PrevLogIndex = 0, aa_PrevLogTerm = 0,
      aa_Entries = [], aa_LeaderCommit = 0\<rparr>"

type_synonym clock = "int \<times> int"  \<comment> \<open>the time, and the number that \<open>rand.Int63\<close> returns\<close>

section \<open>Small operations\<close>

definition GetState :: "'c raft \<Rightarrow> int \<times> bool" where
  "GetState rf = (rf_CurrentTerm rf, rf_State rf = Leader)"

definition persist :: "'c raft \<Rightarrow> 'c raft" where
  "persist rf =
     (let data = \<lparr>p_CurrentTerm = rf_CurrentTerm rf, p_votedFor = rf_votedFor rf, p_log = rf_log rf,
                  p_snapshotLastIncludeIndex = rf_snapshotLastIncludeIndex rf,
                  p_snapshotLastIncludeTerm = rf_snapshotLastIncludeTerm rf\<rparr>
      in if rf_snapshotLastIncludeIndex rf > 0
         then rf\<lparr>rf_persister := SaveStateAndSnapshot data (rf_snapshot rf) (rf_persister rf)\<rparr>
         else rf\<lparr>rf_persister := SaveRaftState data (rf_persister rf)\<rparr>)"

definition resetElectionTimer :: "clock \<Rightarrow> 'c raft \<Rightarrow> 'c raft" where
  "resetElectionTimer clk rf =
     rf\<lparr>rf_electionTimeout := (1000 + snd clk mod 1000) * 1000000, rf_lastElection := fst clk\<rparr>"

definition resetHeartbeatTimer :: "clock \<Rightarrow> 'c raft \<Rightarrow> 'c raft" where
  "resetHeartbeatTimer clk rf = rf\<lparr>rf_lastHeartbeat := fst clk\<rparr>"

definition pastElectionTimeout :: "clock \<Rightarrow> 'c raft \<Rightarrow> bool" where
  "pastElectionTimeout clk rf \<longleftrightarrow> fst clk - rf_lastElection rf > rf_electionTimeout rf"

definition pastHeartbeatTimeout :: "clock \<Rightarrow> 'c raft \<Rightarrow> bool" where
  "pastHeartbeatTimeout clk rf \<longleftrightarrow> fst clk - rf_lastHeartbeat rf > 150 * 1000000"

definition resetTrackedIndex :: "'c raft \<Rightarrow> 'c raft" where
  "resetTrackedIndex rf =
     rf\<lparr>rf_peerTrackers :=
          map (\<lambda>t. t\<lparr>t_nextIndex := l_LastLogIndex (rf_log rf) + 1, t_matchIndex := 0\<rparr>) (rf_peerTrackers rf)\<rparr>"

definition quorumActive :: "int \<Rightarrow> 'c raft \<Rightarrow> bool" where
  "quorumActive now rf \<longleftrightarrow>
     2 * (1 + int (length (filter (\<lambda>(i, t). int i \<noteq> rf_me rf \<and> now - t_lastAck t \<le> 2 * 1000 * 1000000)
                                  (enumerate 0 (rf_peerTrackers rf)))))
       > int (length (rf_peers rf))"

definition getEntryTerm :: "'c raft \<Rightarrow> int \<Rightarrow> int option" where
  "getEntryTerm rf index =
     (if index = l_FirstLogIndex (rf_log rf) - 1 then Some (rf_snapshotLastIncludeTerm rf)
      else if index < l_FirstLogIndex (rf_log rf) \<or> index > l_LastLogIndex (rf_log rf) then Some (- 1)
      else map_option e_Term (getOneEntry (rf_log rf) index))"

definition getLastEntryTerm :: "'c raft \<Rightarrow> int" where
  "getLastEntryTerm rf =
     (if l_LastLogIndex (rf_log rf) \<ge> l_FirstLogIndex (rf_log rf)
      then (case getOneEntry (rf_log rf) (l_LastLogIndex (rf_log rf)) of
              None \<Rightarrow> 0 | Some entry \<Rightarrow> e_Term entry)
      else rf_snapshotLastIncludeTerm rf)"

section \<open>Elections\<close>

definition becomeCandidate :: "clock \<Rightarrow> 'c raft \<Rightarrow> 'c raft" where
  "becomeCandidate clk rf =
     (let rf1 = resetElectionTimer clk rf
      in rf1\<lparr>rf_State := Candidate, rf_CurrentTerm := rf_CurrentTerm rf1 + 1, rf_votedFor := rf_me rf1\<rparr>)"

definition StartElection :: "clock \<Rightarrow> 'c raft \<Rightarrow> 'c raft \<times> spawn list" where
  "StartElection clk rf =
     (let rf1 = becomeCandidate clk rf;
          tm = rf_CurrentTerm rf1;
          args = \<lparr>va_Term = rf_CurrentTerm rf1, va_CandidateId = rf_me rf1,
                  va_LastLogIndex = l_LastLogIndex (rf_log rf1), va_LastLogTerm = getLastEntryTerm rf1\<rparr>;
          rf2 = persist rf1;
          rf3 = rf2\<lparr>rf_electionVotes := 1, rf_electionDone := False\<rparr>
      in (rf3, map (\<lambda>(i, addr). GoRequestVote (int i) addr args tm)
                 (filter (\<lambda>(i, addr). rf_me rf3 \<noteq> int i) (enumerate 0 (rf_peers rf3)))))"

definition becomeLeader :: "clock \<Rightarrow> 'c raft \<Rightarrow> 'c raft \<times> spawn list" where
  "becomeLeader clk rf =
     (let rf1 = rf\<lparr>rf_State := Leader\<rparr>;
          rf2 = resetTrackedIndex rf1;
          rf3 = resetHeartbeatTimer clk rf2;
          rf4 = resetElectionTimer clk rf3
      in (rf4, [GoStartAppendEntries True]))"

definition election_reply ::
  "clock \<Rightarrow> bool \<Rightarrow> vote_reply \<Rightarrow> int \<Rightarrow> int \<Rightarrow> 'c raft \<Rightarrow> 'c raft \<times> spawn list" where
  \<comment> \<open>the goroutine of \<open>StartElection\<close>, from the return of \<open>sendRequestVote\<close> on\<close>
  "election_reply clk ok reply tm totalPeers rf =
     (if \<not> ok then (rf, [])
      else if rf_CurrentTerm rf \<noteq> tm then (rf, [])
      else if rf_State rf \<noteq> Candidate then (rf, [])
      else if rf_electionDone rf then (rf, [])
      else if vr_Term reply > rf_CurrentTerm rf
      then ((persist (rf\<lparr>rf_CurrentTerm := vr_Term reply, rf_State := Follower, rf_votedFor := - 1\<rparr>))
              \<lparr>rf_electionDone := True\<rparr>, [])
      else if vr_Term reply < rf_CurrentTerm rf then (rf, [])
      else if vr_VoteGranted reply
      then (let rf1 = rf\<lparr>rf_electionVotes := rf_electionVotes rf + 1\<rparr>
            in if \<not> rf_electionDone rf1 \<and> rf_electionVotes rf1 > totalPeers div 2
               then (let (rf2, go) = becomeLeader clk rf1 in (rf2\<lparr>rf_electionDone := True\<rparr>, go))
               else (rf1, []))
      else (rf, []))"

definition RequestVote :: "clock \<Rightarrow> vote_args \<Rightarrow> 'c raft \<Rightarrow> 'c raft \<times> vote_reply" where
  "RequestVote clk args rf =
     (if rf_dead rf then (rf, \<lparr>vr_Term = rf_CurrentTerm rf, vr_VoteGranted = False\<rparr>)
      else if va_Term args < rf_CurrentTerm rf
      then (persist rf, \<lparr>vr_Term = rf_CurrentTerm rf, vr_VoteGranted = False\<rparr>)
      else (let rf1 = (if va_Term args > rf_CurrentTerm rf
                       then persist (rf\<lparr>rf_CurrentTerm := va_Term args, rf_votedFor := - 1\<rparr>) else rf);
                update = (if l_LastLogIndex (rf_log rf1) < l_FirstLogIndex (rf_log rf1) then True
                          else va_LastLogTerm args > getLastEntryTerm rf1 \<or>
                               (va_LastLogTerm args = getLastEntryTerm rf1 \<and>
                                va_LastLogIndex args \<ge> l_LastLogIndex (rf_log rf1)))
            in if (rf_votedFor rf1 = - 1 \<or> rf_votedFor rf1 = va_CandidateId args) \<and> update
               then (let rf2 = rf1\<lparr>rf_votedFor := va_CandidateId args\<rparr>;
                         rf3 = persist (resetElectionTimer clk rf2)
                     in (resetElectionTimer clk rf3, \<lparr>vr_Term = rf_CurrentTerm rf1, vr_VoteGranted = True\<rparr>))
               else (resetElectionTimer clk rf1, \<lparr>vr_Term = rf_CurrentTerm rf1, vr_VoteGranted = False\<rparr>)))"

definition HandleHeartbeatRPC :: "clock \<Rightarrow> 'c append_args \<Rightarrow> 'c raft \<Rightarrow> 'c raft \<times> append_reply" where
  "HandleHeartbeatRPC clk args rf =
     (let reply = zero_append_reply\<lparr>ar_FollowerTerm := rf_CurrentTerm rf, ar_Success := True\<rparr>
      in if aa_LeaderTerm args < rf_CurrentTerm rf then (rf, reply\<lparr>ar_Success := False\<rparr>)
         else (let rf1 = (resetElectionTimer clk rf)\<lparr>rf_State := Follower\<rparr>
               in if aa_LeaderTerm args > rf_CurrentTerm rf1
                  then (let rf2 = rf1\<lparr>rf_votedFor := - 1, rf_CurrentTerm := aa_LeaderTerm args\<rparr>
                        in (persist rf2, reply\<lparr>ar_FollowerTerm := rf_CurrentTerm rf2\<rparr>))
                  else (persist rf1, reply)))"

section \<open>Replication: the follower\<close>

definition handleAppendEntriesRPC ::
  "clock \<Rightarrow> 'c append_args \<Rightarrow> 'c raft \<Rightarrow> ('c raft \<times> append_reply) option" where
  "handleAppendEntriesRPC clk args rf =
     (let reply = zero_append_reply\<lparr>ar_FollowerTerm := rf_CurrentTerm rf\<rparr>
      in if rf_dead rf then Some (rf, reply)
         else if aa_LeaderTerm args < rf_CurrentTerm rf then Some (rf, reply)
         else
           let rf1 = (if aa_LeaderTerm args > rf_CurrentTerm rf
                      then persist (rf\<lparr>rf_CurrentTerm := aa_LeaderTerm args, rf_votedFor := - 1\<rparr>) else rf);
               reply = reply\<lparr>ar_FollowerTerm := rf_CurrentTerm rf1\<rparr>;
               rf2 = resetElectionTimer clk (rf1\<lparr>rf_State := Follower\<rparr>);
               prev = aa_PrevLogIndex args
           in do {
             matches \<leftarrow> (if prev > 0
                        then (if l_LastLogIndex (rf_log rf2) < prev then Some False
                              else do { entry \<leftarrow> getOneEntry (rf_log rf2) prev;
                                        Some (e_Term entry = aa_PrevLogTerm args) })
                        else Some True);
             if \<not> matches then Some (rf2, reply)
             else do {
               lg \<leftarrow> append_loop (aa_Entries args) prev (rf_log rf2);
               let rf3 = rf2\<lparr>rf_log := lg\<rparr>;
                   rf4 = (if aa_LeaderCommit args > rf_CommitIndex rf3
                          then rf3\<lparr>rf_CommitIndex := min (aa_LeaderCommit args) (l_LastLogIndex lg),
                                   rf_applyWake := True\<rparr>
                          else rf3)
               in Some (rf4, reply\<lparr>ar_Success := True\<rparr>) } })"

function step_back :: "'c raft \<Rightarrow> int option \<Rightarrow> int \<Rightarrow> int option" where
  \<comment> \<open>the loops that walk back over the entries of one term; \<open>want\<close> is evaluated in every round\<close>
  "step_back rf want i =
     (if i \<ge> l_FirstLogIndex (rf_log rf)
      then do { tm \<leftarrow> getEntryTerm rf i; w \<leftarrow> want;
                if tm = w then step_back rf want (i - 1) else Some i }
      else Some i)"
  by auto

termination step_back
  by (relation "measure (\<lambda>(rf, want, i). nat (i - l_FirstLogIndex (rf_log rf) + 1))") auto

declare step_back.simps [simp del]

fun overwrite_loop :: "'c entry list \<Rightarrow> int \<Rightarrow> bool \<Rightarrow> 'c raft_log \<Rightarrow> ('c raft_log \<times> bool) option" where
  \<comment> \<open>the loop over \<open>args.Entries\<close> of \<open>HandleAppendEntriesRPC\<close>, with its flag \<open>ok\<close>\<close>
  "overwrite_loop [] index ok lg = Some (lg, ok)"
| "overwrite_loop (entry # entries) index ok lg =
     (if index > l_LastLogIndex lg
      then do { lg1 \<leftarrow> appendL [entry] lg; overwrite_loop entries (index + 1) ok lg1 }
      else do { old \<leftarrow> getOneEntry lg index;
                if e_Term old \<noteq> e_Term entry
                then overwrite_loop entries (index + 1) False
                       (lg\<lparr>l_Entries := (l_Entries lg)[nat (getRealIndex lg index) := entry]\<rparr>)
                else overwrite_loop entries (index + 1) ok lg })"

definition HandleAppendEntriesRPC ::
  "clock \<Rightarrow> 'c append_args \<Rightarrow> 'c raft \<Rightarrow> ('c raft \<times> append_reply) option" where
  "HandleAppendEntriesRPC clk args rf =
     (let reply = zero_append_reply\<lparr>ar_FollowerTerm := rf_CurrentTerm rf, ar_Success := True\<rparr>
      in if aa_LeaderTerm args < rf_CurrentTerm rf then Some (rf, reply\<lparr>ar_Success := False\<rparr>)
         else
           let rf1 = (resetElectionTimer clk rf)\<lparr>rf_State := Follower\<rparr>;
               rf2 = (if aa_LeaderTerm args > rf_CurrentTerm rf1
                      then rf1\<lparr>rf_votedFor := - 1, rf_CurrentTerm := aa_LeaderTerm args\<rparr> else rf1);
               prev = aa_PrevLogIndex args;
               answer = (\<lambda>rf success. (persist rf,
                  \<lparr>ar_FollowerTerm = rf_CurrentTerm rf, ar_Success = success,
                   ar_PrevLogIndex = l_LastLogIndex (rf_log rf), ar_PrevLogTerm = getLastEntryTerm rf\<rparr>))
           in if log_empty (rf_log rf2)
              then (if prev = rf_snapshotLastIncludeIndex rf2
                    then do { lg \<leftarrow> appendL (aa_Entries args) (rf_log rf2);
                              Some (answer (rf2\<lparr>rf_log := lg\<rparr>) True) }
                    else Some (answer rf2 False))
              else if prev + 1 < l_FirstLogIndex (rf_log rf2) \<or> prev > l_LastLogIndex (rf_log rf2)
              then Some (answer rf2 False)
              else do {
                tm \<leftarrow> getEntryTerm rf2 prev;
                if tm = aa_PrevLogTerm args
                then do {
                  (lg, ok) \<leftarrow> overwrite_loop (aa_Entries args) (prev + 1) True (rf_log rf2);
                  let lg = (if \<not> ok then lg\<lparr>l_LastLogIndex := prev + int (length (aa_Entries args))\<rparr> else lg);
                      rf3 = rf2\<lparr>rf_log := lg\<rparr>;
                      rf4 = (if aa_LeaderCommit args > rf_CommitIndex rf3
                             then rf3\<lparr>rf_CommitIndex :=
                                        (if aa_LeaderCommit args < l_LastLogIndex lg
                                         then aa_LeaderCommit args else l_LastLogIndex lg),
                                      rf_applyWake := True\<rparr>
                             else rf3)
                  in Some (answer rf4 True) }
                else do {
                  prevIndex \<leftarrow> step_back rf2 (map_option e_Term (getOneEntry (rf_log rf2) prev)) prev;
                  if prevIndex \<ge> l_FirstLogIndex (rf_log rf2)
                  then do { ptm \<leftarrow> getEntryTerm rf2 prevIndex;
                            Some (persist rf2,
                              \<lparr>ar_FollowerTerm = rf_CurrentTerm rf2, ar_Success = False,
                               ar_PrevLogIndex = prevIndex, ar_PrevLogTerm = ptm\<rparr>) }
                  else Some (persist rf2,
                         \<lparr>ar_FollowerTerm = rf_CurrentTerm rf2, ar_Success = False,
                          ar_PrevLogIndex = rf_snapshotLastIncludeIndex rf2,
                          ar_PrevLogTerm = rf_snapshotLastIncludeTerm rf2\<rparr>) } })"

section \<open>Replication: the leader\<close>

definition Start :: "'c \<Rightarrow> 'c raft \<Rightarrow> ('c raft \<times> (int \<times> int \<times> bool) \<times> spawn list) option" where
  "Start command rf =
     (if rf_State rf \<noteq> Leader then Some (rf, (- 1, rf_CurrentTerm rf, False), [])
      else do {
        lg \<leftarrow> appendL [\<lparr>e_Term = rf_CurrentTerm rf, e_Command = command\<rparr>] (rf_log rf);
        Some (persist (rf\<lparr>rf_log := lg\<rparr>),
              (l_LastLogIndex (rf_log rf) + 1, rf_CurrentTerm rf, True),
              [GoStartAppendEntries False]) })"

definition StartAppendEntries :: "clock \<Rightarrow> bool \<Rightarrow> 'c raft \<Rightarrow> 'c raft \<times> spawn list" where
  "StartAppendEntries clk heart rf =
     (let rf1 = resetElectionTimer clk rf
      in if rf_State rf1 \<noteq> Leader then (rf1, [])
         else (rf1, map (\<lambda>i. GoAppendEntries (int i) heart)
                      (filter (\<lambda>i. int i \<noteq> rf_me rf1 - 1) [0..<length (rf_peers rf1)])))"

definition tracker :: "'c raft \<Rightarrow> int \<Rightarrow> peer_tracker option" where
  \<comment> \<open>\<open>rf.peerTrackers[i]\<close>, a panic out of range\<close>
  "tracker rf i =
     (if 0 \<le> i \<and> i < int (length (rf_peerTrackers rf)) then Some (rf_peerTrackers rf ! nat i) else None)"

definition set_tracker :: "int \<Rightarrow> peer_tracker \<Rightarrow> 'c raft \<Rightarrow> 'c raft" where
  "set_tracker i t rf = rf\<lparr>rf_peerTrackers := (rf_peerTrackers rf)[nat i := t]\<rparr>"

definition heartbeat_send :: "'c raft \<Rightarrow> 'c append_args option" where
  \<comment> \<open>\<open>AppendEntries\<close> of a heartbeat, up to the call: the arguments it sends, if any\<close>
  "heartbeat_send rf =
     (if rf_State rf \<noteq> Leader then None
      else Some (zero_append_args\<lparr>aa_LeaderTerm := rf_CurrentTerm rf\<rparr>))"

definition entries_send ::
  "int \<Rightarrow> 'c raft \<Rightarrow> ('c append_args option \<times> spawn list) option" where
  \<comment> \<open>\<open>AppendEntries\<close> of entries, up to the call\<close>
  "entries_send target rf =
     (if rf_State rf \<noteq> Leader then Some (None, [])
      else do {
        t \<leftarrow> tracker rf target;
        let prev = min (l_LastLogIndex (rf_log rf)) (t_nextIndex t - 1)
        in if prev + 1 < l_FirstLogIndex (rf_log rf) then Some (None, [GoInstallSnapshot target])
           else do {
             prevTerm \<leftarrow> getEntryTerm rf prev;
             Some (Some \<lparr>aa_LeaderTerm = rf_CurrentTerm rf, aa_LeaderId = rf_me rf, aa_PrevLogIndex = prev,
                         aa_PrevLogTerm = prevTerm, aa_Entries = getAppendEntries (rf_log rf) (prev + 1),
                         aa_LeaderCommit = rf_CommitIndex rf\<rparr>, []) } })"

definition AppendEntries_send ::
  "int \<Rightarrow> bool \<Rightarrow> 'c raft \<Rightarrow> ('c append_args option \<times> spawn list) option" where
  "AppendEntries_send target heart rf =
     (if heart then Some (heartbeat_send rf, []) else entries_send target rf)"

definition sendRequestAppendEntries :: "int \<Rightarrow> 'c raft \<Rightarrow> string option" where
  \<comment> \<open>the address the call goes to; \<open>None\<close> where it returns false without a call\<close>
  "sendRequestAppendEntries server rf =
     (if server = rf_me rf - 1 then None
      else let serverAddr = (if server \<ge> 0 \<and> server < int (length (rf_peers rf))
                             then rf_peers rf ! nat server else [])
           in if serverAddr = [] then None else Some serverAddr)"

definition commit_count :: "int \<Rightarrow> 'c raft \<Rightarrow> int" where
  \<comment> \<open>\<open>cnt\<close> in \<open>tryCommitL\<close>\<close>
  "commit_count matchIndex rf =
     1 + int (length (filter (\<lambda>i. int i \<noteq> rf_me rf - 1 \<and> matchIndex \<le> t_matchIndex (rf_peerTrackers rf ! i))
                             [0..<length (rf_peers rf)]))"

definition tryCommitL :: "int \<Rightarrow> 'c raft \<Rightarrow> 'c raft option" where
  "tryCommitL matchIndex rf =
     (if matchIndex < rf_CommitIndex rf then Some rf
      else if matchIndex > l_LastLogIndex (rf_log rf) then Some rf
      else if matchIndex < l_FirstLogIndex (rf_log rf) then Some rf
      else do {
        tm \<leftarrow> getEntryTerm rf matchIndex;
        if tm \<noteq> rf_CurrentTerm rf then Some rf
        else if \<exists>i \<in> set [0..<length (rf_peers rf)]. int i \<noteq> rf_me rf - 1 \<and> i \<ge> length (rf_peerTrackers rf)
        then None
        else if commit_count matchIndex rf > int (length (rf_peers rf)) div 2
        then (if matchIndex > l_LastLogIndex (rf_log rf) then None
              else Some (rf\<lparr>rf_CommitIndex := matchIndex, rf_applyWake := True\<rparr>))
        else Some rf })"

definition step_down :: "int \<Rightarrow> 'c raft \<Rightarrow> 'c raft" where
  \<comment> \<open>the reaction to a reply of a higher term\<close>
  "step_down tm rf = persist (rf\<lparr>rf_CurrentTerm := tm, rf_votedFor := - 1, rf_State := Follower\<rparr>)"

definition append_success ::
  "int \<Rightarrow> 'c append_args \<Rightarrow> 'c raft \<Rightarrow> 'c raft option" where
  \<comment> \<open>\<open>AppendEntries\<close>, where \<open>reply.Success\<close> holds\<close>
  "append_success target args rf =
     do { t \<leftarrow> tracker rf target;
          if length (aa_Entries args) > 0
          then (let m = aa_PrevLogIndex args + int (length (aa_Entries args))
                in tryCommitL m (set_tracker target (t\<lparr>t_matchIndex := m, t_nextIndex := m + 1\<rparr>) rf))
          else Some (set_tracker target
                       (t\<lparr>t_nextIndex := max (t_nextIndex t) (aa_PrevLogIndex args + 1)\<rparr>) rf) }"

definition append_failure ::
  "int \<Rightarrow> append_reply \<Rightarrow> 'c raft \<Rightarrow> ('c raft \<times> spawn list) option" where
  \<comment> \<open>\<open>AppendEntries\<close>, where \<open>reply.Success\<close> is false: choose where to try next\<close>
  "append_failure target reply rf =
     (if log_empty (rf_log rf) then Some (rf, [GoInstallSnapshot target])
      else if ar_PrevLogIndex reply + 1 < l_FirstLogIndex (rf_log rf)
      then Some (rf, [GoInstallSnapshot target])
      else do {
        t \<leftarrow> tracker rf target;
        if ar_PrevLogIndex reply > l_LastLogIndex (rf_log rf)
        then Some (set_tracker target (t\<lparr>t_nextIndex := l_LastLogIndex (rf_log rf) + 1\<rparr>) rf, [])
        else do {
          tm \<leftarrow> getEntryTerm rf (ar_PrevLogIndex reply);
          if tm = ar_PrevLogTerm reply
          then Some (set_tracker target (t\<lparr>t_nextIndex := ar_PrevLogIndex reply + 1\<rparr>) rf, [])
          else do {
            prevIndex \<leftarrow> step_back rf (getEntryTerm rf (ar_PrevLogIndex reply)) (ar_PrevLogIndex reply);
            if prevIndex + 1 < l_FirstLogIndex (rf_log rf) \<and> l_FirstLogIndex (rf_log rf) > 1
            then Some (rf, [GoInstallSnapshot target])
            else Some (set_tracker target (t\<lparr>t_nextIndex := prevIndex + 1\<rparr>) rf, []) } } })"

definition heartbeat_reply :: "bool \<Rightarrow> append_reply \<Rightarrow> 'c raft \<Rightarrow> 'c raft" where
  \<comment> \<open>\<open>AppendEntries\<close> of a heartbeat, from the return of the call on\<close>
  "heartbeat_reply ok reply rf =
     (if \<not> ok then rf
      else if rf_State rf \<noteq> Leader then rf
      else if ar_FollowerTerm reply < rf_CurrentTerm rf then rf
      else if ar_FollowerTerm reply > rf_CurrentTerm rf then step_down (ar_FollowerTerm reply) rf
      else rf)"

definition entries_reply ::
  "int \<Rightarrow> 'c append_args \<Rightarrow> bool \<Rightarrow> append_reply \<Rightarrow> 'c raft \<Rightarrow> ('c raft \<times> spawn list) option" where
  \<comment> \<open>\<open>AppendEntries\<close> of entries, from the return of the call on\<close>
  "entries_reply target args ok reply rf =
     (if \<not> ok then Some (rf, [])
      else if rf_State rf \<noteq> Leader then Some (rf, [])
      else if ar_FollowerTerm reply < rf_CurrentTerm rf then Some (rf, [])
      else if ar_FollowerTerm reply > rf_CurrentTerm rf
      then Some (step_down (ar_FollowerTerm reply) rf, [])
      else if ar_Success reply then map_option (\<lambda>rf. (rf, [])) (append_success target args rf)
      else append_failure target reply rf)"

definition AppendEntries_reply ::
  "int \<Rightarrow> bool \<Rightarrow> 'c append_args \<Rightarrow> bool \<Rightarrow> append_reply \<Rightarrow> 'c raft \<Rightarrow> ('c raft \<times> spawn list) option" where
  "AppendEntries_reply target heart args ok reply rf =
     (if heart then Some (heartbeat_reply ok reply rf, []) else entries_reply target args ok reply rf)"

section \<open>Snapshots\<close>

definition Snapshot_raft :: "int \<Rightarrow> string \<Rightarrow> 'c raft \<Rightarrow> ('c raft \<times> spawn list) option" where
  "Snapshot_raft index snapshot rf =
     (if rf_State rf \<noteq> Leader then Some (rf, [])
      else if l_FirstLogIndex (rf_log rf) \<le> index
      then (if index > rf_LastApplied rf then None
            else do {
              tm \<leftarrow> getEntryTerm rf index;
              let lg = rf_log rf; newFirst = index + 1
              in do {
                lg1 \<leftarrow> (if newFirst \<le> l_LastLogIndex lg
                        then do { rest \<leftarrow> slice_from (newFirst - l_FirstLogIndex lg) (l_Entries lg);
                                  Some (lg\<lparr>l_Entries := rest\<rparr>) }
                        else Some (lg\<lparr>l_LastLogIndex := newFirst - 1, l_Entries := []\<rparr>));
                Some (persist (rf\<lparr>rf_snapshot := snapshot, rf_snapshotLastIncludeIndex := index,
                                  rf_snapshotLastIncludeTerm := tm,
                                  rf_log := lg1\<lparr>l_FirstLogIndex := newFirst\<rparr>,
                                  rf_CommitIndex := max (rf_CommitIndex rf) index,
                                  rf_LastApplied := max (rf_LastApplied rf) index\<rparr>),
                      map (\<lambda>i. GoInstallSnapshot (int i))
                        (filter (\<lambda>i. int i \<noteq> rf_me rf) [0..<length (rf_peers rf)])) } })
      else Some (rf, []))"

definition RequestInstallSnapshot ::
  "clock \<Rightarrow> install_args \<Rightarrow> 'c raft \<Rightarrow> ('c raft \<times> int) option" where
  \<comment> \<open>the reply is the term\<close>
  "RequestInstallSnapshot clk args rf =
     (if ia_Term args < rf_CurrentTerm rf then Some (rf, rf_CurrentTerm rf)
      else
        let rf1 = resetElectionTimer clk (rf\<lparr>rf_State := Follower\<rparr>);
            rf2 = (if ia_Term args > rf_CurrentTerm rf1
                   then rf1\<lparr>rf_votedFor := - 1, rf_CurrentTerm := ia_Term args\<rparr> else rf1);
            last = ia_LastIncludeIndex args;
            lg = rf_log rf2
        in if last > rf_snapshotLastIncludeIndex rf2
           then do {
             lg1 \<leftarrow> (if last \<ge> l_LastLogIndex lg
                     then Some (lg\<lparr>l_Entries := [], l_LastLogIndex := last\<rparr>)
                     else do { rest \<leftarrow> slice_from (getRealIndex lg (last + 1)) (l_Entries lg);
                               Some (lg\<lparr>l_Entries := rest\<rparr>) });
             let rf3 = rf2\<lparr>rf_snapshot := ia_Snapshot args, rf_snapshotLastIncludeIndex := last,
                           rf_snapshotLastIncludeTerm := ia_LastIncludeTerm args,
                           rf_log := lg1\<lparr>l_FirstLogIndex := last + 1\<rparr>\<rparr>
             in do {
               rf4 \<leftarrow> (if last > rf_LastApplied rf3
                       then do {
                         h \<leftarrow> tryApply \<lparr>rm_CommandValid = False, rm_Command = None, rm_CommandIndex = 0,
                                rm_SnapshotValid = True, rm_Snapshot = rf_snapshot rf3,
                                rm_SnapshotTerm = rf_snapshotLastIncludeTerm rf3,
                                rm_SnapshotIndex = rf_snapshotLastIncludeIndex rf3\<rparr> (rf_ApplyHelper rf3);
                         Some (rf3\<lparr>rf_ApplyHelper := h, rf_LastApplied := last\<rparr>) }
                       else Some rf3);
               Some (persist (rf4\<lparr>rf_CommitIndex := max (rf_CommitIndex rf4) last\<rparr>), rf_CurrentTerm rf4) } }
           else Some (persist rf2, rf_CurrentTerm rf2))"

definition InstallSnapshot_send :: "'c raft \<Rightarrow> install_args option" where
  "InstallSnapshot_send rf =
     (if rf_State rf \<noteq> Leader then None
      else Some \<lparr>ia_Term = rf_CurrentTerm rf, ia_LeaderId = rf_me rf,
                 ia_LastIncludeIndex = rf_snapshotLastIncludeIndex rf,
                 ia_LastIncludeTerm = rf_snapshotLastIncludeTerm rf, ia_Snapshot = rf_snapshot rf\<rparr>)"

definition sendRequestInstallSnapshot :: "int \<Rightarrow> install_args \<Rightarrow> bool \<times> int" where
  \<comment> \<open>the call is a stub: it reports success and leaves the term of the reply zero\<close>
  "sendRequestInstallSnapshot server args = (True, 0)"

definition InstallSnapshot_reply ::
  "int \<Rightarrow> install_args \<Rightarrow> bool \<times> int \<Rightarrow> 'c raft \<Rightarrow> 'c raft option" where
  "InstallSnapshot_reply serverId args reply rf =
     (let (ok, tm) = reply
      in if \<not> ok then Some rf
         else if rf_State rf \<noteq> Leader then Some rf
         else if tm < rf_CurrentTerm rf then Some rf
         else if tm > rf_CurrentTerm rf then Some (step_down tm rf)
         else do {
           t \<leftarrow> tracker rf serverId;
           tryCommitL (ia_LastIncludeIndex args)
             (set_tracker serverId (t\<lparr>t_nextIndex := ia_LastIncludeIndex args + 1,
                                      t_matchIndex := ia_LastIncludeIndex args\<rparr>) rf) })"

section \<open>Handing committed entries to the service\<close>

function apply_pass :: "'c raft \<Rightarrow> 'c raft option" where
  \<comment> \<open>the inner loop of \<open>sendMsgToTester\<close>\<close>
  "apply_pass rf =
     (if rf_LastApplied rf + 1 \<le> rf_CommitIndex rf \<and> rf_LastApplied rf + 1 \<le> l_LastLogIndex (rf_log rf)
      then (let i = rf_LastApplied rf + 1
            in if i < l_FirstLogIndex (rf_log rf) then None
               else do {
                 entry \<leftarrow> getOneEntry (rf_log rf) i;
                 h \<leftarrow> tryApply \<lparr>rm_CommandValid = True, rm_Command = Some (e_Command entry), rm_CommandIndex = i,
                        rm_SnapshotValid = False, rm_Snapshot = [], rm_SnapshotTerm = 0, rm_SnapshotIndex = 0\<rparr>
                        (rf_ApplyHelper rf);
                 apply_pass (rf\<lparr>rf_LastApplied := i, rf_ApplyHelper := h\<rparr>) })
      else Some rf)"
  by auto

termination apply_pass
  by (relation "measure (\<lambda>rf. nat (rf_CommitIndex rf - rf_LastApplied rf))") auto

declare apply_pass.simps [simp del]

definition sendMsgToTester :: "'c raft \<Rightarrow> 'c raft option" where
  \<comment> \<open>one round of the outer loop; the goroutine waits where no \<open>Broadcast\<close> has reached it\<close>
  "sendMsgToTester rf =
     (if rf_applySenderDone rf \<or> \<not> rf_applyWake rf then Some rf
      else do { rf1 \<leftarrow> apply_pass (rf\<lparr>rf_applyWake := False\<rparr>);
                Some (if rf_dead rf1 then rf1\<lparr>rf_applySenderDone := True\<rparr> else rf1) })"

section \<open>Life cycle\<close>

definition gob_log :: "'c raft_log \<Rightarrow> 'c raft_log \<Rightarrow> 'c raft_log" where
  \<comment> \<open>gob decodes a struct into the existing one: a field with the zero value is not sent and
    keeps what the destination holds\<close>
  "gob_log sent dest =
     \<lparr>l_Entries = (if l_Entries sent = [] then l_Entries dest else l_Entries sent),
      l_FirstLogIndex = (if l_FirstLogIndex sent = 0 then l_FirstLogIndex dest else l_FirstLogIndex sent),
      l_LastLogIndex = (if l_LastLogIndex sent = 0 then l_LastLogIndex dest else l_LastLogIndex sent)\<rparr>"

definition readPersist :: "('c \<Rightarrow> bool) \<Rightarrow> 'c raft \<Rightarrow> 'c raft option" where
  \<comment> \<open>\<open>registered\<close>: the dynamic type of a command is known to gob; the encoder refuses a log
    with any other command, and the decoder then fails\<close>
  "readPersist registered rf =
     (case ps_raftstate (rf_persister rf) of
        None \<Rightarrow> Some rf
      | Some st \<Rightarrow>
          if \<not> list_all (\<lambda>e. registered (e_Command e)) (l_Entries (p_log st)) then None
          else Some (rf\<lparr>rf_CurrentTerm := p_CurrentTerm st, rf_votedFor := p_votedFor st,
                        rf_log := gob_log (p_log st) (rf_log rf),
                        rf_snapshotLastIncludeIndex := p_snapshotLastIncludeIndex st,
                        rf_snapshotLastIncludeTerm := p_snapshotLastIncludeTerm st,
                        rf_snapshot := ps_snapshot (rf_persister rf),
                        rf_CommitIndex := p_snapshotLastIncludeIndex st,
                        rf_LastApplied := p_snapshotLastIncludeIndex st\<rparr>))"

definition Make ::
  "('c \<Rightarrow> bool) \<Rightarrow> clock \<Rightarrow> string list \<Rightarrow> int \<Rightarrow> 'c persister \<Rightarrow> 'c raft option" where
  "Make registered clk peers me persister =
     (let rf = \<lparr>rf_peers = peers, rf_persister = persister, rf_me = me, rf_dead = False,
                rf_State = Follower, rf_CurrentTerm = 0, rf_votedFor = - 1,
                rf_electionTimeout = (1000 + snd clk mod 1000) * 1000000, rf_lastElection = fst clk,
                rf_lastHeartbeat = 0, rf_peerTrackers = [], rf_log = NewLog, rf_CommitIndex = 0,
                rf_LastApplied = - 1, rf_ApplyHelper = NewApplyHelper (- 1), rf_applyWake = False,
                rf_applySenderDone = False, rf_snapshot = [], rf_snapshotLastIncludeIndex = 0,
                rf_snapshotLastIncludeTerm = 0, rf_electionVotes = 0, rf_electionDone = False\<rparr>
      in do { rf1 \<leftarrow> readPersist registered rf;
              Some (rf1\<lparr>rf_ApplyHelper := NewApplyHelper (rf_LastApplied rf1),
                        rf_peerTrackers :=
                          replicate (length peers) \<lparr>t_nextIndex = 0, t_matchIndex = 0, t_lastAck = 0\<rparr>\<rparr>) })"

definition Kill :: "'c raft \<Rightarrow> 'c raft" where
  "Kill rf =
     rf\<lparr>rf_dead := True, rf_ApplyHelper := helper_Kill (rf_ApplyHelper rf), rf_applyWake := True,
        rf_State := Follower\<rparr>"

definition ticker :: "clock \<Rightarrow> 'c raft \<Rightarrow> 'c raft \<times> spawn list" where
  \<comment> \<open>one round of the loop\<close>
  "ticker clk rf =
     (if rf_dead rf then (rf, [])
      else case rf_State rf of
          Leader \<Rightarrow>
            (if pastHeartbeatTimeout clk rf
             then StartAppendEntries clk True (resetHeartbeatTimer clk rf)
             else StartAppendEntries clk False rf)
        | _ \<Rightarrow> if pastElectionTimeout clk rf then StartElection clk rf else (rf, []))"

section \<open>Everything that can happen to a peer\<close>

datatype 'c node_event =
    Tick clock
  | VoteRequest clock vote_args
  | VoteReply clock bool vote_reply int
  | AppendRequest clock "'c append_args"
  | InstallRequest clock install_args
  | Propose 'c
  | Replicate clock bool              \<comment> \<open>the goroutine \<open>StartAppendEntries\<close>\<close>
  | AppendReply int bool "'c append_args" bool append_reply
  | InstallReply int install_args "bool \<times> int"
  | TakeSnapshot int string
  | ApplyRound
  | ApplierRound
  | KillPeer

fun node_step :: "'c node_event \<Rightarrow> 'c raft \<Rightarrow> 'c raft option" where
  "node_step (Tick clk) rf = Some (fst (ticker clk rf))"
| "node_step (VoteRequest clk args) rf = Some (fst (RequestVote clk args rf))"
| "node_step (VoteReply clk ok reply tm) rf =
     Some (fst (election_reply clk ok reply tm (int (length (rf_peers rf))) rf))"
| "node_step (AppendRequest clk args) rf = map_option fst (handleAppendEntriesRPC clk args rf)"
| "node_step (InstallRequest clk args) rf = map_option fst (RequestInstallSnapshot clk args rf)"
| "node_step (Propose c) rf = map_option fst (Start c rf)"
| "node_step (Replicate clk heart) rf = Some (fst (StartAppendEntries clk heart rf))"
| "node_step (AppendReply target heart args ok reply) rf =
     map_option fst (AppendEntries_reply target heart args ok reply rf)"
| "node_step (InstallReply target args reply) rf = InstallSnapshot_reply target args reply rf"
| "node_step (TakeSnapshot index snapshot) rf = map_option fst (Snapshot_raft index snapshot rf)"
| "node_step ApplyRound rf = sendMsgToTester rf"
| "node_step ApplierRound rf = Some (rf\<lparr>rf_ApplyHelper := applier (rf_ApplyHelper rf)\<rparr>)"
| "node_step KillPeer rf = Some (Kill rf)"

fun node_run :: "'c node_event list \<Rightarrow> 'c raft \<Rightarrow> 'c raft option" where
  "node_run [] rf = Some rf"
| "node_run (ev # evs) rf = do { rf1 \<leftarrow> node_step ev rf; node_run evs rf1 }"

section \<open>Invariant of a peer\<close>

definition raft_ok :: "'c raft \<Rightarrow> bool" where
  "raft_ok rf \<longleftrightarrow>
     log_ok (rf_log rf) \<and>
     length (rf_peerTrackers rf) = length (rf_peers rf) \<and>
     l_FirstLogIndex (rf_log rf) \<le> rf_LastApplied rf + 1 \<and>
     ah_lastItemIndex (rf_ApplyHelper rf) = rf_LastApplied rf \<and>
     0 \<le> rf_snapshotLastIncludeIndex rf \<and>
     l_FirstLogIndex (rf_log rf) \<le> rf_snapshotLastIncludeIndex rf + 1"

named_theorems raft_frame \<open>fields an operation leaves alone\<close>

lemma persist_frame [simp, raft_frame]:
  "rf_peers (persist rf) = rf_peers rf" "rf_me (persist rf) = rf_me rf"
  "rf_dead (persist rf) = rf_dead rf" "rf_State (persist rf) = rf_State rf"
  "rf_CurrentTerm (persist rf) = rf_CurrentTerm rf" "rf_votedFor (persist rf) = rf_votedFor rf"
  "rf_peerTrackers (persist rf) = rf_peerTrackers rf" "rf_log (persist rf) = rf_log rf"
  "rf_CommitIndex (persist rf) = rf_CommitIndex rf" "rf_LastApplied (persist rf) = rf_LastApplied rf"
  "rf_ApplyHelper (persist rf) = rf_ApplyHelper rf" "rf_snapshot (persist rf) = rf_snapshot rf"
  "rf_applyWake (persist rf) = rf_applyWake rf" "rf_applySenderDone (persist rf) = rf_applySenderDone rf"
  "rf_snapshotLastIncludeIndex (persist rf) = rf_snapshotLastIncludeIndex rf"
  "rf_snapshotLastIncludeTerm (persist rf) = rf_snapshotLastIncludeTerm rf"
  "rf_electionVotes (persist rf) = rf_electionVotes rf" "rf_electionDone (persist rf) = rf_electionDone rf"
  by (simp_all add: persist_def Let_def)

lemmas timer_defs = resetElectionTimer_def resetHeartbeatTimer_def

lemma raft_ok_cong:
  assumes "rf_log rf' = rf_log rf" "length (rf_peerTrackers rf') = length (rf_peerTrackers rf)"
    "rf_peers rf' = rf_peers rf" "rf_LastApplied rf' = rf_LastApplied rf"
    "ah_lastItemIndex (rf_ApplyHelper rf') = ah_lastItemIndex (rf_ApplyHelper rf)"
    "rf_snapshotLastIncludeIndex rf' = rf_snapshotLastIncludeIndex rf"
  shows "raft_ok rf' \<longleftrightarrow> raft_ok rf"
  using assms by (simp add: raft_ok_def)

lemma raft_ok_log:
  "raft_ok rf \<Longrightarrow> log_ok lg \<Longrightarrow> l_FirstLogIndex lg = l_FirstLogIndex (rf_log rf) \<Longrightarrow> raft_ok (rf\<lparr>rf_log := lg\<rparr>)"
  by (simp add: raft_ok_def)

text \<open>The part of the state that only the log handlers touch.\<close>

definition same_data :: "'c raft \<Rightarrow> 'c raft \<Rightarrow> bool" where
  "same_data rf rf' \<longleftrightarrow>
     rf_log rf' = rf_log rf \<and> rf_peers rf' = rf_peers rf \<and> rf_me rf' = rf_me rf \<and>
     length (rf_peerTrackers rf') = length (rf_peerTrackers rf) \<and>
     rf_LastApplied rf' = rf_LastApplied rf \<and> rf_ApplyHelper rf' = rf_ApplyHelper rf \<and>
     rf_snapshotLastIncludeIndex rf' = rf_snapshotLastIncludeIndex rf"

lemma same_data_ok: "same_data rf rf' \<Longrightarrow> raft_ok rf \<Longrightarrow> raft_ok rf'"
  by (simp add: same_data_def raft_ok_def)

lemma same_data_ticker: "same_data rf (fst (ticker clk rf))"
  by (auto simp: same_data_def ticker_def StartAppendEntries_def StartElection_def becomeCandidate_def
      timer_defs Let_def split: role.splits)

lemma same_data_RequestVote: "same_data rf (fst (RequestVote clk args rf))"
  by (auto simp: same_data_def RequestVote_def timer_defs Let_def)

lemma same_data_election_reply: "same_data rf (fst (election_reply clk ok reply tm n rf))"
  by (auto simp: same_data_def election_reply_def becomeLeader_def resetTrackedIndex_def timer_defs Let_def)

lemma same_data_StartAppendEntries: "same_data rf (fst (StartAppendEntries clk heart rf))"
  by (auto simp: same_data_def StartAppendEntries_def timer_defs Let_def)

lemma same_data_Kill: "raft_ok rf \<Longrightarrow> raft_ok (Kill rf)"
  by (simp add: Kill_def helper_Kill_def raft_ok_def)

lemma getEntryTerm_ok: "log_ok (rf_log rf) \<Longrightarrow> getEntryTerm rf i \<noteq> None"
  using getOneEntry_Some_iff[of "rf_log rf" i] by (auto simp: getEntryTerm_def)

lemma step_back_ok:
  "log_ok (rf_log rf) \<Longrightarrow> want \<noteq> None \<Longrightarrow> \<exists>j. step_back rf want i = Some j \<and> j \<le> i"
proof (induction rf want i rule: step_back.induct)
  case (1 rf want i)
  obtain t w where *: "getEntryTerm rf i = Some t" "want = Some w"
    using 1 getEntryTerm_ok[of rf i] by auto
  show ?case using 1 * by (subst step_back.simps) force
qed

definition may_commit :: "int \<Rightarrow> 'c raft \<Rightarrow> bool" where
  \<comment> \<open>an entry of the current term, in the log and not below the commit index, that a majority holds\<close>
  "may_commit m rf \<longleftrightarrow>
     rf_CommitIndex rf \<le> m \<and> l_FirstLogIndex (rf_log rf) \<le> m \<and> m \<le> l_LastLogIndex (rf_log rf) \<and>
     getEntryTerm rf m = Some (rf_CurrentTerm rf) \<and>
     commit_count m rf > int (length (rf_peers rf)) div 2"

lemma tryCommitL_eq:
  assumes "raft_ok rf"
  shows "tryCommitL m rf =
           Some (if may_commit m rf then rf\<lparr>rf_CommitIndex := m, rf_applyWake := True\<rparr> else rf)"
proof -
  obtain t where t: "getEntryTerm rf m = Some t" using assms getEntryTerm_ok[of rf m] by (auto simp: raft_ok_def)
  have len: "length (rf_peerTrackers rf) = length (rf_peers rf)" using assms by (simp add: raft_ok_def)
  show ?thesis using t len by (simp add: tryCommitL_def may_commit_def not_less)
qed

lemma same_data_set_tracker: "same_data rf (set_tracker i t rf)"
  by (simp add: same_data_def set_tracker_def)

lemma same_data_trans: "same_data a b \<Longrightarrow> same_data b c \<Longrightarrow> same_data a c"
  by (simp add: same_data_def)

lemma tryCommitL_data:
  assumes "raft_ok rf"
  shows "\<exists>rf'. tryCommitL m rf = Some rf' \<and> same_data rf rf'"
  by (simp add: tryCommitL_eq[OF assms] same_data_def)

lemma tracked_commit_data:
  assumes "raft_ok rf"
  shows "\<exists>rf'. tryCommitL m (set_tracker i t rf) = Some rf' \<and> same_data rf rf'"
  using tryCommitL_data[of "set_tracker i t rf" m] same_data_ok[OF same_data_set_tracker assms]
    same_data_trans[OF same_data_set_tracker] by blast

lemma tracker_ok: "raft_ok rf \<Longrightarrow> 0 \<le> i \<Longrightarrow> i < int (length (rf_peers rf)) \<Longrightarrow> tracker rf i \<noteq> None"
  by (simp add: tracker_def raft_ok_def)

lemma append_success_data:
  assumes "raft_ok rf" "0 \<le> i" "i < int (length (rf_peers rf))"
  shows "\<exists>rf'. append_success i args rf = Some rf' \<and> same_data rf rf'"
proof -
  obtain t where t: "tracker rf i = Some t" using tracker_ok[OF assms] by auto
  show ?thesis
    using t same_data_set_tracker tracked_commit_data[OF assms(1)] by (auto simp: append_success_def Let_def)
qed

lemma append_failure_data:
  assumes "raft_ok rf" "0 \<le> i" "i < int (length (rf_peers rf))"
  shows "\<exists>rf' go. append_failure i reply rf = Some (rf', go) \<and> same_data rf rf'"
proof -
  obtain t where t: "tracker rf i = Some t" using tracker_ok[OF assms] by auto
  have lg: "log_ok (rf_log rf)" using assms(1) by (simp add: raft_ok_def)
  obtain tm where tm: "getEntryTerm rf (ar_PrevLogIndex reply) = Some tm" using getEntryTerm_ok[OF lg] by auto
  obtain j where j: "step_back rf (Some tm) (ar_PrevLogIndex reply) = Some j"
    using step_back_ok[OF lg, of "Some tm"] by auto
  have refl: "same_data rf rf" by (simp add: same_data_def)
  show ?thesis
    unfolding append_failure_def using t tm j same_data_set_tracker refl by auto
qed

lemma same_data_step_down: "same_data rf (step_down tm rf)"
  by (simp add: same_data_def step_down_def)

lemma AppendEntries_reply_data:
  assumes "raft_ok rf" "0 \<le> i" "i < int (length (rf_peers rf))"
  shows "\<exists>rf' go. AppendEntries_reply i heart args ok reply rf = Some (rf', go) \<and> same_data rf rf'"
proof -
  have refl: "same_data rf rf" by (simp add: same_data_def)
  obtain rf1 where s: "append_success i args rf = Some rf1" "same_data rf rf1"
    using append_success_data[OF assms] by blast
  show ?thesis
    using append_failure_data[OF assms, of reply] s same_data_step_down refl
    by (auto simp: AppendEntries_reply_def heartbeat_reply_def entries_reply_def)
qed

lemma InstallSnapshot_reply_data:
  assumes "raft_ok rf" "0 \<le> i" "i < int (length (rf_peers rf))"
  shows "\<exists>rf'. InstallSnapshot_reply i args reply rf = Some rf' \<and> same_data rf rf'"
proof -
  have refl: "same_data rf rf" by (simp add: same_data_def)
  obtain t where t: "tracker rf i = Some t" using tracker_ok[OF assms] by auto
  show ?thesis
    using t refl same_data_step_down tracked_commit_data[OF assms(1)]
    by (auto simp: InstallSnapshot_reply_def split: prod.splits)
qed

subsection \<open>The handlers that change the log\<close>

definition accepted :: "clock \<Rightarrow> 'c append_args \<Rightarrow> 'c raft \<Rightarrow> 'c raft" where
  \<comment> \<open>the peer after it has acknowledged the leader of a request\<close>
  "accepted clk args rf =
     resetElectionTimer clk
       ((if aa_LeaderTerm args > rf_CurrentTerm rf
         then persist (rf\<lparr>rf_CurrentTerm := aa_LeaderTerm args, rf_votedFor := - 1\<rparr>) else rf)
        \<lparr>rf_State := Follower\<rparr>)"

definition prev_matches :: "'c append_args \<Rightarrow> 'c raft_log \<Rightarrow> bool" where
  "prev_matches args lg \<longleftrightarrow>
     (aa_PrevLogIndex args > 0 \<longrightarrow>
        aa_PrevLogIndex args \<le> l_LastLogIndex lg \<and>
        map_option e_Term (getOneEntry lg (aa_PrevLogIndex args)) = Some (aa_PrevLogTerm args))"

definition prev_in_snapshot :: "'c append_args \<Rightarrow> 'c raft_log \<Rightarrow> bool" where
  \<comment> \<open>the requests that make the handler dereference a nil entry\<close>
  "prev_in_snapshot args lg \<longleftrightarrow>
     0 < aa_PrevLogIndex args \<and> aa_PrevLogIndex args \<le> l_LastLogIndex lg \<and>
     aa_PrevLogIndex args < l_FirstLogIndex lg"

definition commit_to :: "int \<Rightarrow> 'c raft \<Rightarrow> 'c raft" where
  "commit_to c rf =
     (if c > rf_CommitIndex rf
      then rf\<lparr>rf_CommitIndex := min c (l_LastLogIndex (rf_log rf)), rf_applyWake := True\<rparr> else rf)"

lemma same_data_accepted: "same_data rf (accepted clk args rf)"
  by (simp add: same_data_def accepted_def timer_defs)

lemma same_data_commit_to: "same_data rf (commit_to c rf)"
  by (simp add: same_data_def commit_to_def)

lemma accepted_log [simp]: "rf_log (accepted clk args rf) = rf_log rf"
  by (simp add: accepted_def timer_defs)

lemma handleAppend_eq:
  assumes "raft_ok rf"
  shows "handleAppendEntriesRPC clk args rf =
    (if rf_dead rf \<or> aa_LeaderTerm args < rf_CurrentTerm rf
     then Some (rf, zero_append_reply\<lparr>ar_FollowerTerm := rf_CurrentTerm rf\<rparr>)
     else if prev_in_snapshot args (rf_log rf) then None
     else Some
       (if prev_matches args (rf_log rf)
        then (commit_to (aa_LeaderCommit args)
                ((accepted clk args rf)
                   \<lparr>rf_log := the (append_loop (aa_Entries args) (aa_PrevLogIndex args) (rf_log rf))\<rparr>),
              zero_append_reply\<lparr>ar_FollowerTerm := aa_LeaderTerm args, ar_Success := True\<rparr>)
        else (accepted clk args rf, zero_append_reply\<lparr>ar_FollowerTerm := aa_LeaderTerm args\<rparr>)))"
proof -
  have lg: "log_ok (rf_log rf)" using assms by (simp add: raft_ok_def)
  let ?prev = "aa_PrevLogIndex args"
  obtain lg' where loop: "append_loop (aa_Entries args) ?prev (rf_log rf) = Some lg'"
    using append_loop_ok[OF lg] by blast
  have entry: "getOneEntry (rf_log rf) ?prev = None \<longleftrightarrow>
                 \<not> (l_FirstLogIndex (rf_log rf) \<le> ?prev \<and> ?prev \<le> l_LastLogIndex (rf_log rf))"
    using getOneEntry_Some_iff[OF lg] by blast
  define rf1 where "rf1 = (if aa_LeaderTerm args > rf_CurrentTerm rf
         then persist (rf\<lparr>rf_CurrentTerm := aa_LeaderTerm args, rf_votedFor := - 1\<rparr>) else rf)"
  have rf1: "rf_log rf1 = rf_log rf"
    "\<not> aa_LeaderTerm args < rf_CurrentTerm rf \<Longrightarrow> rf_CurrentTerm rf1 = aa_LeaderTerm args"
    by (auto simp: rf1_def)
  have acc: "resetElectionTimer clk (rf1\<lparr>rf_State := Follower\<rparr>) = accepted clk args rf"
    by (simp add: accepted_def rf1_def)
  show ?thesis
    unfolding handleAppendEntriesRPC_def Let_def rf1_def[symmetric] acc
    using rf1 loop entry
    by (cases "getOneEntry (rf_log rf) ?prev")
       (auto simp: prev_matches_def prev_in_snapshot_def commit_to_def)
qed

lemma handleAppend_ok:
  assumes "raft_ok rf" "handleAppendEntriesRPC clk args rf = Some (rf', reply)"
  shows "raft_ok rf' \<and> l_FirstLogIndex (rf_log rf') = l_FirstLogIndex (rf_log rf) \<and> rf_peers rf' = rf_peers rf"
proof -
  have lg: "log_ok (rf_log rf)" using assms by (simp add: raft_ok_def)
  obtain lg' where loop: "append_loop (aa_Entries args) (aa_PrevLogIndex args) (rf_log rf) = Some lg'"
      "log_ok lg'" "l_FirstLogIndex lg' = l_FirstLogIndex (rf_log rf)"
    using append_loop_ok[OF lg] by blast
  have acc: "raft_ok (accepted clk args rf)" "rf_peers (accepted clk args rf) = rf_peers rf"
    using same_data_ok[OF same_data_accepted assms(1)] same_data_accepted[of rf clk args] by (auto simp: same_data_def)
  have merged: "raft_ok ((accepted clk args rf)\<lparr>rf_log := lg'\<rparr>)" using raft_ok_log[OF acc(1)] loop by simp
  note com = same_data_ok[OF same_data_commit_to merged, of "aa_LeaderCommit args"]
    same_data_commit_to[of "(accepted clk args rf)\<lparr>rf_log := lg'\<rparr>" "aa_LeaderCommit args"]
  show ?thesis
    using assms acc loop com
    by (auto simp: handleAppend_eq[OF assms(1)] same_data_def split: if_splits)
qed

lemma Start_ok:
  assumes "raft_ok rf"
  shows "\<exists>rf' r go. Start c rf = Some (rf', r, go) \<and> raft_ok rf' \<and>
           l_FirstLogIndex (rf_log rf') = l_FirstLogIndex (rf_log rf) \<and> rf_peers rf' = rf_peers rf"
proof -
  obtain f es where lg: "0 \<le> f" "rf_log rf = log_of f es"
    using assms log_of_cases[of "rf_log rf"] by (auto simp: raft_ok_def)
  show ?thesis using assms lg by (auto simp: Start_def raft_log raft_ok_def)
qed

lemma Snapshot_ok:
  assumes "raft_ok rf" "Snapshot_raft index snap rf = Some (rf', go)"
  shows "raft_ok rf' \<and> rf_peers rf' = rf_peers rf"
  using assms
  by (auto simp: Snapshot_raft_def raft_ok_def log_ok_def slice_from_def Let_def max_def
      split: if_splits bind_splits)

lemma Snapshot_panics:
  assumes "raft_ok rf"
  shows "Snapshot_raft index snap rf = None \<longleftrightarrow>
           rf_State rf = Leader \<and> l_FirstLogIndex (rf_log rf) \<le> index \<and> rf_LastApplied rf < index"
proof -
  obtain t where t: "getEntryTerm rf index = Some t"
    using assms getEntryTerm_ok[of rf index] by (auto simp: raft_ok_def)
  show ?thesis
    using assms t by (auto simp: Snapshot_raft_def raft_ok_def log_ok_def slice_from_def Let_def)
qed

lemma RequestInstallSnapshot_ok:
  assumes "raft_ok rf"
  shows "\<exists>rf' tm. RequestInstallSnapshot clk args rf = Some (rf', tm) \<and> raft_ok rf' \<and> rf_peers rf' = rf_peers rf"
  using assms
  by (auto simp: RequestInstallSnapshot_def raft_ok_def log_ok_def slice_from_def getRealIndex_def
      tryApply_def timer_defs Let_def max_def)

definition due :: "'c raft \<Rightarrow> bool" where
  \<comment> \<open>the guard of the inner loop of \<open>sendMsgToTester\<close>\<close>
  "due rf \<longleftrightarrow> rf_LastApplied rf + 1 \<le> rf_CommitIndex rf \<and> rf_LastApplied rf + 1 \<le> l_LastLogIndex (rf_log rf)"

definition command_msg :: "int \<Rightarrow> 'c \<Rightarrow> 'c raft_msg" where
  "command_msg i c =
     \<lparr>rm_CommandValid = True, rm_Command = Some c, rm_CommandIndex = i,
      rm_SnapshotValid = False, rm_Snapshot = [], rm_SnapshotTerm = 0, rm_SnapshotIndex = 0\<rparr>"

definition push_next :: "'c raft \<Rightarrow> 'c raft" where
  \<comment> \<open>queue the message of the next entry\<close>
  "push_next rf =
     (let i = rf_LastApplied rf + 1; h = rf_ApplyHelper rf
      in rf\<lparr>rf_LastApplied := i,
            rf_ApplyHelper :=
              h\<lparr>ah_q := ah_q h @ [command_msg i (e_Command (the (getOneEntry (rf_log rf) i)))],
                ah_lastItemIndex := i\<rparr>\<rparr>)"

lemma push_next_frame [simp]:
  "rf_log (push_next rf) = rf_log rf" "rf_peers (push_next rf) = rf_peers rf"
  "rf_CommitIndex (push_next rf) = rf_CommitIndex rf" "rf_LastApplied (push_next rf) = rf_LastApplied rf + 1"
  "rf_me (push_next rf) = rf_me rf" "rf_State (push_next rf) = rf_State rf"
  "rf_CurrentTerm (push_next rf) = rf_CurrentTerm rf" "rf_votedFor (push_next rf) = rf_votedFor rf"
  "rf_electionVotes (push_next rf) = rf_electionVotes rf" "rf_electionDone (push_next rf) = rf_electionDone rf"
  by (simp_all add: push_next_def Let_def)

lemma push_next_ok: "raft_ok rf \<Longrightarrow> raft_ok (push_next rf)"
  by (simp add: push_next_def raft_ok_def Let_def)

lemma apply_pass_unfold:
  assumes "raft_ok rf"
  shows "apply_pass rf = (if due rf then apply_pass (push_next rf) else Some rf)"
proof (cases "due rf")
  case True
  let ?i = "rf_LastApplied rf + 1"
  have i: "\<not> ?i < l_FirstLogIndex (rf_log rf)" using assms by (simp add: raft_ok_def)
  obtain entry where e: "getOneEntry (rf_log rf) ?i = Some entry"
    using getOneEntry_Some_iff[of "rf_log rf" ?i] assms True i by (auto simp: raft_ok_def due_def)
  have "ah_lastItemIndex (rf_ApplyHelper rf) = rf_LastApplied rf" using assms by (simp add: raft_ok_def)
  then show ?thesis
    using True i e by (subst apply_pass.simps) (simp add: tryApply_def due_def push_next_def command_msg_def Let_def)
next
  case False
  then show ?thesis by (subst apply_pass.simps) (auto simp: due_def)
qed

lemma apply_pass_induct [consumes 1, case_names stop step]:
  assumes "raft_ok rf"
    and "\<And>rf. raft_ok rf \<Longrightarrow> \<not> due rf \<Longrightarrow> P rf rf"
    and "\<And>rf rf'. raft_ok rf \<Longrightarrow> due rf \<Longrightarrow> P (push_next rf) rf' \<Longrightarrow> P rf rf'"
  shows "\<exists>rf'. apply_pass rf = Some rf' \<and> raft_ok rf' \<and> P rf rf'"
  using assms(1)
proof (induction "nat (rf_CommitIndex rf - rf_LastApplied rf)" arbitrary: rf rule: less_induct)
  case less
  show ?case
  proof (cases "due rf")
    case True
    then show ?thesis
      using less.hyps[of "push_next rf"] less.prems push_next_ok[OF less.prems] assms(3)[OF less.prems True]
      by (auto simp: apply_pass_unfold[OF less.prems] due_def)
  next
    case False
    then show ?thesis using less.prems assms(2) by (simp add: apply_pass_unfold)
  qed
qed

lemma apply_pass_ok:
  assumes "raft_ok rf"
  shows "\<exists>rf'. apply_pass rf = Some rf' \<and> raft_ok rf' \<and> (rf_log rf' = rf_log rf \<and> rf_peers rf' = rf_peers rf)"
  using assms by (rule apply_pass_induct) auto

lemma sendMsgToTester_ok:
  assumes "raft_ok rf"
  shows "\<exists>rf'. sendMsgToTester rf = Some rf' \<and> raft_ok rf' \<and> rf_log rf' = rf_log rf \<and> rf_peers rf' = rf_peers rf"
proof -
  have "raft_ok (rf\<lparr>rf_applyWake := False\<rparr>)" using assms by (simp add: raft_ok_def)
  from apply_pass_ok[OF this] show ?thesis
    using assms by (auto simp: sendMsgToTester_def raft_ok_def)
qed

subsection \<open>All events\<close>

definition event_safe :: "'c raft \<Rightarrow> 'c node_event \<Rightarrow> bool" where
  \<comment> \<open>goroutines only name peers of the list; the two guards that the handlers lack\<close>
  "event_safe rf ev =
     (case ev of
        AppendReply i _ _ _ _ \<Rightarrow> 0 \<le> i \<and> i < int (length (rf_peers rf))
      | InstallReply i _ _ \<Rightarrow> 0 \<le> i \<and> i < int (length (rf_peers rf))
      | AppendRequest _ args \<Rightarrow> \<not> prev_in_snapshot args (rf_log rf)
      | TakeSnapshot index _ \<Rightarrow> index \<le> rf_LastApplied rf
      | _ \<Rightarrow> True)"

lemma node_step_ok:
  assumes "raft_ok rf" "event_safe rf ev"
  shows "\<exists>rf'. node_step ev rf = Some rf' \<and> raft_ok rf' \<and> rf_peers rf' = rf_peers rf"
proof (cases ev)
  case (Tick clk)
  then show ?thesis using same_data_ticker[of rf clk] same_data_ok[OF _ assms(1)] by (auto simp: same_data_def)
next
  case (VoteRequest clk args)
  then show ?thesis using same_data_RequestVote[of rf clk args] same_data_ok[OF _ assms(1)] by (auto simp: same_data_def)
next
  case (VoteReply clk ok reply tm)
  then show ?thesis
    using same_data_election_reply[of rf clk ok reply tm] same_data_ok[OF _ assms(1)] by (auto simp: same_data_def)
next
  case (AppendRequest clk args)
  then have "handleAppendEntriesRPC clk args rf \<noteq> None"
    using assms(2) by (simp add: handleAppend_eq[OF assms(1)] event_safe_def)
  then obtain r where r: "handleAppendEntriesRPC clk args rf = Some r" by blast
  then show ?thesis using handleAppend_ok[OF assms(1), of clk args "fst r" "snd r"] AppendRequest by auto
next
  case (InstallRequest clk args)
  then show ?thesis using RequestInstallSnapshot_ok[OF assms(1), of clk args] by auto
next
  case (Propose c)
  then show ?thesis using Start_ok[OF assms(1), of c] by auto
next
  case (Replicate clk heart)
  then show ?thesis
    using same_data_StartAppendEntries[of rf clk heart] same_data_ok[OF _ assms(1)] by (auto simp: same_data_def)
next
  case (AppendReply i heart args ok reply)
  then show ?thesis
    using AppendEntries_reply_data[OF assms(1), of i heart args ok reply] assms(2) same_data_ok[OF _ assms(1)]
    by (auto simp: event_safe_def same_data_def)
next
  case (InstallReply i args reply)
  then show ?thesis
    using InstallSnapshot_reply_data[OF assms(1), of i args reply] assms(2) same_data_ok[OF _ assms(1)]
    by (auto simp: event_safe_def same_data_def)
next
  case (TakeSnapshot index snap)
  then have "Snapshot_raft index snap rf \<noteq> None"
    using Snapshot_panics[OF assms(1), of index snap] assms(2) by (simp add: event_safe_def)
  then obtain r where r: "Snapshot_raft index snap rf = Some r" by blast
  then show ?thesis using Snapshot_ok[OF assms(1), of index snap "fst r" "snd r"] TakeSnapshot by auto
next
  case ApplyRound
  then show ?thesis using sendMsgToTester_ok[OF assms(1)] by auto
next
  case ApplierRound
  then show ?thesis using assms(1) by (auto simp: raft_ok_def applier_def split: list.splits)
next
  case KillPeer
  then show ?thesis using same_data_Kill[OF assms(1)] by (auto simp: Kill_def)
qed

section \<open>Terms and votes\<close>

definition vote_kept :: "'c raft \<Rightarrow> 'c raft \<Rightarrow> bool" where
  \<comment> \<open>the term only grows, and within a term a vote once given stays\<close>
  "vote_kept rf rf' \<longleftrightarrow>
     rf_me rf' = rf_me rf \<and> rf_peers rf' = rf_peers rf \<and>
     (rf_CurrentTerm rf < rf_CurrentTerm rf' \<or>
      rf_CurrentTerm rf = rf_CurrentTerm rf' \<and> (rf_votedFor rf = - 1 \<or> rf_votedFor rf' = rf_votedFor rf))"

lemma vote_kept_refl [simp]: "vote_kept rf rf"
  by (simp add: vote_kept_def)

lemma vote_kept_trans: "vote_kept a b \<Longrightarrow> vote_kept b c \<Longrightarrow> vote_kept a c"
  by (auto simp: vote_kept_def)

text \<open>Operations that leave the election state alone, except that the peer may step back.\<close>

definition vote_same :: "'c raft \<Rightarrow> 'c raft \<Rightarrow> bool" where
  "vote_same rf rf' \<longleftrightarrow>
     rf_me rf' = rf_me rf \<and> rf_peers rf' = rf_peers rf \<and>
     rf_electionVotes rf' = rf_electionVotes rf \<and> rf_electionDone rf' = rf_electionDone rf \<and>
     (rf_State rf' = rf_State rf \<or> rf_State rf' = Follower) \<and>
     (rf_CurrentTerm rf' = rf_CurrentTerm rf \<and> rf_votedFor rf' = rf_votedFor rf \<or>
      rf_CurrentTerm rf < rf_CurrentTerm rf' \<and> rf_votedFor rf' = - 1 \<and> rf_State rf' = Follower)"

lemma vote_same_refl [simp]: "vote_same rf rf"
  by (simp add: vote_same_def)

lemma vote_same_kept: "vote_same rf rf' \<Longrightarrow> vote_kept rf rf'"
  by (auto simp: vote_same_def vote_kept_def)

lemma vote_same_frame:
  assumes "vote_same rf rf1" "rf_me rf2 = rf_me rf1" "rf_peers rf2 = rf_peers rf1"
    "rf_electionVotes rf2 = rf_electionVotes rf1" "rf_electionDone rf2 = rf_electionDone rf1"
    "rf_State rf2 = rf_State rf1" "rf_CurrentTerm rf2 = rf_CurrentTerm rf1" "rf_votedFor rf2 = rf_votedFor rf1"
  shows "vote_same rf rf2"
  using assms by (simp add: vote_same_def)

lemma vote_same_accepted: "\<not> aa_LeaderTerm args < rf_CurrentTerm rf \<Longrightarrow> vote_same rf (accepted clk args rf)"
  by (simp add: vote_same_def accepted_def timer_defs)

lemma vote_same_handleAppend:
  assumes "handleAppendEntriesRPC clk args rf = Some (rf', reply)"
  shows "vote_same rf rf'"
proof -
  define rf1 where "rf1 = (if aa_LeaderTerm args > rf_CurrentTerm rf
         then persist (rf\<lparr>rf_CurrentTerm := aa_LeaderTerm args, rf_votedFor := - 1\<rparr>) else rf)"
  have acc: "resetElectionTimer clk (rf1\<lparr>rf_State := Follower\<rparr>) = accepted clk args rf"
    by (simp add: accepted_def rf1_def)
  note frame = vote_same_frame[OF vote_same_accepted[of args rf clk]]
  show ?thesis
    using assms unfolding handleAppendEntriesRPC_def Let_def rf1_def[symmetric] acc
    by (auto split: if_splits bind_splits intro!: frame)
qed

lemma vote_same_Start: "Start c rf = Some (rf', r, go) \<Longrightarrow> vote_same rf rf'"
  by (auto simp: Start_def vote_same_def split: if_splits bind_splits)

lemma vote_same_Snapshot: "Snapshot_raft index snap rf = Some (rf', go) \<Longrightarrow> vote_same rf rf'"
  by (auto simp: Snapshot_raft_def vote_same_def Let_def split: if_splits bind_splits)

lemma vote_same_Install: "RequestInstallSnapshot clk args rf = Some (rf', tm) \<Longrightarrow> vote_same rf rf'"
  by (auto simp: RequestInstallSnapshot_def vote_same_def timer_defs Let_def split: if_splits bind_splits)

lemma tryCommitL_frame:
  "tryCommitL m rf = Some rf' \<Longrightarrow> rf' = rf \<or> rf' = rf\<lparr>rf_CommitIndex := m, rf_applyWake := True\<rparr>"
  by (auto simp: tryCommitL_def split: if_splits bind_splits)

lemma vote_same_tracked: "tryCommitL m (set_tracker i t rf) = Some rf' \<Longrightarrow> vote_same rf rf'"
  by (drule tryCommitL_frame) (auto simp: vote_same_def set_tracker_def)

lemma vote_same_set_tracker: "vote_same rf (set_tracker i t rf)"
  by (simp add: vote_same_def set_tracker_def)

lemma vote_same_step_down: "tm > rf_CurrentTerm rf \<Longrightarrow> vote_same rf (step_down tm rf)"
  by (simp add: vote_same_def step_down_def)

lemma vote_same_append_success: "append_success i args rf = Some rf' \<Longrightarrow> vote_same rf rf'"
  by (auto simp: append_success_def Let_def vote_same_set_tracker split: if_splits bind_splits
      dest!: vote_same_tracked)

lemma vote_same_append_failure: "append_failure i reply rf = Some (rf', go) \<Longrightarrow> vote_same rf rf'"
  by (auto simp: append_failure_def vote_same_set_tracker split: if_splits bind_splits)

lemma vote_same_AppendReply:
  "AppendEntries_reply i heart args ok reply rf = Some (rf', go) \<Longrightarrow> vote_same rf rf'"
  by (auto simp: AppendEntries_reply_def heartbeat_reply_def entries_reply_def vote_same_step_down split: if_splits
      dest!: vote_same_append_success vote_same_append_failure)

lemma vote_same_InstallReply:
  "InstallSnapshot_reply i args reply rf = Some rf' \<Longrightarrow> vote_same rf rf'"
  by (auto simp: InstallSnapshot_reply_def vote_same_step_down Let_def split: if_splits bind_splits prod.splits
      dest!: vote_same_tracked)

lemma vote_same_StartAppendEntries: "vote_same rf (fst (StartAppendEntries clk heart rf))"
  by (simp add: StartAppendEntries_def vote_same_def timer_defs Let_def)

lemma apply_pass_frame:
  "apply_pass rf = Some rf' \<Longrightarrow> \<exists>h l. rf' = rf\<lparr>rf_LastApplied := l, rf_ApplyHelper := h\<rparr>"
proof (induction rf rule: apply_pass.induct)
  case (1 rf)
  let ?i = "rf_LastApplied rf + 1"
  show ?case
  proof (cases "?i \<le> rf_CommitIndex rf \<and> ?i \<le> l_LastLogIndex (rf_log rf)")
    case True
    then obtain entry h where e: "\<not> ?i < l_FirstLogIndex (rf_log rf)" "getOneEntry (rf_log rf) ?i = Some entry"
        "tryApply (command_msg ?i (e_Command entry)) (rf_ApplyHelper rf) = Some h"
        "apply_pass (rf\<lparr>rf_LastApplied := ?i, rf_ApplyHelper := h\<rparr>) = Some rf'"
      using 1(2)[unfolded apply_pass.simps[of rf]]
      by (auto simp: command_msg_def Let_def split: if_splits bind_splits)
    show ?thesis using 1(1)[OF True refl e(1,2) e(3)[unfolded command_msg_def] e(4)] by auto
  next
    case False
    then have "rf' = rf" using 1(2)[unfolded apply_pass.simps[of rf]] by auto
    then show ?thesis by (intro exI[of _ "rf_ApplyHelper rf"] exI[of _ "rf_LastApplied rf"]) simp
  qed
qed

lemma vote_same_sendMsg: "sendMsgToTester rf = Some rf' \<Longrightarrow> vote_same rf rf'"
  by (auto simp: sendMsgToTester_def vote_same_def split: if_splits bind_splits dest!: apply_pass_frame)

lemma vote_kept_StartElection: "vote_kept rf (fst (StartElection clk rf))"
  by (simp add: StartElection_def becomeCandidate_def timer_defs vote_kept_def Let_def)

lemma vote_kept_election_reply: "vote_kept rf (fst (election_reply clk ok reply tm n rf))"
  by (auto simp: election_reply_def becomeLeader_def resetTrackedIndex_def timer_defs vote_kept_def Let_def)

lemma vote_kept_RequestVote: "vote_kept rf (fst (RequestVote clk args rf))"
  by (auto simp: RequestVote_def timer_defs vote_kept_def Let_def)

lemma vote_kept_ticker: "vote_kept rf (fst (ticker clk rf))"
  using vote_kept_StartElection[of rf clk]
  by (auto simp: ticker_def StartAppendEntries_def timer_defs Let_def split: role.splits)
     (simp_all add: vote_kept_def)

lemma vote_same_applier: "vote_same rf (rf\<lparr>rf_ApplyHelper := h\<rparr>)"
  by (simp add: vote_same_def)

lemma vote_same_Kill: "vote_same rf (Kill rf)"
  by (simp add: vote_same_def Kill_def)

lemmas vote_same_events = vote_same_handleAppend vote_same_Install vote_same_Start vote_same_AppendReply
  vote_same_InstallReply vote_same_Snapshot vote_same_sendMsg

lemma node_step_vote_kept: "node_step ev rf = Some rf' \<Longrightarrow> vote_kept rf rf'"
  using vote_kept_ticker vote_kept_RequestVote vote_kept_election_reply
    vote_same_StartAppendEntries[THEN vote_same_kept]
  by (cases ev) (auto intro: vote_same_kept vote_same_applier vote_same_Kill dest!: vote_same_events)

section \<open>Runs without snapshots\<close>

definition plain_event :: "nat \<Rightarrow> 'c node_event \<Rightarrow> bool" where
  \<comment> \<open>what the server and its peers do: the server never calls \<open>rf.Snapshot\<close> and the leader
    never sends a snapshot\<close>
  "plain_event n ev =
     (case ev of
        AppendReply i _ _ _ _ \<Rightarrow> 0 \<le> i \<and> i < int n
      | InstallReply i _ _ \<Rightarrow> 0 \<le> i \<and> i < int n
      | InstallRequest _ _ \<Rightarrow> False
      | TakeSnapshot _ _ \<Rightarrow> False
      | _ \<Rightarrow> True)"

definition stream_ok :: "'c raft \<Rightarrow> bool" where
  \<comment> \<open>the messages sent and queued so far are the commands of the indexes from 0 on\<close>
  "stream_ok rf \<longleftrightarrow>
     (let msgs = ah_applyCh (rf_ApplyHelper rf) @ ah_q (rf_ApplyHelper rf)
      in map rm_CommandIndex msgs = [0..rf_LastApplied rf] \<and> list_all rm_CommandValid msgs)"

definition plain_ok :: "nat \<Rightarrow> 'c raft \<Rightarrow> bool" where
  "plain_ok n rf \<longleftrightarrow>
     raft_ok rf \<and> l_FirstLogIndex (rf_log rf) = 0 \<and> - 1 \<le> rf_LastApplied rf \<and> length (rf_peers rf) = n \<and>
     stream_ok rf"

text \<open>Runs of a system whose steps may fail, as an interface: an invariant under which no step fails.\<close>

locale safe_system =
  fixes step :: "'e \<Rightarrow> 's \<Rightarrow> 's option" and run :: "'e list \<Rightarrow> 's \<Rightarrow> 's option"
    and inv :: "'s \<Rightarrow> bool" and allowed :: "'e \<Rightarrow> bool"
  assumes run_Nil: "run [] s = Some s"
    and run_Cons: "step e s = Some s' \<Longrightarrow> run (e # es) s = run es s'"
    and progress: "inv s \<Longrightarrow> allowed e \<Longrightarrow> \<exists>s'. step e s = Some s' \<and> inv s'"
begin

lemma run_progress: "inv s \<Longrightarrow> list_all allowed es \<Longrightarrow> \<exists>s'. run es s = Some s' \<and> inv s'"
proof (induction es arbitrary: s)
  case (Cons e es)
  obtain s' where "step e s = Some s'" "inv s'" using progress Cons.prems by auto
  then show ?case using Cons by (simp add: run_Cons)
qed (simp add: run_Nil)

end

lemma same_data_plain: "same_data rf rf' \<Longrightarrow> plain_ok n rf \<Longrightarrow> plain_ok n rf'"
  using same_data_ok[of rf rf'] by (simp add: same_data_def plain_ok_def stream_ok_def)

lemma push_next_stream:
  assumes "stream_ok rf" "- 1 \<le> rf_LastApplied rf"
  shows "stream_ok (push_next rf)"
proof -
  have "[0..rf_LastApplied rf + 1] = [0..rf_LastApplied rf] @ [rf_LastApplied rf + 1]"
    using assms(2) upto_rec2[of 0 "rf_LastApplied rf + 1"] by simp
  then show ?thesis using assms(1) by (simp add: stream_ok_def push_next_def command_msg_def Let_def)
qed

lemma apply_pass_plain:
  assumes "plain_ok n rf"
  shows "\<exists>rf'. apply_pass rf = Some rf' \<and> plain_ok n rf'"
proof -
  have "raft_ok rf" using assms by (simp add: plain_ok_def)
  then have "\<exists>rf'. apply_pass rf = Some rf' \<and> raft_ok rf' \<and> (plain_ok n rf \<longrightarrow> plain_ok n rf')"
  proof (rule apply_pass_induct)
    fix rf rf'
    assume "raft_ok rf" "plain_ok n (push_next rf) \<longrightarrow> plain_ok n rf'"
    then show "plain_ok n rf \<longrightarrow> plain_ok n rf'"
      using push_next_ok[of rf] push_next_stream[of rf] by (simp add: plain_ok_def)
  qed simp
  then show ?thesis using assms by blast
qed

lemma sendMsgToTester_plain:
  assumes "plain_ok n rf"
  shows "\<exists>rf'. sendMsgToTester rf = Some rf' \<and> plain_ok n rf'"
proof -
  have "plain_ok n (rf\<lparr>rf_applyWake := False\<rparr>)"
    using assms same_data_plain[of rf "rf\<lparr>rf_applyWake := False\<rparr>"] by (simp add: same_data_def)
  then obtain rf' where "apply_pass (rf\<lparr>rf_applyWake := False\<rparr>) = Some rf'" "plain_ok n rf'"
    using apply_pass_plain by blast
  moreover have "plain_ok n (rf'\<lparr>rf_applySenderDone := True\<rparr>)" if "plain_ok n rf'" for rf' :: "'a raft"
    using that same_data_plain[of rf' "rf'\<lparr>rf_applySenderDone := True\<rparr>"] by (simp add: same_data_def)
  ultimately show ?thesis using assms by (auto simp: sendMsgToTester_def)
qed

lemma handleAppend_plain:
  assumes "plain_ok n rf"
  shows "\<exists>rf' reply. handleAppendEntriesRPC clk args rf = Some (rf', reply) \<and> plain_ok n rf'"
proof -
  have ok: "raft_ok rf" and first: "l_FirstLogIndex (rf_log rf) = 0" using assms by (simp_all add: plain_ok_def)
  have "handleAppendEntriesRPC clk args rf \<noteq> None"
    using first by (simp add: handleAppend_eq[OF ok] prev_in_snapshot_def)
  then obtain rf' reply where r: "handleAppendEntriesRPC clk args rf = Some (rf', reply)" by auto
  have "rf_LastApplied rf' = rf_LastApplied rf \<and> rf_ApplyHelper rf' = rf_ApplyHelper rf"
    using r by (auto simp: handleAppend_eq[OF ok] commit_to_def accepted_def timer_defs split: if_splits)
  then show ?thesis using r handleAppend_ok[OF ok r] assms by (auto simp: plain_ok_def stream_ok_def)
qed

lemma Start_plain:
  assumes "plain_ok n rf"
  shows "\<exists>rf' r go. Start c rf = Some (rf', r, go) \<and> plain_ok n rf'"
proof -
  have ok: "raft_ok rf" using assms by (simp add: plain_ok_def)
  obtain rf' r go where r: "Start c rf = Some (rf', r, go)" "raft_ok rf'"
      "l_FirstLogIndex (rf_log rf') = l_FirstLogIndex (rf_log rf)" "rf_peers rf' = rf_peers rf"
    using Start_ok[OF ok] by metis
  have "rf_LastApplied rf' = rf_LastApplied rf \<and> rf_ApplyHelper rf' = rf_ApplyHelper rf"
    using r(1) by (auto simp: Start_def split: if_splits bind_splits)
  then have "plain_ok n rf'" using r assms by (simp add: plain_ok_def stream_ok_def)
  then show ?thesis using r(1) by blast
qed

lemma node_step_plain:
  assumes "plain_ok n rf" "plain_event n ev"
  shows "\<exists>rf'. node_step ev rf = Some rf' \<and> plain_ok n rf'"
proof -
  have ok: "raft_ok rf" and n: "length (rf_peers rf) = n" using assms(1) by (simp_all add: plain_ok_def)
  note plain = same_data_plain[OF _ assms(1)]
  show ?thesis
  proof (cases ev)
    case (AppendReply i heart args ok' reply)
    then show ?thesis
      using AppendEntries_reply_data[OF ok, of i heart args ok' reply] assms(2) n plain by (auto simp: plain_event_def)
  next
    case (InstallReply i args reply)
    then show ?thesis
      using InstallSnapshot_reply_data[OF ok, of i args reply] assms(2) n plain by (auto simp: plain_event_def)
  next
    case (AppendRequest clk args)
    then show ?thesis using handleAppend_plain[OF assms(1), of clk args] by auto
  next
    case (Propose c)
    then show ?thesis using Start_plain[OF assms(1), of c] by auto
  next
    case ApplyRound
    then show ?thesis using sendMsgToTester_plain[OF assms(1)] by simp
  next
    case ApplierRound
    then show ?thesis
      using assms(1) by (auto simp: plain_ok_def raft_ok_def stream_ok_def applier_def split: list.splits)
  next
    case KillPeer
    then show ?thesis
      using assms(1) by (simp add: plain_ok_def raft_ok_def stream_ok_def Kill_def helper_Kill_def)
  qed (use assms(2) in \<open>simp_all add: plain_event_def plain same_data_ticker same_data_RequestVote
         same_data_election_reply same_data_StartAppendEntries\<close>)
qed

interpretation nr: safe_system node_step node_run "plain_ok n" "plain_event n" for n :: nat
  by unfold_locales (simp_all add: node_step_plain)

section \<open>Properties\<close>

lemma Make_fresh:
  "\<exists>rf. Make registered clk peers me MakePersister = Some rf \<and> plain_ok (length peers) rf"
  by (simp add: Make_def readPersist_def MakePersister_def plain_ok_def raft_ok_def stream_ok_def
      NewApplyHelper_def NewLog_def log_ok_def)

text \<open>
  C7: A peer that starts without saved state and takes no snapshot never panics, whatever
  requests and replies arrive, in whatever order: no nil entry is dereferenced, no slice
  expression leaves its bounds, \<open>tryApply\<close> meets no gap. Its log stays well formed.
\<close>

theorem raft_never_panics:
  assumes "list_all (plain_event (length peers)) evs"
  shows "\<exists>rf rf'. Make registered clk peers me MakePersister = Some rf \<and> node_run evs rf = Some rf' \<and>
           raft_ok rf' \<and> int (length (l_Entries (rf_log rf'))) = l_LastLogIndex (rf_log rf') + 1"
proof -
  obtain rf where rf: "Make registered clk peers me MakePersister = Some rf" "plain_ok (length peers) rf"
    using Make_fresh by blast
  obtain rf' where "node_run evs rf = Some rf'" "plain_ok (length peers) rf'"
    using nr.run_progress[OF rf(2) assms] by blast
  then show ?thesis using rf(1) by (auto simp: plain_ok_def raft_ok_def log_ok_def)
qed

definition demo_entry :: "nat \<Rightarrow> nat entry" where
  "demo_entry c = \<lparr>e_Term = 1, e_Command = c\<rparr>"

definition demo_append :: "nat append_args" where
  "demo_append = \<lparr>aa_LeaderTerm = 1, aa_LeaderId = 2, aa_PrevLogIndex = - 1, aa_PrevLogTerm = 0,
                  aa_Entries = [demo_entry 10, demo_entry 11], aa_LeaderCommit = 1\<rparr>"

definition demo_events :: "nat node_event list" where
  "demo_events = [AppendRequest (0, 0) demo_append, ApplyRound, ApplierRound, Propose 12, KillPeer, ApplyRound]"

theorem raft_never_panics_witness:
  "list_all (plain_event (length [''a'', ''b''])) demo_events \<and>
   (\<exists>rf rf'. Make (\<lambda>_. True) (0, 0) [''a'', ''b''] 1 MakePersister = Some rf \<and>
      node_run demo_events rf = Some rf' \<and> raft_ok rf' \<and>
      int (length (l_Entries (rf_log rf'))) = l_LastLogIndex (rf_log rf') + 1)"
proof -
  have ev: "list_all (plain_event (length [''a'', ''b''])) demo_events"
    by (simp add: demo_events_def plain_event_def)
  from raft_never_panics[OF ev, of "\<lambda>_. True" "(0, 0)" 1] ev show ?thesis by blast
qed

lemma apply_pass_content:
  assumes "raft_ok rf"
  shows "\<exists>rf'. apply_pass rf = Some rf' \<and> raft_ok rf' \<and>
     (rf_LastApplied rf' = max (rf_LastApplied rf) (min (rf_CommitIndex rf) (l_LastLogIndex (rf_log rf))) \<and>
      ah_q (rf_ApplyHelper rf') = ah_q (rf_ApplyHelper rf) @
        map (\<lambda>i. command_msg i (e_Command (the (getOneEntry (rf_log rf) i)))) [rf_LastApplied rf + 1..rf_LastApplied rf'])"
  using assms
proof (rule apply_pass_induct)
  fix rf rf' :: "'a raft"
  assume "due rf"
    and IH: "rf_LastApplied rf' =
              max (rf_LastApplied (push_next rf)) (min (rf_CommitIndex (push_next rf)) (l_LastLogIndex (rf_log (push_next rf)))) \<and>
      ah_q (rf_ApplyHelper rf') = ah_q (rf_ApplyHelper (push_next rf)) @
        map (\<lambda>i. command_msg i (e_Command (the (getOneEntry (rf_log (push_next rf)) i))))
          [rf_LastApplied (push_next rf) + 1..rf_LastApplied rf']"
  have last: "rf_LastApplied rf' = max (rf_LastApplied rf) (min (rf_CommitIndex rf) (l_LastLogIndex (rf_log rf)))"
    and le: "rf_LastApplied rf + 1 \<le> rf_LastApplied rf'"
    using IH \<open>due rf\<close> by (auto simp: due_def)
  have "[rf_LastApplied rf + 1..rf_LastApplied rf'] =
          (rf_LastApplied rf + 1) # [rf_LastApplied rf + 1 + 1..rf_LastApplied rf']"
    using le by (rule upto_rec1)
  then show "rf_LastApplied rf' = max (rf_LastApplied rf) (min (rf_CommitIndex rf) (l_LastLogIndex (rf_log rf))) \<and>
      ah_q (rf_ApplyHelper rf') = ah_q (rf_ApplyHelper rf) @
        map (\<lambda>i. command_msg i (e_Command (the (getOneEntry (rf_log rf) i)))) [rf_LastApplied rf + 1..rf_LastApplied rf']"
    using IH last by (simp add: push_next_def Let_def)
qed (auto simp: due_def)

text \<open>
  C11: The messages that a peer without snapshots has sent or queued for the service are the
  commands of the indexes 0, 1, 2, \<open>\<dots>\<close> up to \<open>LastApplied\<close>: each index once, in order,
  without a gap. When the apply goroutine is woken it queues the log's commands from there up
  to the commit index, or to the end of the log.
\<close>

theorem raft_apply_in_order:
  assumes "Make registered clk peers me MakePersister = Some rf"
    and "list_all (plain_event (length peers)) evs" "node_run evs rf = Some rf'"
  shows "map rm_CommandIndex (ah_applyCh (rf_ApplyHelper rf') @ ah_q (rf_ApplyHelper rf')) = [0..rf_LastApplied rf'] \<and>
    (rf_applyWake rf' \<and> \<not> rf_applySenderDone rf' \<longrightarrow>
       (\<exists>rf''. sendMsgToTester rf' = Some rf'' \<and>
          rf_LastApplied rf'' = max (rf_LastApplied rf') (min (rf_CommitIndex rf') (l_LastLogIndex (rf_log rf'))) \<and>
          ah_q (rf_ApplyHelper rf'') = ah_q (rf_ApplyHelper rf') @
            map (\<lambda>i. command_msg i (e_Command (the (getOneEntry (rf_log rf') i))))
              [rf_LastApplied rf' + 1..rf_LastApplied rf'']))"
proof -
  have "plain_ok (length peers) rf" using Make_fresh[of registered clk peers me] assms(1) by auto
  from nr.run_progress[OF this assms(2)] have ok: "plain_ok (length peers) rf'" using assms(3) by auto
  then have "raft_ok (rf'\<lparr>rf_applyWake := False\<rparr>)" by (simp add: plain_ok_def raft_ok_def)
  from apply_pass_content[OF this] show ?thesis
    using ok by (auto simp: plain_ok_def stream_ok_def sendMsgToTester_def)
qed

theorem raft_apply_in_order_witness:
  "\<exists>rf rf'. Make (\<lambda>_. True) (0, 0) [''a'', ''b''] 1 MakePersister = Some rf \<and>
     node_run demo_events rf = Some rf' \<and>
     map rm_CommandIndex (ah_applyCh (rf_ApplyHelper rf') @ ah_q (rf_ApplyHelper rf')) = [0, 1]"
proof -
  define rf where "rf = the (Make (\<lambda>_. True) (0, 0) [''a'', ''b''] 1 MakePersister :: nat raft option)"
  define rf' where "rf' = the (node_run demo_events rf)"
  have mk: "Make (\<lambda>_. True) (0, 0) [''a'', ''b''] 1 MakePersister = Some rf"
    unfolding rf_def by (simp add: Make_def readPersist_def MakePersister_def)
  have run: "node_run demo_events rf = Some rf'" "rf_LastApplied rf' = 1"
    unfolding rf'_def rf_def by code_simp+
  have ev: "list_all (plain_event (length [''a'', ''b''])) demo_events"
    by (simp add: demo_events_def plain_event_def)
  from raft_apply_in_order[OF mk ev run(1)] run(2)
  have "map rm_CommandIndex (ah_applyCh (rf_ApplyHelper rf') @ ah_q (rf_ApplyHelper rf')) = [0..1]" by simp
  then show ?thesis using mk run(1) by (auto simp: upto.simps)
qed

lemma node_run_vote_kept: "node_run evs rf = Some rf' \<Longrightarrow> vote_kept rf rf'"
proof (induction evs arbitrary: rf)
  case (Cons ev evs)
  then show ?case by (auto split: bind_splits intro: vote_kept_trans node_step_vote_kept)
qed simp

text \<open>
  C12: A peer votes at most once in a term. Whatever happens to it, its term never falls, and
  as long as the term stays the same a vote it has given is not changed; so a request for the
  same term from any other candidate is then refused.
\<close>

theorem raft_vote_once:
  assumes "node_run evs rf = Some rf'" "rf_votedFor rf = c" "c \<noteq> - 1"
  shows "rf_CurrentTerm rf \<le> rf_CurrentTerm rf' \<and>
    (rf_CurrentTerm rf' = rf_CurrentTerm rf \<longrightarrow> rf_votedFor rf' = c) \<and>
    (va_Term args = rf_CurrentTerm rf \<and> va_CandidateId args \<noteq> c \<longrightarrow>
       \<not> vr_VoteGranted (snd (RequestVote clk args rf')))"
  using node_run_vote_kept[OF assms(1)] assms(2,3)
  by (auto simp: vote_kept_def RequestVote_def Let_def)

definition demo_peer :: "nat raft" where
  "demo_peer = the (Make (\<lambda>_. True) (0, 0) [''a'', ''b'', ''c''] 1 MakePersister)"

definition demo_vote :: "int \<Rightarrow> vote_args" where
  "demo_vote c = \<lparr>va_Term = 1, va_CandidateId = c, va_LastLogIndex = - 1, va_LastLogTerm = 0\<rparr>"

theorem raft_vote_once_witness:
  "\<exists>rf rf'. node_run [VoteRequest (0, 0) (demo_vote 2)] demo_peer = Some rf \<and> rf_votedFor rf = 2 \<and>
     node_run [VoteRequest (5, 0) (demo_vote 3), ApplyRound] rf = Some rf' \<and> rf_votedFor rf' = 2 \<and>
     \<not> vr_VoteGranted (snd (RequestVote (7, 0) (demo_vote 3) rf'))"
proof -
  define rf where "rf = the (node_run [VoteRequest (0, 0) (demo_vote 2)] demo_peer)"
  define rf' where "rf' = the (node_run [VoteRequest (5, 0) (demo_vote 3), ApplyRound] rf)"
  have a: "node_run [VoteRequest (0, 0) (demo_vote 2)] demo_peer = Some rf" "rf_votedFor rf = 2"
      "rf_CurrentTerm rf = 1"
    unfolding rf_def by code_simp+
  have b: "node_run [VoteRequest (5, 0) (demo_vote 3), ApplyRound] rf = Some rf'" "rf_CurrentTerm rf' = 1"
    unfolding rf'_def rf_def by code_simp+
  from raft_vote_once[OF b(1) a(2), of "demo_vote 3" "(7, 0)"] a b show ?thesis
    by (auto simp: demo_vote_def)
qed



lemma commit_count_card:
  "commit_count m rf =
           1 + int (card {i. i < length (rf_peers rf) \<and> int i \<noteq> rf_me rf - 1 \<and> m \<le> t_matchIndex (rf_peerTrackers rf ! i)})"
proof -
  have "length (filter P [0..<n]) = card {i. i < n \<and> P i}" for P n
    using distinct_card[of "filter P [0..<n]"] by simp
  then show ?thesis by (simp add: commit_count_def)
qed


definition demo_leader :: "nat raft" where
  \<comment> \<open>peer 1 of three, elected in term 1, with two commands of its own in the log\<close>
  "demo_leader = the (node_run
     [Tick (3000000000, 0), VoteReply (3000000000, 0) True \<lparr>vr_Term = 1, vr_VoteGranted = True\<rparr> 1,
      Propose 10, Propose 11] demo_peer)"


lemma gob_log_NewLog:
  "log_ok lg \<Longrightarrow> l_LastLogIndex lg \<noteq> 0 \<Longrightarrow> gob_log lg NewLog = lg"
  by (cases lg) (auto simp: gob_log_def NewLog_def log_ok_def)



text \<open>
  The follower does not check the entry at index 0. A follower that has nothing accepts a
  request whose entries follow index 0, reports success, and stores the entry of index 1 at
  index 0: its log has the leader's commands at the wrong places.
\<close>

theorem raft_prev_zero_shifts:
  assumes "raft_ok rf" "\<not> rf_dead rf" "rf_CurrentTerm rf \<le> aa_LeaderTerm args"
    and "rf_log rf = NewLog" "aa_PrevLogIndex args = 0"
  shows "\<exists>rf' reply. handleAppendEntriesRPC clk args rf = Some (rf', reply) \<and> ar_Success reply \<and>
    rf_log rf' = log_of 0 (aa_Entries args)"
proof -
  have loop: "append_loop es i (log_of 0 xs) = Some (log_of 0 (xs @ es))" if "int (length xs) \<le> i" for es i xs
    using that
  proof (induction es arbitrary: i xs)
    case (Cons e es)
    have "append_loop (e # es) i (log_of 0 xs) = append_loop es (i + 1) (log_of 0 (xs @ [e]))"
      using Cons.prems by (simp add: log_of_def)
    then show ?case using Cons.IH[of "xs @ [e]" "i + 1"] Cons.prems by simp
  qed simp
  have "append_loop (aa_Entries args) 0 NewLog = Some (log_of 0 (aa_Entries args))"
    using loop[of "[]" 0] by (simp add: NewLog_def log_of_def)
  then show ?thesis
    using assms by (simp add: handleAppend_eq[OF assms(1)] prev_in_snapshot_def prev_matches_def
        commit_to_def zero_append_reply_def)
qed

theorem raft_prev_zero_shifts_witness:
  "\<exists>rf' reply. handleAppendEntriesRPC (0, 0) (demo_append\<lparr>aa_PrevLogIndex := 0, aa_Entries := [demo_entry 11]\<rparr>) demo_peer =
       Some (rf', reply) \<and> ar_Success reply \<and> getOneEntry (rf_log rf') 0 = Some (demo_entry 11)"
proof -
  let ?args = "demo_append\<lparr>aa_PrevLogIndex := 0, aa_Entries := [demo_entry 11]\<rparr>"
  have a: "\<not> rf_dead demo_peer" "rf_CurrentTerm demo_peer \<le> aa_LeaderTerm ?args" "rf_log demo_peer = NewLog"
    by code_simp+
  have ok: "raft_ok demo_peer" unfolding raft_ok_def log_ok_def by code_simp
  from raft_prev_zero_shifts[OF ok a, of "(0, 0)"] show ?thesis by (auto simp: raft_log)
qed

text \<open>
  A peer that has installed a snapshot panics at the next request that continues the log
  behind it, because the handler looks for the term of the last snapshotted entry in the log.
\<close>

theorem raft_snapshot_panics:
  assumes "raft_ok rf" "\<not> rf_dead rf" "rf_CurrentTerm rf \<le> ia_Term iargs" "ia_Term iargs \<le> aa_LeaderTerm args"
    and "rf_snapshotLastIncludeIndex rf < ia_LastIncludeIndex iargs"
    and "aa_PrevLogIndex args = ia_LastIncludeIndex iargs"
  shows "\<exists>rf' tm. RequestInstallSnapshot clk iargs rf = Some (rf', tm) \<and>
    handleAppendEntriesRPC clk' args rf' = None"
proof -
  obtain rf' tm where r: "RequestInstallSnapshot clk iargs rf = Some (rf', tm)" "raft_ok rf'"
    using RequestInstallSnapshot_ok[OF assms(1)] by blast
  have f: "\<not> rf_dead rf'" "rf_CurrentTerm rf' \<le> aa_LeaderTerm args"
    "l_FirstLogIndex (rf_log rf') = ia_LastIncludeIndex iargs + 1"
    using r(1) assms
    by (auto simp: RequestInstallSnapshot_def timer_defs Let_def split: if_splits bind_splits)
  moreover have "ia_LastIncludeIndex iargs \<le> l_LastLogIndex (rf_log rf')"
    using r(2) f(3) by (simp add: raft_ok_def log_ok_def)
  moreover have "0 < ia_LastIncludeIndex iargs" using assms(1,5) by (simp add: raft_ok_def)
  ultimately show ?thesis using r(1) assms(6) by (simp add: handleAppend_eq[OF r(2)] prev_in_snapshot_def)
qed

theorem raft_snapshot_panics_witness:
  "\<exists>rf' tm. RequestInstallSnapshot (0, 0)
       \<lparr>ia_Term = 1, ia_LeaderId = 2, ia_LastIncludeIndex = 5, ia_LastIncludeTerm = 1, ia_Snapshot = []\<rparr> demo_peer = Some (rf', tm) \<and>
     handleAppendEntriesRPC (1, 0) (demo_append\<lparr>aa_PrevLogIndex := 5, aa_PrevLogTerm := 1\<rparr>) rf' = None"
proof -
  let ?i = "\<lparr>ia_Term = 1, ia_LeaderId = 2, ia_LastIncludeIndex = 5, ia_LastIncludeTerm = 1, ia_Snapshot = []\<rparr>"
  let ?a = "demo_append\<lparr>aa_PrevLogIndex := 5, aa_PrevLogTerm := 1\<rparr>"
  have a: "\<not> rf_dead demo_peer" "rf_CurrentTerm demo_peer \<le> ia_Term ?i"
    "ia_Term ?i \<le> aa_LeaderTerm ?a" "rf_snapshotLastIncludeIndex demo_peer < ia_LastIncludeIndex ?i"
    by code_simp+
  have ok: "raft_ok demo_peer" unfolding raft_ok_def log_ok_def by code_simp
  from raft_snapshot_panics[OF ok a] show ?thesis by simp
qed

lemma reconcile_agree:
  assumes "\<And>i. i < length old \<Longrightarrow> i < length new \<Longrightarrow> e_Term (old ! i) = e_Term (new ! i) \<Longrightarrow>
      take (Suc i) old = take (Suc i) new"
  shows "\<exists>rest. reconcile old new = new @ rest"
  using assms
proof (induction old new rule: reconcile.induct)
  case (3 x old y new)
  show ?case
  proof (cases "e_Term x = e_Term y")
    case True
    have "x = y" using "3.prems"[of 0] True by simp
    moreover have "\<exists>rest. reconcile old new = new @ rest"
    proof (rule "3.IH"[OF True])
      fix i assume "i < length old" "i < length new" "e_Term (old ! i) = e_Term (new ! i)"
      then show "take (Suc i) old = take (Suc i) new" using "3.prems"[of "Suc i"] by simp
    qed
    ultimately show ?thesis using True by auto
  qed simp
qed simp_all

definition wire_entry :: "('c \<Rightarrow> 'c) \<Rightarrow> 'c entry \<Rightarrow> 'c entry" where
  \<comment> \<open>an entry after it went over the network; \<open>wire\<close> is what JSON makes of its command\<close>
  "wire_entry wire e = \<lparr>e_Term = e_Term e, e_Command = wire (e_Command e)\<rparr>"

text \<open>
  C15: Replication brings a follower's log in line with the leader's. Suppose that wherever
  the follower has an entry with the term of the leader's entry at the same index, the two
  logs agree up to there (the commands as JSON transmits them). If the follower accepts the
  request that the leader builds for it, and the request does not continue at index 1, then
  the follower's log begins with the leader's whole log, and the index that the leader will
  record as acknowledged is the last one of its log.
\<close>

theorem raft_replication:
  assumes leader: "raft_ok rl" "rf_log rl = log_of 0 ls" "entries_send target rl = Some (Some args, go)"
    and follower: "raft_ok rf" "rf_log rf = log_of 0 es"
    and match: "\<forall>i. i < length es \<longrightarrow> i < length ls \<longrightarrow> e_Term (es ! i) = e_Term (ls ! i) \<longrightarrow>
        take (Suc i) es = map (wire_entry wire) (take (Suc i) ls)"
    and handled: "handleAppendEntriesRPC clk (args\<lparr>aa_Entries := map (wire_entry wire) (aa_Entries args)\<rparr>) rf =
        Some (rf', reply)" "ar_Success reply"
    and prev: "aa_PrevLogIndex args \<noteq> 0"
  shows "(\<exists>rest. rf_log rf' = log_of 0 (map (wire_entry wire) ls @ rest)) \<and>
    aa_PrevLogIndex args + int (length (aa_Entries args)) = l_LastLogIndex (rf_log rl)"
proof -
  let ?w = "wire_entry wire"
  let ?args = "args\<lparr>aa_Entries := map ?w (aa_Entries args)\<rparr>"
  define k where "k = nat (aa_PrevLogIndex args + 1)"
  obtain t where t: "- 1 \<le> aa_PrevLogIndex args" "aa_PrevLogIndex args \<le> l_LastLogIndex (rf_log rl)"
      "getEntryTerm rl (aa_PrevLogIndex args) = Some (aa_PrevLogTerm args)"
      "aa_Entries args = getAppendEntries (rf_log rl) (aa_PrevLogIndex args + 1)"
    using leader by (auto simp: entries_send_def Let_def split: if_splits bind_splits)
  have k: "aa_PrevLogIndex args = int k - 1" "k \<le> length ls" using t(1,2) leader(2) by (auto simp: k_def)
  have ents: "aa_Entries args = drop k ls" using t(4) leader(2) k(1) by (simp add: raft_log)
  have live: "\<not> rf_dead rf" "\<not> aa_LeaderTerm args < rf_CurrentTerm rf" and pm: "prev_matches ?args (rf_log rf)"
    and loop: "rf_log rf' = the (append_loop (map ?w (aa_Entries args)) (aa_PrevLogIndex args) (rf_log rf))"
    using handled by (auto simp: handleAppend_eq[OF follower(1)] zero_append_reply_def commit_to_def split: if_splits)
  have pre: "k \<le> length es \<and> take k es = map ?w (take k ls)"
  proof (cases k)
    case (Suc j)
    have j: "0 < j" "nat (int j) = j" using prev k(1) Suc by simp_all
    have old: "j < length es" "e_Term (es ! j) = aa_PrevLogTerm args"
      using pm j follower(2) k(1) Suc by (auto simp: prev_matches_def raft_log split: if_splits)
    have "aa_PrevLogTerm args = e_Term (ls ! j)"
      using t(3) leader(2) k Suc j by (auto simp: getEntryTerm_def raft_log)
    then have "take (Suc j) es = map ?w (take (Suc j) ls)" using match old k(2) Suc by simp
    then show ?thesis using old Suc by simp
  qed simp
  have agree: "\<exists>rest. reconcile (drop k es) (map ?w (drop k ls)) = map ?w (drop k ls) @ rest"
  proof (rule reconcile_agree)
    fix i assume i: "i < length (drop k es)" "i < length (map ?w (drop k ls))"
      "e_Term (drop k es ! i) = e_Term (map ?w (drop k ls) ! i)"
    then have "take (Suc (k + i)) es = map ?w (take (Suc (k + i)) ls)"
      using match by (simp add: wire_entry_def)
    then have "drop k (take (Suc (k + i)) es) = drop k (map ?w (take (Suc (k + i)) ls))" by simp
    then show "take (Suc i) (drop k es) = take (Suc i) (map ?w (drop k ls))"
      by (simp add: drop_take drop_map take_map)
  qed
  have "rf_log rf' = log_of 0 (take k es @ reconcile (drop k es) (map ?w (drop k ls)))"
    using loop append_loop_reconcile[of k es "map ?w (drop k ls)" 0] pre follower(2) k(1) ents by simp
  then have "\<exists>rest. rf_log rf' = log_of 0 (map ?w (take k ls) @ map ?w (drop k ls) @ rest)"
    using agree pre by auto
  then have "\<exists>rest. rf_log rf' = log_of 0 (map ?w ls @ rest)"
    by (metis append.assoc append_take_drop_id map_append)
  then show ?thesis using ents k leader(2) by simp
qed

theorem raft_replication_witness:
  "\<exists>args rf' reply. entries_send 1 demo_leader = Some (Some args, []) \<and>
     handleAppendEntriesRPC (0, 0) (args\<lparr>aa_Entries := map (wire_entry id) (aa_Entries args)\<rparr>) demo_peer = Some (rf', reply) \<and>
     (\<exists>rest. rf_log rf' = log_of 0 ([demo_entry 10, demo_entry 11] @ rest))"
proof -
  define args where "args = the (fst (the (entries_send 1 demo_leader)))"
  define r where "r = the (handleAppendEntriesRPC (0, 0) (args\<lparr>aa_Entries := map (wire_entry id) (aa_Entries args)\<rparr>) demo_peer)"
  have l: "raft_ok demo_leader" "rf_log demo_leader = log_of 0 [demo_entry 10, demo_entry 11]"
    unfolding raft_ok_def log_ok_def by code_simp+
  have f: "raft_ok demo_peer" "rf_log demo_peer = log_of 0 []"
    unfolding raft_ok_def log_ok_def by code_simp+
  have s: "entries_send 1 demo_leader = Some (Some args, [])" "aa_PrevLogIndex args \<noteq> 0"
    unfolding args_def by code_simp+
  have h: "handleAppendEntriesRPC (0, 0) (args\<lparr>aa_Entries := map (wire_entry id) (aa_Entries args)\<rparr>) demo_peer =
      Some (fst r, snd r)" "ar_Success (snd r)"
    unfolding r_def args_def by code_simp+
  have "map (wire_entry id) [demo_entry 10, demo_entry 11] = [demo_entry 10, demo_entry 11]"
    by (simp add: wire_entry_def demo_entry_def)
  then show ?thesis
    using raft_replication[OF l(1,2) s(1) f _ h s(2)] s(1) h(1) by fastforce
qed

end
