(* ===== verification/Service.thy ===== *)
theory Service
  imports Recovery Lock_Manager Raft_Node
begin

text \<open>
  A running server (\<open>server/server.go\<close>): the Raft peer, the replicated state of
  \<open>Server_Apply\<close>, the lock table and the calls of its clients. \<open>Submit\<close> waits for the apply
  loop between two parts that hold \<open>s.mu\<close>, so it is modelled as these two parts. Every call
  that takes \<open>s.mu\<close> waits for ever once the apply loop has blocked while it holds the mutex
  (\<open>sv_blocked\<close>). Also the loop that revokes expired leases, and the statistics.
  The peer raises its \<open>LastApplied\<close> before it sends a message, so that the update at the end of an
  iteration of \<open>applyLoop\<close>, which only ever raises it, changes nothing.
\<close>

section \<open>State\<close>

record service =
  sc_id :: int
  sc_sv :: server
  sc_rf :: "iface raft option"         \<comment> \<open>\<open>None\<close> is nil\<close>
  sc_lockMgr :: locks
  sc_startupErr :: "string option"

definition IsLeader :: "service \<Rightarrow> bool" where
  "IsLeader sc = (case sc_rf sc of None \<Rightarrow> False | Some rf \<Rightarrow> rf_State rf = Leader)"

definition StartupError :: "service \<Rightarrow> string option" where
  "StartupError sc = sc_startupErr sc"

definition start_service ::
  "int \<Rightarrow> clock \<Rightarrow> string list \<Rightarrow> (string option \<times> server) \<Rightarrow> service option" where
  \<comment> \<open>the rest of \<open>NewServer\<close>, from the result of \<open>restorePersistentState\<close> on; gob knows
    neither \<open>kv.Command\<close> nor a map from strings to interface values\<close>
  "start_service i clk peers restored =
     (case restored of
        (Some err, sv) \<Rightarrow>
          Some \<lparr>sc_id = i, sc_sv = sv, sc_rf = None, sc_lockMgr = NewLockManager, sc_startupErr = Some err\<rparr>
      | (None, sv) \<Rightarrow>
          do { rf \<leftarrow> Make (\<lambda>_. False) clk peers i MakePersister;
               Some \<lparr>sc_id = i, sc_sv = sv, sc_rf = Some rf, sc_lockMgr = NewLockManager,
                     sc_startupErr = None\<rparr> })"

section \<open>\<open>Submit\<close>\<close>

definition submit_stamp :: "int \<Rightarrow> command \<Rightarrow> command" where
  \<comment> \<open>the TTL and the expiry time of a lease command\<close>
  "submit_stamp now cmd =
     (if c_Type cmd = CmdLeaseGrant \<or> c_Type cmd = CmdLeaseKeepAlive
      then (let cmd1 = (if c_TTL cmd \<le> 0 then cmd\<lparr>c_TTL := 10\<rparr> else cmd)
            in if c_ExpireAt cmd1 \<le> 0 then cmd1\<lparr>c_ExpireAt := deadline now (c_TTL cmd1)\<rparr> else cmd1)
      else cmd)"

definition Submit_start :: "int \<Rightarrow> command \<Rightarrow> service \<Rightarrow> (service \<times> (string + int)) option go" where
  \<comment> \<open>up to the wait: an error, or the index whose reply the caller waits for\<close>
  "Submit_start now cmd sc =
     (if sv_blocked (sc_sv sc) then Blocked
      else Ret (case sc_startupErr sc of
        Some err \<Rightarrow> Some (sc, Inl (''server unavailable: '' @ err))
      | None \<Rightarrow>
      (case sv_persistenceErr (sc_sv sc) of
        Some err \<Rightarrow> Some (sc, Inl (''server unavailable: '' @ err))
      | None \<Rightarrow>
      (case sc_rf sc of
        None \<Rightarrow> Some (sc, Inl ''server unavailable'')
      | Some rf \<Rightarrow>
          if \<not> IsLeader sc then Some (sc, Inl ''not leader'')
          else do {
            (rf1, (idx, tm, ok), go) \<leftarrow> Start (ICommand (submit_stamp now cmd)) rf;
            let sc1 = sc\<lparr>sc_rf := Some rf1\<rparr>
            in if \<not> ok then Some (sc1, Inl ''submit failed'')
               else Some (sc1\<lparr>sc_sv := (sc_sv sc1)\<lparr>sv_replyCh := List.insert idx (sv_replyCh (sc_sv sc1))\<rparr>\<rparr>,
                          Inr idx) }))))"

definition Submit_finish :: "int \<Rightarrow> reply option \<Rightarrow> service \<Rightarrow> (service \<times> (string + string)) go" where
  \<comment> \<open>after the wait: the reply that came, or \<open>None\<close> after five seconds\<close>
  "Submit_finish idx got sc =
     (case got of
        Some (ReplyText value) \<Rightarrow> Ret (sc, Inr value)
      | Some (ReplyError err) \<Rightarrow> Ret (sc, Inl err)
      | None \<Rightarrow>
          if sv_blocked (sc_sv sc) then Blocked
          else Ret (sc\<lparr>sc_sv := (sc_sv sc)\<lparr>sv_replyCh := removeAll idx (sv_replyCh (sc_sv sc))\<rparr>\<rparr>,
                    Inl ''timeout''))"

section \<open>Local reads\<close>

definition Get_server :: "string \<Rightarrow> service \<Rightarrow> string go" where
  "Get_server key sc = (if sv_blocked (sc_sv sc) then Blocked else Get (sv_store (sc_sv sc)) key)"

definition GetPrefix_server :: "string \<Rightarrow> service \<Rightarrow> (string, string) gomap go" where
  "GetPrefix_server pre sc =
     (if sv_blocked (sc_sv sc) then Blocked else Ret (GetPrefix (sv_store (sc_sv sc)) pre))"

datatype stat = StatInt int | StatBool bool | StatText string

definition GetStats :: "service \<Rightarrow> (string, stat) gomap go" where
  "GetStats sc =
     (if sv_blocked (sc_sv sc) then Blocked
      else let stats =
             [(''id'', StatInt (sc_id sc)), (''is_leader'', StatBool (IsLeader sc)),
              (''store_size'', StatInt (int (Size (sv_store (sc_sv sc)))))]
           in Ret (case sc_rf sc of
                Some rf \<Rightarrow> stats @ [(''commit_index'', StatInt (rf_CommitIndex rf)),
                                    (''last_applied'', StatInt (rf_LastApplied rf)),
                                    (''current_term'', StatInt (rf_CurrentTerm rf))]
              | None \<Rightarrow> stats @ [(''commit_index'', StatInt (- 1)), (''last_applied'', StatInt (- 1)),
                                 (''current_term'', StatInt 0)]))"

section \<open>Expired leases\<close>

definition expired_command :: "int \<Rightarrow> lease_mgr \<Rightarrow> command option" where
  \<comment> \<open>what an iteration of \<open>cleanupExpiredLeases\<close> submits, if anything\<close>
  "expired_command now le =
     (case GetExpiringLease le of
        None \<Rightarrow> None
      | Some item \<Rightarrow>
          if i_expireAt item > now then None
          else Some (zero_command\<lparr>c_Type := CmdLeaseRevoke, c_LeaseID := i_ID item, c_ExpireAt := i_expireAt item\<rparr>))"

partial_function (option) cleanupExpiredLeases ::
  "(command \<Rightarrow> core \<Rightarrow> core \<times> bool) \<Rightarrow> int \<Rightarrow> core \<Rightarrow> core option" where
  \<comment> \<open>\<open>submit\<close> stands for \<open>Submit\<close> and what the apply loop does meanwhile: the state afterwards
    and whether there was no error\<close>
  "cleanupExpiredLeases submit now c =
     (case expired_command now (fst (snd c)) of
        None \<Rightarrow> Some c
      | Some cmd \<Rightarrow>
          (let r = submit cmd c in if snd r then cleanupExpiredLeases submit now (fst r) else Some (fst r)))"

definition cleanup_tick :: "(command \<Rightarrow> core \<Rightarrow> core \<times> bool) \<Rightarrow> int \<Rightarrow> core \<times> watch_mgr \<Rightarrow> (core \<times> watch_mgr) option" where
  \<comment> \<open>a tick of \<open>cleanupLoop\<close>\<close>
  "cleanup_tick submit now st =
     do { c \<leftarrow> cleanupExpiredLeases submit now (fst st);
          wa \<leftarrow> CleanupExpired now (snd st);
          Some (c, wa) }"

section \<open>Properties\<close>

definition available :: "service \<Rightarrow> bool" where
  \<comment> \<open>a server that takes commands\<close>
  "available sc \<longleftrightarrow>
     sc_startupErr sc = None \<and> sv_persistenceErr (sc_sv sc) = None \<and> \<not> sv_blocked (sc_sv sc) \<and> IsLeader sc"

lemma Submit_start_Inr:
  assumes "Submit_start now cmd sc = Ret (Some (sc', Inr idx))"
  obtains rf rf1 tm go where "available sc" "sc_rf sc = Some rf" "rf_State rf = Leader"
    "Start (ICommand (submit_stamp now cmd)) rf = Some (rf1, (idx, tm, True), go)"
    "sc' = sc\<lparr>sc_rf := Some rf1, sc_sv := (sc_sv sc)\<lparr>sv_replyCh := List.insert idx (sv_replyCh (sc_sv sc))\<rparr>\<rparr>"
  using assms that
  by (auto simp: Submit_start_def available_def IsLeader_def Let_def split: if_splits option.splits bind_splits prod.splits)

lemma Start_leader:
  assumes "raft_ok rf" "rf_State rf = Leader"
  shows "\<exists>rf1 go. Start c rf = Some (rf1, (l_LastLogIndex (rf_log rf) + 1, rf_CurrentTerm rf, True), go) \<and>
    raft_ok rf1 \<and> l_Entries (rf_log rf1) = l_Entries (rf_log rf) @ [\<lparr>e_Term = rf_CurrentTerm rf, e_Command = c\<rparr>] \<and>
    getOneEntry (rf_log rf1) (l_LastLogIndex (rf_log rf) + 1) = Some \<lparr>e_Term = rf_CurrentTerm rf, e_Command = c\<rparr>"
proof -
  obtain f es where lg: "0 \<le> f" "rf_log rf = log_of f es"
    using assms log_of_cases[of "rf_log rf"] by (auto simp: raft_ok_def)
  show ?thesis using assms lg by (simp add: Start_def raft_log raft_ok_def nth_append)
qed

text \<open>
  \<open>Submit\<close> on a well-formed server. Unless the server is available (it started, its
  journal works, it is the leader) the call returns an error and changes nothing; while the
  apply loop is blocked it does not return at all. Otherwise it appends exactly the command,
  with TTL and expiry time filled in for a lease command, to the leader's log with the current
  term, and waits for the reply of that entry's index.
\<close>

theorem submit_spec:
  assumes "\<And>rf. sc_rf sc = Some rf \<Longrightarrow> raft_ok rf"
  shows "if sv_blocked (sc_sv sc) then Submit_start now cmd sc = Blocked
    else if \<not> available sc then \<exists>err. Submit_start now cmd sc = Ret (Some (sc, Inl err))
    else \<exists>rf rf'. sc_rf sc = Some rf \<and> raft_ok rf' \<and>
      l_Entries (rf_log rf') = l_Entries (rf_log rf) @
        [\<lparr>e_Term = rf_CurrentTerm rf, e_Command = ICommand (submit_stamp now cmd)\<rparr>] \<and>
      Submit_start now cmd sc =
        Ret (Some (sc\<lparr>sc_rf := Some rf', sc_sv := (sc_sv sc)
              \<lparr>sv_replyCh := List.insert (l_LastLogIndex (rf_log rf) + 1) (sv_replyCh (sc_sv sc))\<rparr>\<rparr>,
            Inr (l_LastLogIndex (rf_log rf) + 1)))"
proof (cases "available sc")
  case True
  then obtain rf where rf: "sc_rf sc = Some rf" "rf_State rf = Leader"
    by (auto simp: available_def IsLeader_def split: option.splits)
  obtain rf1 go where s: "Start (ICommand (submit_stamp now cmd)) rf =
      Some (rf1, (l_LastLogIndex (rf_log rf) + 1, rf_CurrentTerm rf, True), go)" "raft_ok rf1"
      "l_Entries (rf_log rf1) = l_Entries (rf_log rf) @ [\<lparr>e_Term = rf_CurrentTerm rf, e_Command = ICommand (submit_stamp now cmd)\<rparr>]"
    using Start_leader[OF assms[OF rf(1)] rf(2)] by blast
  show ?thesis using True rf s by (auto simp: available_def Submit_start_def Let_def)
next
  case False
  then show ?thesis
    by (auto simp: available_def Submit_start_def IsLeader_def split: option.splits)
qed

definition demo_service :: service where
  \<comment> \<open>peer 1 of three, just elected\<close>
  "demo_service =
     (the (start_service 1 (0, 0) [''a'', ''b'', ''c''] (None, new_server True)))
       \<lparr>sc_rf := node_run [Tick (3000000000, 0), VoteReply (3000000000, 0) True \<lparr>vr_Term = 1, vr_VoteGranted = True\<rparr> 1]
                  (the (Make (\<lambda>_. False) (0, 0) [''a'', ''b'', ''c''] 1 MakePersister))\<rparr>"

definition demo_put :: command where
  "demo_put = zero_command\<lparr>c_Type := CmdPut, c_Key := ''a'', c_Value := ''1''\<rparr>"

lemma demo_service_leader:
  "sc_rf demo_service = Some (the (sc_rf demo_service)) \<and> available demo_service \<and>
   raft_ok (the (sc_rf demo_service)) \<and> l_LastLogIndex (rf_log (the (sc_rf demo_service))) = - 1"
  unfolding raft_ok_def log_ok_def available_def by code_simp

theorem submit_spec_witness:
  "raft_ok (the (sc_rf demo_service)) \<and>
   (\<exists>sc'. Submit_start 0 demo_put demo_service = Ret (Some (sc', Inr 0)))"
proof -
  have ok: "raft_ok rf" if "sc_rf demo_service = Some rf" for rf using that demo_service_leader by auto
  have "available demo_service" using demo_service_leader by blast
  then show ?thesis
    using submit_spec[of demo_service 0 demo_put, OF ok] ok demo_service_leader
    by (auto simp: available_def)
qed

lemma submit_stamp_type [simp]: "c_Type (submit_stamp now cmd) = c_Type cmd"
  by (simp add: submit_stamp_def Let_def)

lemma submit_stamp_expiry:
  "c_ExpireAt (submit_stamp now cmd) =
     (if (c_Type cmd = CmdLeaseGrant \<or> c_Type cmd = CmdLeaseKeepAlive) \<and> c_ExpireAt cmd \<le> 0
      then deadline now (c_TTL (submit_stamp now cmd)) else c_ExpireAt cmd)"
  by (simp add: submit_stamp_def Let_def)

lemma submit_stamp_timed:
  assumes "c_Type cmd = CmdLeaseGrant \<or> c_Type cmd = CmdLeaseKeepAlive \<longrightarrow>
    deadline now (c_TTL (submit_stamp now cmd)) > 0"
  shows "timed now' (submit_stamp now cmd) = submit_stamp now cmd"
  using assms submit_stamp_expiry[of now cmd] by (auto simp: timed_def)



lemma GetLease_view: "GetLease le a = Some l \<Longrightarrow> lease_view le a = Some (l_TTL l, l_expireAt l, map_of (l_Keys l))"
  by (simp add: lease_view_def GetLease_def)

lemma view_GetLease: "lease_view le a = Some (ttl, e, ks) \<Longrightarrow> \<exists>l. GetLease le a = Some l \<and> l_expireAt l = e"
  by (auto simp: lease_view_def GetLease_def)

lemma expired_command_None:
  assumes "lm_ok le" "expired_command now le = None" "lease_view le a = Some (ttl, e, ks)"
  shows "now < e"
proof -
  obtain l where l: "GetLease le a = Some l" "l_expireAt l = e" using view_GetLease[OF assms(3)] by blast
  then have "lm_leases le \<noteq> []" by (auto simp: GetLease_def)
  then obtain item where item: "GetExpiringLease le = Some item"
    using GetExpiringLease_earliest(1)[OF assms(1)] by auto
  then show ?thesis
    using GetExpiringLease_earliest(3)[OF assms(1) item l(1)] l(2) assms(2)
    by (simp add: expired_command_def split: if_splits)
qed

lemma expired_command_Some:
  assumes "lm_ok le" "expired_command now le = Some cmd"
  obtains ttl e ks where "c_Type cmd = CmdLeaseRevoke" "lease_view le (c_LeaseID cmd) = Some (ttl, e, ks)"
    "c_ExpireAt cmd = e" "e \<le> now"
proof -
  obtain item where item: "GetExpiringLease le = Some item" "i_expireAt item \<le> now"
      "cmd = zero_command\<lparr>c_Type := CmdLeaseRevoke, c_LeaseID := i_ID item, c_ExpireAt := i_expireAt item\<rparr>"
    using assms(2) by (auto simp: expired_command_def split: option.splits if_splits)
  obtain l where "GetLease le (i_ID item) = Some l" "l_expireAt l = i_expireAt item"
    using GetExpiringLease_earliest(2)[OF assms(1) item(1)] by blast
  then show ?thesis using that GetLease_view item(2,3) by fastforce
qed

lemma finite_lease_view: "finite (dom (lease_view le))"
proof -
  have "dom (lease_view le) = dom (map_of (lm_leases le))" by (auto simp: lease_view_def)
  then show ?thesis by (simp add: finite_dom_map_of)
qed

definition expired_key :: "int \<Rightarrow> lease_mgr \<Rightarrow> string \<Rightarrow> bool" where
  "expired_key now le k \<longleftrightarrow> (\<exists>a ttl e ks. lease_view le a = Some (ttl, e, ks) \<and> e \<le> now \<and> k \<in> dom ks)"

lemma expired_keyI: "lease_view le a = Some (ttl, e, ks) \<Longrightarrow> e \<le> now \<Longrightarrow> k \<in> dom ks \<Longrightarrow> expired_key now le k"
  unfolding expired_key_def by blast

lemma expired_key_revoke:
  assumes "lease_view le1 = (lease_view le)(a := None)" "lease_view le a = Some (ttl, e, ks)" "e \<le> now"
  shows "expired_key now le k \<longleftrightarrow> expired_key now le1 k \<or> k \<in> dom ks"
proof
  assume "expired_key now le k"
  then obtain b ttl' e' ks' where b: "lease_view le b = Some (ttl', e', ks')" "e' \<le> now" "k \<in> dom ks'"
    unfolding expired_key_def by blast
  show "expired_key now le1 k \<or> k \<in> dom ks"
  proof (cases "b = a")
    case True
    then show ?thesis using b assms(2) by simp
  next
    case False
    then have "lease_view le1 b = Some (ttl', e', ks')" using b(1) assms(1) by simp
    then show ?thesis using expired_keyI b(2,3) by blast
  qed
next
  assume "expired_key now le1 k \<or> k \<in> dom ks"
  then show "expired_key now le k"
  proof
    assume "expired_key now le1 k"
    then obtain b ttl' e' ks' where b: "lease_view le1 b = Some (ttl', e', ks')" "e' \<le> now" "k \<in> dom ks'"
      unfolding expired_key_def by blast
    then have "lease_view le b = Some (ttl', e', ks')" using assms(1) by (simp split: if_splits)
    then show ?thesis using expired_keyI b(2,3) by blast
  qed (use expired_keyI[OF assms(2,3)] in blast)
qed

text \<open>
  C18: The clean-up of expired leases ends. On a leader whose submissions succeed, the loop
  comes to an end, since every round removes a lease; at the end exactly the leases that had
  not expired are left, and exactly the keys of the expired ones are deleted from the store.
\<close>

theorem cleanup_terminates:
  assumes "core_ok (kv, le, r)"
  shows "\<exists>kv' le' r'. cleanupExpiredLeases (\<lambda>cmd c. (core_apply cmd c, True)) now (kv, le, r) = Some (kv', le', r') \<and>
    core_ok (kv', le', r') \<and>
    (\<forall>a. lease_view le' a = (case lease_view le a of None \<Rightarrow> None
       | Some (ttl, e, ks) \<Rightarrow> if e \<le> now then None else Some (ttl, e, ks))) \<and>
    (\<forall>k. kv_abs kv' k = (if expired_key now le k then None else kv_abs kv k))"
  using assms
proof (induction "card (dom (lease_view le))" arbitrary: kv le r rule: less_induct)
  case less
  let ?submit = "\<lambda>cmd c. (core_apply cmd c, True)"
  have lm: "lm_ok le" using less.prems by simp
  show ?case
  proof (cases "expired_command now le")
    case None
    have live: "now < e" if "lease_view le a = Some (ttl, e, ks)" for a ttl e ks
      by (rule expired_command_None[OF lm None that])
    have "cleanupExpiredLeases ?submit now (kv, le, r) = Some (kv, le, r)"
      using None by (subst cleanupExpiredLeases.simps) simp
    moreover have "lease_view le a = (case lease_view le a of None \<Rightarrow> None
       | Some (ttl, e, ks) \<Rightarrow> if e \<le> now then None else Some (ttl, e, ks))" for a
      using live by (cases "lease_view le a") (fastforce split: option.splits)+
    moreover have "\<not> expired_key now le k" for k using live by (fastforce simp: expired_key_def)
    ultimately show ?thesis using less.prems by simp
  next
    case (Some cmd)
    obtain ttl e ks where c: "c_Type cmd = CmdLeaseRevoke" "lease_view le (c_LeaseID cmd) = Some (ttl, e, ks)"
        "c_ExpireAt cmd = e" "e \<le> now"
      by (rule expired_command_Some[OF lm Some])
    obtain kv1 le1 r1 where st: "core_apply cmd (kv, le, r) = (kv1, le1, r1)" by (cases "core_apply cmd (kv, le, r)")
    note eff = core_revoke_effect[OF less.prems c(1,2) disjI2[OF c(3)] st]
    have ok1: "core_ok (kv1, le1, r1)" using core_ok_apply[OF less.prems, of cmd] st by simp
    have step: "cleanupExpiredLeases ?submit now (kv, le, r) = cleanupExpiredLeases ?submit now (kv1, le1, r1)"
      using Some st by (subst cleanupExpiredLeases.simps) simp
    have "dom (lease_view le1) = dom (lease_view le) - {c_LeaseID cmd}" using eff(2) by simp
    then have "card (dom (lease_view le1)) < card (dom (lease_view le))"
      using card_Diff1_less[OF finite_lease_view, of "c_LeaseID cmd" le] c(2) by (simp add: domI)
    from less.hyps[OF this ok1] obtain kv2 le2 r2 where
      IH: "cleanupExpiredLeases ?submit now (kv1, le1, r1) = Some (kv2, le2, r2)" "core_ok (kv2, le2, r2)"
        "\<And>a. lease_view le2 a = (case lease_view le1 a of None \<Rightarrow> None
           | Some (ttl, e, ks) \<Rightarrow> if e \<le> now then None else Some (ttl, e, ks))"
        "\<And>k. kv_abs kv2 k = (if expired_key now le1 k then None else kv_abs kv1 k)"
      by blast
    have "lease_view le2 a = (case lease_view le a of None \<Rightarrow> None
        | Some (ttl, e, ks) \<Rightarrow> if e \<le> now then None else Some (ttl, e, ks))" for a
      using IH(3)[of a] eff(2) c(2,4) by (cases "a = c_LeaseID cmd") simp_all
    moreover have "expired_key now le k \<longleftrightarrow> expired_key now le1 k \<or> k \<in> dom ks" for k
      by (rule expired_key_revoke[OF eff(2) c(2,4)])
    then have "kv_abs kv2 k = (if expired_key now le k then None else kv_abs kv k)" for k
      using IH(4)[of k] eff(1)[of k] by auto
    ultimately show ?thesis using step IH(1,2) by simp
  qed
qed

theorem cleanup_terminates_witness:
  "core_ok (NewKVStore, fst (GrantUntil NewLeaseManager 5 7), 0) \<and>
   (\<exists>kv' le' r'. cleanupExpiredLeases (\<lambda>cmd c. (core_apply cmd c, True)) 9
       (NewKVStore, fst (GrantUntil NewLeaseManager 5 7), 0) = Some (kv', le', r') \<and> (\<forall>a. lease_view le' a = None))"
proof -
  let ?le = "fst (GrantUntil NewLeaseManager 5 7)"
  have ok: "core_ok (NewKVStore, ?le, 0)"
    using core_ok_apply[OF core_ok_init, of "zero_command\<lparr>c_Type := CmdLeaseGrant, c_TTL := 5, c_ExpireAt := 7\<rparr>"]
    by (simp add: core_init_def core_apply.simps core_step.simps is_write_def ttl_of_def)
  have view: "lease_view ?le a = (if a = 1 then Some (5, 7, Map.empty) else None)" for a
    by (simp add: view_GrantUntil lease_view_def NewLeaseManager_def GrantUntil_def Let_def)
  show ?thesis
    using cleanup_terminates[OF ok, of 9] ok by (auto simp: view)
qed

end
