(* ===== verification/Http.thy ===== *)
theory Http
  imports Service
begin

text \<open>
  The clients' side of a server (\<open>server/handler.go\<close>): every HTTP and RPC handler. A request is
  the method and the query that \<open>net/http\<close> has parsed, a response the status, the content type
  and the body. A handler that calls \<open>Submit\<close> or waits for an event cannot answer at once: its
  result is an \<open>action\<close> that names the call and says how to answer with its outcome.
\<close>

section \<open>What the handlers use of the standard library\<close>

record request =
  rq_Method :: string
  rq_Query :: "(string \<times> string) list"

record response =
  rs_Code :: int
  rs_ContentType :: string
  rs_Body :: string

definition query :: "request \<Rightarrow> string \<Rightarrow> string" where
  \<comment> \<open>\<open>r.URL.Query().Get(name)\<close>\<close>
  "query r name = (case map_of (rq_Query r) name of None \<Rightarrow> [] | Some v \<Rightarrow> v)"

definition http_Error :: "string \<Rightarrow> int \<Rightarrow> response" where
  \<comment> \<open>\<open>http.Error\<close>\<close>
  "http_Error msg code =
     \<lparr>rs_Code = code, rs_ContentType = ''text/plain; charset=utf-8'', rs_Body = msg @ [CHR 0x0A]\<rparr>"

definition json_answer :: "int \<Rightarrow> string \<Rightarrow> response" where
  "json_answer code body = \<lparr>rs_Code = code, rs_ContentType = ''application/json'', rs_Body = body\<rparr>"

definition quoted :: "string \<Rightarrow> string" where
  \<comment> \<open>the verb \<open>%s\<close> between two quotes\<close>
  "quoted s = quote_ch # s @ [quote_ch]"

definition error_answer :: "int \<Rightarrow> string \<Rightarrow> response" where
  "error_answer code msg =
     json_answer code (''{'' @ jname ''ok'' @ ''false,'' @ jname ''error'' @ quoted msg @ ''}'')"

definition ok_answer :: response where
  "ok_answer = json_answer 200 (''{'' @ jname ''ok'' @ ''true}'')"

text \<open>
  \<open>fmt.Sscanf(s, "%d", &v)\<close>: spaces, a sign, digits and underscores. Where the text is not a
  number of 64 bits the variable keeps its value; what follows the number is ignored.
\<close>

definition space_runes :: "string list" where
  \<comment> \<open>the white space of \<open>fmt\<close> in UTF-8, the newline excepted\<close>
  "space_runes =
     map (map chr)
       ([[9], [11], [12], [13], [32], [194, 133], [194, 160], [225, 154, 128]] @
        map (\<lambda>k. [226, 128, 128 + k]) [0..<11] @
        [[226, 128, 168], [226, 128, 169], [226, 128, 175], [226, 129, 159], [227, 128, 128]])"

function skip_space :: "string \<Rightarrow> string" where
  "skip_space s =
     (case List.find (\<lambda>p. p \<noteq> [] \<and> prefix p s) space_runes of
        None \<Rightarrow> s
      | Some p \<Rightarrow> skip_space (drop (length p) s))"
  by auto

termination skip_space
proof (relation "measure length")
  fix s p assume "List.find (\<lambda>p. p \<noteq> [] \<and> prefix p s) space_runes = Some p"
  then have "p \<noteq> []" "prefix p s" using find_SomeD by fastforce+
  then show "(drop (length p) s, s) \<in> measure length" by (cases s) auto
qed simp

declare skip_space.simps [simp del]

definition sscan_int :: "string \<Rightarrow> int \<Rightarrow> int" where
  \<comment> \<open>the value of the variable afterwards, given its value before\<close>
  "sscan_int s v =
     (let t = skip_space s;
          neg = (t \<noteq> [] \<and> hd t = CHR ''-'');
          u = (if t \<noteq> [] \<and> (hd t = CHR ''-'' \<or> hd t = CHR ''+'') then tl t else t);
          tok = takeWhile (\<lambda>c. is_digit c \<or> c = CHR ''_'') u;
          n = (if neg then - int (digits_value tok) else int (digits_value tok))
      in if tok = [] \<or> CHR ''_'' \<in> set tok \<or> wrap64 n \<noteq> n then v else n)"

definition flag_char :: "char \<Rightarrow> bool" where
  "flag_char c \<longleftrightarrow> c \<in> set ''#0+- ''"

text \<open>
  \<open>fmt.Fprintf(w, format)\<close> without arguments: every verb is reported as missing its argument.
\<close>

definition argument_index :: "string \<Rightarrow> string \<times> bool \<times> bool" where
  \<comment> \<open>an explicit index \<open>[n]\<close>: what follows, whether there was a bracket, whether it held a number\<close>
  "argument_index s =
     (case s of
        CHR ''['' # r \<Rightarrow>
          if length s < 3 \<or> CHR '']'' \<notin> set r then (r, True, False)
          else (let inner = takeWhile (\<lambda>c. c \<noteq> CHR '']'') r
                in (drop (Suc (length inner)) r, True, inner \<noteq> [] \<and> list_all is_digit inner))
      | _ \<Rightarrow> (s, False, False))"

definition directive :: "string \<Rightarrow> string \<times> string" where
  \<comment> \<open>the text that a directive prints, from behind its percent sign, and what follows\<close>
  "directive s0 =
     (let s1 = dropWhile flag_char s0;
          (s2, bad1, after1) = argument_index s1;
          (w, s3, after2, bad2) =
            (case s2 of
               CHR ''*'' # r \<Rightarrow> (''%!(BADWIDTH)'', r, False, False)
             | _ \<Rightarrow> ([], dropWhile is_digit s2, after1, after1 \<and> s2 \<noteq> [] \<and> is_digit (hd s2)));
          (p, s4, after3, bad3) =
            (case s3 of
               CHR ''.'' # r \<Rightarrow>
                 (let (r1, bad, after) = argument_index r
                  in case r1 of
                       CHR ''*'' # r2 \<Rightarrow> (''%!(BADPREC)'', r2, False, bad \<or> after2)
                     | _ \<Rightarrow> ([], dropWhile is_digit r1, after, bad \<or> after2))
             | _ \<Rightarrow> ([], s3, after2, False));
          (s5, bad4, _) = (if after3 then (s4, False, False) else argument_index s4)
      in if s5 = [] then (w @ p @ ''%!(NOVERB)'', [])
         else let n = max 1 (utf8_size s5); rest = drop n s5;
                  verb = (if utf8_size s5 = 0 then map chr [239, 191, 189] else take n s5)
              in if verb = ''%'' then (w @ p @ ''%'', rest)
                 else if bad1 \<or> bad2 \<or> bad3 \<or> bad4 then (w @ p @ ''%!'' @ verb @ ''(BADINDEX)'', rest)
                 else (w @ p @ ''%!'' @ verb @ ''(MISSING)'', rest))"

fun fprintf :: "nat \<Rightarrow> string \<Rightarrow> string" where
  \<comment> \<open>with fuel; a directive consumes text, so the length of the format is enough\<close>
  "fprintf 0 s = []"
| "fprintf (Suc n) [] = []"
| "fprintf (Suc n) (c # s) =
     (if c = CHR ''%'' then (let (out, rest) = directive s in out @ fprintf n rest) else c # fprintf n s)"

definition Fprintf :: "string \<Rightarrow> string" where
  "Fprintf fmt = fprintf (Suc (length fmt)) fmt"

section \<open>Actions\<close>

datatype action =
    Respond response
  | CallSubmit command "string + string \<Rightarrow> response"
  | AwaitEvent int int "event option \<Rightarrow> response"
    \<comment> \<open>the watcher, the time to wait; \<open>None\<close> when it is over\<close>

definition submitted :: "(string \<Rightarrow> response) \<Rightarrow> string + string \<Rightarrow> response" where
  \<comment> \<open>the answer to the outcome of \<open>Submit\<close>\<close>
  "submitted ok r = (case r of Inl err \<Rightarrow> error_answer 500 err | Inr result \<Rightarrow> ok result)"

definition method_in :: "string list \<Rightarrow> request \<Rightarrow> bool" where
  "method_in ms r \<longleftrightarrow> rq_Method r \<in> set ms"

definition not_allowed :: response where
  "not_allowed = http_Error ''Method not allowed'' 405"

section \<open>HTTP: keys\<close>

definition http_Put :: "request \<Rightarrow> action" where
  "http_Put r =
     (if \<not> method_in [''PUT'', ''POST''] r then Respond not_allowed
      else let key = query r ''key''; value = query r ''value''; leaseIdStr = query r ''lease_id''
           in if key = [] \<or> value = [] then Respond (error_answer 400 ''key and value required'')
              else let leaseId = (if leaseIdStr \<noteq> [] then sscan_int leaseIdStr 0 else 0)
                   in CallSubmit (zero_command\<lparr>c_Type := CmdPut, c_Key := key, c_Value := value, c_LeaseID := leaseId\<rparr>)
                        (submitted (\<lambda>_. ok_answer)))"

definition http_Get :: "request \<Rightarrow> service \<Rightarrow> response go" where
  "http_Get r sc =
     (if \<not> method_in [''GET''] r then Ret not_allowed
      else let key = query r ''key''
           in if key = [] then Ret (error_answer 400 ''key required'')
              else (case Get_server key sc of
                      Blocked \<Rightarrow> Blocked
                    | Ret value \<Rightarrow>
                        Ret (json_answer 200 (''{'' @ jname ''ok'' @ ''true,'' @ jname ''value'' @ quoted value @ ''}''))))"

definition http_Delete :: "request \<Rightarrow> action" where
  "http_Delete r =
     (if \<not> method_in [''DELETE''] r then Respond not_allowed
      else let key = query r ''key''
           in if key = [] then Respond (error_answer 400 ''key required'')
              else CallSubmit (zero_command\<lparr>c_Type := CmdDelete, c_Key := key\<rparr>) (submitted (\<lambda>_. ok_answer)))"

definition http_DeletePrefix :: "request \<Rightarrow> action" where
  "http_DeletePrefix r =
     (if \<not> method_in [''DELETE'', ''POST''] r then Respond not_allowed
      else let pre = query r ''prefix''
           in if pre = [] then Respond (error_answer 400 ''prefix required'')
              else CallSubmit (zero_command\<lparr>c_Type := CmdDeletePrefix, c_Prefix := pre\<rparr>)
                     (submitted (\<lambda>result. json_answer 200
                        (''{'' @ jname ''ok'' @ ''true,'' @ jname ''deleted'' @ result @ ''}''))))"

definition http_GetPrefix :: "request \<Rightarrow> service \<Rightarrow> response go" where
  "http_GetPrefix r sc =
     (if \<not> method_in [''GET''] r then Ret not_allowed
      else let pre = query r ''prefix''
           in if pre = [] then Ret (error_answer 400 ''prefix required'')
              else (case GetPrefix_server pre sc of
                      Blocked \<Rightarrow> Blocked
                    | Ret m \<Rightarrow>
                        Ret (json_answer 200 (''{'' @ jname ''ok'' @ ''true,'' @ jname ''keys'' @ go_map_string m @ ''}''))))"

section \<open>HTTP: state of the server\<close>

definition http_Health :: "service \<Rightarrow> response" where
  "http_Health sc =
     json_answer 200 (''{'' @ jname ''status'' @ quoted (if IsLeader sc then ''leader'' else ''follower'') @ '','' @
       jname ''id'' @ itoa (sc_id sc) @ ''}'')"

fun stat_text :: "stat \<Rightarrow> string" where
  "stat_text (StatInt i) = itoa i"
| "stat_text (StatBool b) = (if b then ''true'' else ''false'')"
| "stat_text (StatText t) = quoted t"

definition toJSON :: "(string, stat) gomap \<Rightarrow> string" where
  "toJSON m =
     fold (\<lambda>(k, v) result. (if result \<noteq> ''{'' then result @ '','' else result) @ jname k @ stat_text v) m ''{'' @ ''}''"

definition http_Stats :: "service \<Rightarrow> response go" where
  "http_Stats sc =
     (case GetStats sc of
        Blocked \<Rightarrow> Blocked
      | Ret stats \<Rightarrow>
          Ret (json_answer 200 (''{'' @ jname ''ok'' @ ''true,'' @ jname ''stats'' @ toJSON stats @ ''}'')))"

section \<open>HTTP: leases\<close>

definition lease_id_of :: "request \<Rightarrow> int" where
  "lease_id_of r = (let s = query r ''lease_id'' in if s \<noteq> [] then sscan_int s 0 else 0)"

definition ttl_value :: "request \<Rightarrow> int" where
  "ttl_value r = (let s = query r ''ttl'' in if s \<noteq> [] then sscan_int s 10 else 10)"

definition http_LeaseGrant :: "request \<Rightarrow> action" where
  "http_LeaseGrant r =
     (if \<not> method_in [''POST'', ''PUT''] r then Respond not_allowed
      else CallSubmit (zero_command\<lparr>c_Type := CmdLeaseGrant, c_TTL := ttl_value r\<rparr>)
             (submitted (\<lambda>result. json_answer 200
                (''{'' @ jname ''ok'' @ ''true,'' @ jname ''lease_id'' @ result @ ''}''))))"

definition http_LeaseRevoke :: "request \<Rightarrow> action" where
  "http_LeaseRevoke r =
     (if \<not> method_in [''DELETE'', ''POST''] r then Respond not_allowed
      else CallSubmit (zero_command\<lparr>c_Type := CmdLeaseRevoke, c_LeaseID := lease_id_of r\<rparr>)
             (submitted (\<lambda>_. ok_answer)))"

definition http_LeaseKeepAlive :: "request \<Rightarrow> action" where
  "http_LeaseKeepAlive r =
     (if \<not> method_in [''PUT'', ''POST''] r then Respond not_allowed
      else CallSubmit (zero_command\<lparr>c_Type := CmdLeaseKeepAlive, c_LeaseID := lease_id_of r, c_TTL := ttl_value r\<rparr>)
             (submitted (\<lambda>result. json_answer 200
                (''{'' @ jname ''ok'' @ ''true,'' @ jname ''result'' @ quoted result @ ''}''))))"

definition http_LeaseAttach :: "request \<Rightarrow> action" where
  "http_LeaseAttach r =
     (if \<not> method_in [''PUT'', ''POST''] r then Respond not_allowed
      else let key = query r ''key''; value = query r ''value''; leaseId = lease_id_of r
           in if key = [] \<or> leaseId \<le> 0 then Respond (error_answer 400 ''key and lease_id required'')
              else CallSubmit (zero_command\<lparr>c_Type := CmdLeaseAttach, c_Key := key, c_Value := value, c_LeaseID := leaseId\<rparr>)
                     (submitted (\<lambda>_. ok_answer)))"

section \<open>HTTP: watches\<close>

definition milliseconds :: "int \<Rightarrow> int" where
  \<comment> \<open>\<open>time.Duration(ms) * time.Millisecond\<close>\<close>
  "milliseconds ms = wrap64 (ms * 1000000)"

definition with_watchers :: "watch_mgr \<Rightarrow> service \<Rightarrow> service" where
  "with_watchers wa sc = sc\<lparr>sc_sv := (sc_sv sc)\<lparr>sv_watchers := wa\<rparr>\<rparr>"

definition http_Watch :: "int \<Rightarrow> request \<Rightarrow> service \<Rightarrow> service \<times> response" where
  "http_Watch now r sc =
     (if \<not> method_in [''GET''] r then (sc, not_allowed)
      else if \<not> IsLeader sc then (sc, error_answer 503 ''watch only supported on leader'')
      else let key = query r ''key''
           in if key = [] then (sc, error_answer 400 ''key required'')
              else let timeout = query r ''timeout'';
                       timeoutDur = (if timeout \<noteq> [] then milliseconds (sscan_int timeout 0) else 0);
                       (wa, i) = AddWatcher now (sv_watchers (sc_sv sc)) key (query r ''persistent'' = ''true'')
                                   timeoutDur (sscan_int (query r ''from_rev'') 0)
                   in (with_watchers wa sc,
                       json_answer 200 (''{'' @ jname ''ok'' @ ''true,'' @ jname ''watcher_id'' @ itoa i @ ''}'')))"

definition http_WatchPrefix :: "int \<Rightarrow> request \<Rightarrow> service \<Rightarrow> service \<times> response" where
  "http_WatchPrefix now r sc =
     (if \<not> method_in [''GET''] r then (sc, not_allowed)
      else if \<not> IsLeader sc then (sc, error_answer 503 ''watch only supported on leader'')
      else let pre = query r ''prefix''
           in if pre = [] then (sc, error_answer 400 ''prefix required'')
              else let timeout = query r ''timeout'';
                       timeoutDur = (if timeout \<noteq> [] then milliseconds (sscan_int timeout 0) else 0);
                       (wa, i) = AddPrefixWatcher now (sv_watchers (sc_sv sc)) pre (query r ''persistent'' = ''true'')
                                   timeoutDur (sscan_int (query r ''from_rev'') 0)
                   in (with_watchers wa sc,
                       json_answer 200 (''{'' @ jname ''ok'' @ ''true,'' @ jname ''watcher_id'' @ itoa i @ '','' @
                         jname ''prefix'' @ quoted pre @ ''}'')))"

definition event_answer :: "event option \<Rightarrow> response" where
  "event_answer ev =
     (case ev of
        None \<Rightarrow> error_answer 200 ''timeout''
      | Some e \<Rightarrow> json_answer 200 (''{'' @ jname ''ok'' @ ''true,'' @ jname ''key'' @ quoted (e_Key e) @ '','' @
                    jname ''value'' @ quoted (e_Value e) @ '','' @ jname ''type'' @ quoted (e_Type e) @ ''}''))"

definition http_Wait :: "int \<Rightarrow> request \<Rightarrow> service \<Rightarrow> service \<times> action" where
  "http_Wait now r sc =
     (if \<not> method_in [''GET''] r then (sc, Respond not_allowed)
      else if \<not> IsLeader sc then (sc, Respond (error_answer 503 ''wait only supported on leader''))
      else let key = query r ''key''
           in if key = [] then (sc, Respond (error_answer 400 ''key required''))
              else let timeout = query r ''timeout'';
                       timeoutMs = (if timeout \<noteq> [] then sscan_int timeout 0 else 0);
                       timeoutDur = (if timeoutMs > 0 then milliseconds timeoutMs else 5 * 1000000000);
                       (wa, i) = AddWatcher now (sv_watchers (sc_sv sc)) key (query r ''persistent'' = ''true'')
                                   timeoutDur (sscan_int (query r ''from_rev'') 0)
                   in (with_watchers wa sc, AwaitEvent i timeoutDur event_answer))"

section \<open>HTTP: locks\<close>

definition with_locks :: "locks \<Rightarrow> lease_mgr \<Rightarrow> service \<Rightarrow> service" where
  "with_locks lk le sc = sc\<lparr>sc_lockMgr := lk, sc_sv := (sc_sv sc)\<lparr>sv_leaseMgr := le\<rparr>\<rparr>"

definition http_LockAcquire :: "int \<Rightarrow> request \<Rightarrow> service \<Rightarrow> service \<times> response" where
  "http_LockAcquire now r sc =
     (if \<not> method_in [''POST'', ''PUT''] r then (sc, not_allowed)
      else let key = query r ''key''; owner0 = query r ''owner_id''
           in if key = [] then (sc, error_answer 400 ''key required'')
              else let ownerID = (if owner0 = [] then ''client-'' @ itoa now else owner0);
                       (lk, le, res) = Acquire now now (sc_lockMgr sc) (sv_leaseMgr (sc_sv sc)) key (ttl_value r) ownerID
                   in (with_locks lk le sc,
                       case res of
                         Inl err \<Rightarrow> error_answer 409 (lock_error_text err)
                       | Inr handle \<Rightarrow> json_answer 200 (Fprintf (FormatLockResponse handle None))))"

definition http_LockRelease :: "request \<Rightarrow> service \<Rightarrow> service \<times> response" where
  "http_LockRelease r sc =
     (if \<not> method_in [''DELETE'', ''POST''] r then (sc, not_allowed)
      else let key = query r ''key''; leaseIdStr = query r ''lease_id''; ownerID = query r ''owner_id''
           in if key = [] \<or> leaseIdStr = [] then (sc, error_answer 400 ''key and lease_id required'')
              else let (lk, le, err) = Release (sc_lockMgr sc) (sv_leaseMgr (sc_sv sc)) key (sscan_int leaseIdStr 0) ownerID
                   in (with_locks lk le sc,
                       case err of Some e \<Rightarrow> error_answer 400 (lock_error_text e) | None \<Rightarrow> ok_answer))"

definition http_LockKeepAlive :: "int \<Rightarrow> request \<Rightarrow> service \<Rightarrow> service \<times> response" where
  "http_LockKeepAlive now r sc =
     (if \<not> method_in [''PUT'', ''POST''] r then (sc, not_allowed)
      else let key = query r ''key''; leaseIdStr = query r ''lease_id''; ownerID = query r ''owner_id''
           in if key = [] \<or> leaseIdStr = [] then (sc, error_answer 400 ''key and lease_id required'')
              else let (le, err) = KeepAlive_lock now (sc_lockMgr sc) (sv_leaseMgr (sc_sv sc)) key (sscan_int leaseIdStr 0)
                                     ownerID (ttl_value r)
                   in (with_locks (sc_lockMgr sc) le sc,
                       case err of Some e \<Rightarrow> error_answer 400 (lock_error_text e) | None \<Rightarrow> ok_answer))"

definition http_LockStatus :: "request \<Rightarrow> service \<Rightarrow> service \<times> response" where
  "http_LockStatus r sc =
     (if \<not> method_in [''GET''] r then (sc, not_allowed)
      else let key = query r ''key''
           in if key = [] then (sc, error_answer 400 ''key required'')
              else let (lk, locked, leaseID) = GetLockStatus (sc_lockMgr sc) (sv_leaseMgr (sc_sv sc)) key
                   in (with_locks lk (sv_leaseMgr (sc_sv sc)) sc,
                       json_answer 200 (''{'' @ jname ''ok'' @ ''true,'' @ jname ''locked'' @
                         (if locked then ''true'' else ''false'') @ '','' @ jname ''lease_id'' @ itoa leaseID @ ''}'')))"

section \<open>RPC\<close>

record put_request =
  pr_Key :: string
  pr_Value :: string
  pr_LeaseID :: int

record watch_request =
  wr_Key :: string
  wr_Persistent :: bool
  wr_Timeout :: int
  wr_WatcherID :: int
  wr_FromRev :: int

text \<open>
  \<open>Put\<close>, \<open>Get\<close> and \<open>Delete\<close> submit a command. With the outcome of \<open>Submit\<close> they fill in the
  response and return the error, if there is one.
\<close>

datatype 'r rpc_action = RpcSubmit command "string + string \<Rightarrow> 'r \<times> string option"

definition rpc_ok :: "string + string \<Rightarrow> bool \<times> string option" where
  \<comment> \<open>\<open>resp.Ok = (err == nil); return err\<close>\<close>
  "rpc_ok r = (case r of Inl err \<Rightarrow> (False, Some err) | Inr _ \<Rightarrow> (True, None))"

definition rpc_value :: "string + string \<Rightarrow> string \<times> string option" where
  \<comment> \<open>\<open>resp.Value = val; return err\<close>\<close>
  "rpc_value r = (case r of Inl err \<Rightarrow> ([], Some err) | Inr val \<Rightarrow> (val, None))"

definition rpc_Put :: "put_request \<Rightarrow> bool rpc_action" where
  "rpc_Put req =
     RpcSubmit (zero_command\<lparr>c_Type := CmdPut, c_Key := pr_Key req, c_Value := pr_Value req,
                             c_LeaseID := pr_LeaseID req\<rparr>) rpc_ok"

definition rpc_Get :: "string \<Rightarrow> string rpc_action" where
  "rpc_Get key = RpcSubmit (zero_command\<lparr>c_Type := CmdGet, c_Key := key\<rparr>) rpc_value"

definition rpc_Delete :: "string \<Rightarrow> bool rpc_action" where
  "rpc_Delete key = RpcSubmit (zero_command\<lparr>c_Type := CmdDelete, c_Key := key\<rparr>) rpc_ok"

definition rpc_Watch :: "int \<Rightarrow> watch_request \<Rightarrow> service \<Rightarrow> service \<times> int" where
  "rpc_Watch now req sc =
     (let timeout = (if wr_Timeout req = 0 then 0 else milliseconds (wr_Timeout req));
          (wa, i) = AddWatcher now (sv_watchers (sc_sv sc)) (wr_Key req) (wr_Persistent req) timeout (wr_FromRev req)
      in (with_watchers wa sc, i))"

definition CancelWatcher :: "string \<Rightarrow> int \<Rightarrow> service \<Rightarrow> service option" where
  "CancelWatcher key i sc = map_option (\<lambda>wa. with_watchers wa sc) (RemoveWatcher (sv_watchers (sc_sv sc)) key i)"

definition rpc_CancelWatch :: "watch_request \<Rightarrow> service \<Rightarrow> service option" where
  "rpc_CancelWatch req sc = CancelWatcher (wr_Key req) (wr_WatcherID req) sc"

section \<open>The routes\<close>

definition answered :: "service \<Rightarrow> response go \<Rightarrow> (service \<times> action) go" where
  "answered sc res = (case res of Blocked \<Rightarrow> Blocked | Ret a \<Rightarrow> Ret (sc, Respond a))"

definition direct :: "service \<times> response \<Rightarrow> (service \<times> action) go" where
  "direct res = Ret (fst res, Respond (snd res))"

definition serve :: "int \<Rightarrow> string \<Rightarrow> request \<Rightarrow> service \<Rightarrow> (service \<times> action) go" where
  \<comment> \<open>the mux of \<open>StartHTTPServer\<close>\<close>
  "serve now path r sc =
     (if path = ''/put'' then Ret (sc, http_Put r)
      else if path = ''/get'' then answered sc (http_Get r sc)
      else if path = ''/delete'' then Ret (sc, http_Delete r)
      else if path = ''/watch'' then direct (http_Watch now r sc)
      else if path = ''/wait'' then Ret (http_Wait now r sc)
      else if path = ''/health'' then Ret (sc, Respond (http_Health sc))
      else if path = ''/stats'' then answered sc (http_Stats sc)
      else if path = ''/lease/grant'' then Ret (sc, http_LeaseGrant r)
      else if path = ''/lease/revoke'' then Ret (sc, http_LeaseRevoke r)
      else if path = ''/lease/keepalive'' then Ret (sc, http_LeaseKeepAlive r)
      else if path = ''/lease/attach'' then Ret (sc, http_LeaseAttach r)
      else if path = ''/lock/acquire'' then direct (http_LockAcquire now r sc)
      else if path = ''/lock/release'' then direct (http_LockRelease r sc)
      else if path = ''/lock/keepalive'' then direct (http_LockKeepAlive now r sc)
      else if path = ''/lock/status'' then direct (http_LockStatus r sc)
      else if path = ''/watch/prefix'' then direct (http_WatchPrefix now r sc)
      else if path = ''/delete/prefix'' then Ret (sc, http_DeletePrefix r)
      else if path = ''/get/prefix'' then answered sc (http_GetPrefix r sc)
      else Ret (sc, Respond (http_Error ''404 page not found'' 404)))"

section \<open>What a handler may change\<close>

definition lock_path :: "string \<Rightarrow> bool" where
  "lock_path path \<longleftrightarrow> path \<in> {''/lock/acquire'', ''/lock/release'', ''/lock/keepalive''}"

definition handler_safe :: "bool \<Rightarrow> service \<Rightarrow> service \<Rightarrow> bool" where
  \<comment> \<open>store, revision, journal, replies and Raft are left alone; leases only by the lock handlers\<close>
  "handler_safe lock sc sc' \<longleftrightarrow>
     sc_rf sc' = sc_rf sc \<and> sv_store (sc_sv sc') = sv_store (sc_sv sc) \<and>
     sv_currentRev (sc_sv sc') = sv_currentRev (sc_sv sc) \<and> same_rest (sc_sv sc) (sc_sv sc') \<and>
     (\<not> lock \<longrightarrow> sv_leaseMgr (sc_sv sc') = sv_leaseMgr (sc_sv sc)) \<and>
     (sv_ok (sc_sv sc) \<longrightarrow> sv_ok (sc_sv sc'))"

lemma handler_safe_refl [simp]: "handler_safe lock sc sc"
  by (simp add: handler_safe_def)

lemma handler_safe_watchers:
  "wm_ok wa \<or> \<not> wm_ok (sv_watchers (sc_sv sc)) \<Longrightarrow> handler_safe lock sc (with_watchers wa sc)"
  by (auto simp: handler_safe_def with_watchers_def same_rest_def sv_ok_def core_def)

lemma handler_safe_locks:
  assumes "\<And>kv. linked kv (sv_leaseMgr (sc_sv sc)) \<Longrightarrow> lm_ok (sv_leaseMgr (sc_sv sc)) \<Longrightarrow> lm_ok le \<and> linked kv le"
  shows "handler_safe True sc (with_locks lk le sc)"
  using assms by (auto simp: handler_safe_def with_locks_def same_rest_def sv_ok_def core_def)

lemma Acquire_leases:
  "fst (snd (Acquire now at lk le key ttl owner)) \<in>
     {le, fst (GrantUntil le (if ttl \<le> 0 then 10 else ttl) (deadline now (if ttl \<le> 0 then 10 else ttl)))}"
  by (simp add: Acquire_def Grant_def Let_def case_prod_beta)

lemma Release_leases: "fst (snd (Release lk le key a owner)) \<in> {le, fst (revokeLeaseLocked le a)}"
  by (auto simp: Release_def RevokeLease_def Let_def split: prod.splits option.splits)

lemma KeepAlive_lock_leases:
  "fst (KeepAlive_lock now lk le key a owner ttl) \<in>
     {le, fst (KeepAliveUntil le a (if ttl \<le> 0 then 10 else ttl) (deadline now (if ttl \<le> 0 then 10 else ttl)))}"
  by (simp add: KeepAlive_lock_def KeepAlive_def Let_def case_prod_beta split: option.splits)

lemma linked_revokeLocked: "linked kv le \<Longrightarrow> linked kv (fst (revokeLeaseLocked le a))"
  by (rule linkedI) (auto simp: view_revokeLeaseLocked split: if_splits intro: linkedD)

lemmas lease_change_ok = lm_ok_GrantUntil lm_ok_revokeLeaseLocked lm_ok_KeepAliveUntil
  linked_Grant linked_KeepAlive linked_revokeLocked

lemma safe_LockAcquire: "handler_safe True sc (fst (http_LockAcquire now r sc))"
proof -
  have "handler_safe True sc (with_locks (fst a) (fst (snd a)) sc)"
    if "a = Acquire now now (sc_lockMgr sc) (sv_leaseMgr (sc_sv sc)) key ttl owner" for a key ttl owner
    by (rule handler_safe_locks)
       (use Acquire_leases[of now now "sc_lockMgr sc" "sv_leaseMgr (sc_sv sc)" key ttl owner] that lease_change_ok in auto)
  then show ?thesis by (auto simp: http_LockAcquire_def Let_def case_prod_beta)
qed

lemma safe_LockRelease: "handler_safe True sc (fst (http_LockRelease r sc))"
proof -
  have "handler_safe True sc (with_locks (fst a) (fst (snd a)) sc)"
    if "a = Release (sc_lockMgr sc) (sv_leaseMgr (sc_sv sc)) key i owner" for a key i owner
    by (rule handler_safe_locks)
       (use Release_leases[of "sc_lockMgr sc" "sv_leaseMgr (sc_sv sc)" key i owner] that lease_change_ok in auto)
  then show ?thesis by (auto simp: http_LockRelease_def Let_def case_prod_beta)
qed

lemma safe_LockKeepAlive: "handler_safe True sc (fst (http_LockKeepAlive now r sc))"
proof -
  have "handler_safe True sc (with_locks (sc_lockMgr sc) (fst a) sc)"
    if "a = KeepAlive_lock now (sc_lockMgr sc) (sv_leaseMgr (sc_sv sc)) key i owner ttl" for a key i owner ttl
    by (rule handler_safe_locks)
       (use KeepAlive_lock_leases[of now "sc_lockMgr sc" "sv_leaseMgr (sc_sv sc)" key i owner ttl] that lease_change_ok in auto)
  then show ?thesis by (auto simp: http_LockKeepAlive_def Let_def case_prod_beta)
qed

lemma safe_LockStatus: "handler_safe False sc (fst (http_LockStatus r sc))"
  by (simp add: http_LockStatus_def handler_safe_def with_locks_def same_rest_def sv_ok_def core_def Let_def case_prod_beta)

lemma add_watcher_safe: "handler_safe lock sc (with_watchers (fst (addWatcherInternal now (sv_watchers (sc_sv sc)) key pre p t f)) sc)"
  by (rule handler_safe_watchers) (use wm_ok_add in blast)

lemma safe_watch:
  "handler_safe lock sc (fst (http_Watch now r sc))" "handler_safe lock sc (fst (http_WatchPrefix now r sc))"
  "handler_safe lock sc (fst (http_Wait now r sc))"
  by (simp_all add: http_Watch_def http_WatchPrefix_def http_Wait_def AddWatcher_def AddPrefixWatcher_def
      add_watcher_safe Let_def case_prod_beta)

section \<open>Properties\<close>

lemma answered_state: "answered sc res = Ret (sc', act) \<Longrightarrow> sc' = sc"
  by (cases res) (simp_all add: answered_def)

lemma direct_state: "direct res = Ret (sc', act) \<Longrightarrow> sc' = fst res"
  by (simp add: direct_def)

text \<open>
  C26: Clients change the replicated data only through the log. Whatever request arrives on
  whatever path, the handler itself leaves the store, the revision, the journal, the pending
  replies and the Raft peer as they are and keeps the server well formed; only the handlers
  of \<open>/lock/acquire\<close>, \<open>/lock/release\<close> and \<open>/lock/keepalive\<close> touch the lease table. All
  other writes are commands that the handler submits.
\<close>

theorem http_no_direct_write:
  assumes "serve now path r sc = Ret (sc', act)" "sv_ok (sc_sv sc)"
  shows "sc_rf sc' = sc_rf sc \<and> sv_store (sc_sv sc') = sv_store (sc_sv sc) \<and>
    sv_currentRev (sc_sv sc') = sv_currentRev (sc_sv sc) \<and> same_rest (sc_sv sc) (sc_sv sc') \<and>
    (\<not> lock_path path \<longrightarrow> sv_leaseMgr (sc_sv sc') = sv_leaseMgr (sc_sv sc)) \<and> sv_ok (sc_sv sc')"
proof -
  have "handler_safe (lock_path path) sc sc'"
    using assms(1) safe_watch[of _ sc now r] safe_LockAcquire[of sc now r] safe_LockRelease[of sc r]
      safe_LockKeepAlive[of sc now r] safe_LockStatus[of sc r]
    by (auto simp: serve_def lock_path_def dest!: answered_state direct_state split: if_splits)
  then show ?thesis using assms(2) by (simp add: handler_safe_def)
qed

theorem http_no_direct_write_witness:
  "\<exists>sc' act. serve 5 ''/lock/acquire'' \<lparr>rq_Method = ''POST'', rq_Query = [(''key'', ''k'')]\<rparr> demo_service = Ret (sc', act) \<and>
     sv_ok (sc_sv demo_service) \<and> sv_store (sc_sv sc') = sv_store (sc_sv demo_service) \<and> sv_ok (sc_sv sc')"
proof -
  let ?r = "\<lparr>rq_Method = ''POST'', rq_Query = [(''key'', ''k'')]\<rparr>"
  have ok: "sv_ok (sc_sv demo_service)"
    using sv_ok_new[of True] by (simp add: demo_service_def start_service_def Make_def readPersist_def MakePersister_def)
  obtain sc' act where s: "serve 5 ''/lock/acquire'' ?r demo_service = Ret (sc', act)"
    by (simp add: serve_def direct_def)
  show ?thesis using http_no_direct_write[OF s ok] s ok by blast
qed

lemma itoa_nat_inj: "0 \<le> a \<Longrightarrow> 0 \<le> b \<Longrightarrow> itoa a = itoa b \<Longrightarrow> a = b"
  by (metis digits_value_utoa int_nat_eq itoa_def not_less)

text \<open>
  Taking a lock makes replicas diverge. \<open>/lock/acquire\<close> grants its lease directly in the
  lease manager of the server that got the request, without a log entry: if two servers are
  in the same state and one of them grants a lock, the next \<open>CmdLeaseGrant\<close> in the log
  gets different lease ids on the two.
\<close>

theorem lock_acquire_diverges:
  assumes "http_LockAcquire now r sc = (sc', a)" "rs_Code a = 200" "sv_ok (sc_sv sc)"
  shows "snd (exec_LeaseGrant cmd (sc_sv sc')) \<noteq> snd (exec_LeaseGrant cmd (sc_sv sc))"
proof -
  let ?le = "sv_leaseMgr (sc_sv sc)"
  obtain ttl e where le: "sv_leaseMgr (sc_sv sc') = fst (GrantUntil ?le ttl e)"
    using assms(1,2)
    by (auto simp: http_LockAcquire_def Acquire_def Grant_def not_allowed_def http_Error_def error_answer_def
        json_answer_def with_locks_def Let_def split: if_splits prod.splits sum.splits)
       (metis fst_conv)+
  have c: "0 \<le> lm_leaseID ?le" using assms(3) lm_ok_counter[of ?le] by (simp add: sv_ok_def core_def)
  have "lm_leaseID (sv_leaseMgr (sc_sv sc')) = lm_leaseID ?le + 1" by (simp add: le GrantUntil_def Let_def)
  moreover have "snd (exec_LeaseGrant cmd sv) = itoa (lm_leaseID (sv_leaseMgr sv) + 1)" for sv
    by (simp add: exec_LeaseGrant_def GrantUntil_def Let_def)
  ultimately show ?thesis using itoa_nat_inj[of "lm_leaseID ?le + 1 + 1" "lm_leaseID ?le + 1"] c by auto
qed

theorem lock_acquire_diverges_witness:
  "\<exists>sc' a. http_LockAcquire 5 \<lparr>rq_Method = ''POST'', rq_Query = [(''key'', ''k'')]\<rparr> demo_service = (sc', a) \<and>
     rs_Code a = 200 \<and>
     snd (exec_LeaseGrant zero_command (sc_sv sc')) \<noteq> snd (exec_LeaseGrant zero_command (sc_sv demo_service))"
proof -
  let ?r = "\<lparr>rq_Method = ''POST'', rq_Query = [(''key'', ''k'')]\<rparr>"
  define res where "res = http_LockAcquire 5 ?r demo_service"
  have sv: "sc_sv demo_service = new_server True"
    by (simp add: demo_service_def start_service_def Make_def readPersist_def MakePersister_def)
  have ok: "sv_ok (sc_sv demo_service)" using sv_ok_new[of True] sv by simp
  have r: "http_LockAcquire 5 ?r demo_service = (fst res, snd res)" by (simp add: res_def)
  have code: "rs_Code (snd res) = 200" unfolding res_def by code_simp
  show ?thesis using lock_acquire_diverges[OF r code ok, of zero_command] r code by blast
qed

lemma escape_safe: "html_safe c \<Longrightarrow> escape_ascii c = [c]"
  by (simp add: escape_ascii_def)

lemma quote_body_safe: "list_all html_safe s \<Longrightarrow> quote_body s = s"
  by (induction s) (auto simp: quote_body.simps html_safe_def escape_safe)

lemma fprintf_plain: "CHR ''%'' \<notin> set s \<Longrightarrow> length s < n \<Longrightarrow> fprintf n s = s"
proof (induction s arbitrary: n)
  case Nil
  then show ?case by (cases n) simp_all
next
  case (Cons c s)
  then show ?case by (cases n) auto
qed

lemma Fprintf_plain: "CHR ''%'' \<notin> set s \<Longrightarrow> Fprintf s = s"
  by (simp add: Fprintf_def fprintf_plain)

lemma parse_string_safe: "list_all html_safe s \<Longrightarrow> parse_string (s @ quote_ch # rest) = Some (s, rest)"
  using parse_quote_body[of s rest] quote_body_safe[of s]
  by (auto simp: list_all_iff html_safe_def intro!: valid_utf8_ascii)

lemma parse_members_head:
  assumes "list_all html_safe k"
  shows "parse_members (Suc n) d m (jname k @ r) =
    (case parse_value n d r of
       None \<Rightarrow> None
     | Some (v, r3) \<Rightarrow>
         (case expect (CHR ''}'') r3 of
            Some r4 \<Rightarrow> Some (AList.update k v m, r4)
          | None \<Rightarrow>
              (case expect (CHR '','') r3 of
                 None \<Rightarrow> None
               | Some r4 \<Rightarrow> parse_members n d (AList.update k v m) r4)))"
  by (simp add: parse_members.simps jname_def parse_string_safe[OF assms] split: option.split prod.split)

lemma parse_number_letter: "parse_number (CHR ''m'' # r) = None"
  by (simp add: parse_number_def is_digit_def byte_def)

text \<open>An object whose second member starts with a letter that starts no JSON value is an error.\<close>

lemma unmarshal_bad_member:
  assumes "list_all html_safe k" "list_all html_safe k'"
  shows "unmarshal (''{'' @ jname k @ ''true,'' @ jname k' @ ''m'' @ r) = None"
proof -
  have v: "parse_value (Suc n) d (''m'' @ r) = None" for n d
    by (simp add: parse_value.simps skip_ws_id parse_number_letter is_space_def)
  have b: "parse_value (Suc n) d (''true'' @ x) = Some (JBool True, x)" for n d x
    using parse_value_bool[of n d True x] by simp
  have "parse_members (Suc (Suc (Suc n))) d [] (jname k @ ''true'' @ '','' @ jname k' @ ''m'' @ r) = None" for n d
    by (simp only: parse_members_head[OF assms(1)] b option.case prod.case)
       (simp add: parse_members_head[OF assms(2)] v[simplified])
  then show ?thesis
    by (simp add: unmarshal_def eval_nat_numeral parse_value.simps skip_ws_id jname_def)
qed

text \<open>
  The answers to reads. \<open>/get\<close> copies the value into the JSON text as it is: a value of
  printable ASCII without quotes, backslashes and the characters \<open><\<close>, \<open>>\<close>, \<open>&\<close> reads back as
  exactly that value. The answer of \<open>/get/prefix\<close> is never JSON: the map is printed in Go's
  own syntax.
\<close>

theorem http_read_answers:
  assumes "rq_Method r = ''GET''" "query r ''key'' \<noteq> []" "query r ''prefix'' \<noteq> []"
    and "Get_server (query r ''key'') sc = Ret value" "list_all html_safe value"
    and "GetPrefix_server (query r ''prefix'') sc = Ret m"
  shows "\<exists>a b. http_Get r sc = Ret a \<and> http_GetPrefix r sc = Ret b \<and>
    unmarshal (rs_Body a) = Some (JObj [(''ok'', JBool True), (''value'', JStr value)]) \<and>
    unmarshal (rs_Body b) = None"
proof -
  let ?a = "''{'' @ jname ''ok'' @ ''true,'' @ jname ''value'' @ quoted value @ ''}''"
  let ?b = "''{'' @ jname ''ok'' @ ''true,'' @ jname ''keys'' @ go_map_string m @ ''}''"
  have safe: "list_all html_safe ''ok''" "list_all html_safe ''value''" "list_all html_safe ''keys''" by (simp_all add: html_safe_def byte_def)
  have "valid_utf8 value" using assms(5) by (intro valid_utf8_ascii) (auto simp: list_all_iff html_safe_def)
  then have "list_all2 (\<lambda>(name, tx) (name', v). name' = name \<and> valid_utf8 name \<and> reads_as tx v)
      [(''ok'', marshal_bool True), (''value'', quote value)] [(''ok'', JBool True), (''value'', JStr value)]"
    using reads_as_bool[of True] reads_as_string safe by (auto intro!: valid_utf8_ascii simp: byte_def)
  from unmarshal_struct[OF this]
  have "unmarshal ?a = Some (JObj [(''ok'', JBool True), (''value'', JStr value)])"
    using quote_body_safe[OF assms(5)] quote_body_safe[OF safe(1)] quote_body_safe[OF safe(2)]
    by (simp add: marshal_struct_def quote_def quoted_def jname_def)
  moreover have "unmarshal ?b = None"
    using unmarshal_bad_member[OF safe(1) safe(3)] by (simp add: go_map_string_def)
  moreover have "http_Get r sc = Ret (json_answer 200 ?a)" "http_GetPrefix r sc = Ret (json_answer 200 ?b)"
    using assms by (simp_all add: http_Get_def http_GetPrefix_def method_in_def)
  ultimately show ?thesis by (simp add: json_answer_def)
qed

theorem http_read_answers_witness:
  "\<exists>a b. http_Get \<lparr>rq_Method = ''GET'', rq_Query = [(''key'', ''k''), (''prefix'', ''p'')]\<rparr> demo_service = Ret a \<and>
     http_GetPrefix \<lparr>rq_Method = ''GET'', rq_Query = [(''key'', ''k''), (''prefix'', ''p'')]\<rparr> demo_service = Ret b \<and>
     unmarshal (rs_Body a) = Some (JObj [(''ok'', JBool True), (''value'', JStr [])]) \<and>
     unmarshal (rs_Body b) = None"
proof -
  let ?r = "\<lparr>rq_Method = ''GET'', rq_Query = [(''key'', ''k''), (''prefix'', ''p'')]\<rparr>"
  have sv: "sc_sv demo_service = new_server True" "sv_blocked (sc_sv demo_service) = False"
    by (simp_all add: demo_service_def start_service_def Make_def readPersist_def MakePersister_def new_server_def)
  have "Get_server (query ?r ''key'') demo_service = Ret []" by code_simp
  moreover have "GetPrefix_server (query ?r ''prefix'') demo_service = Ret []" by code_simp
  ultimately show ?thesis
    by (intro http_read_answers) (simp_all add: query_def)
qed

end
