(* ===== verification/Url.thy ===== *)
theory Url
  imports Http
begin

text \<open>
  What the command-line programs use of \<open>strings\<close>, \<open>net/url\<close> and \<open>net/http\<close>: substring
  search, the parts of a URL, the decoding of a query, and a request over the network to one
  of the servers of \<open>Http\<close>. The host part of a URL is not checked any further: where it names
  no server, the connection fails.
\<close>

section \<open>Substrings\<close>

fun Index :: "string \<Rightarrow> string \<Rightarrow> nat option" where
  \<comment> \<open>\<open>strings.Index\<close>; \<open>None\<close> stands for -1\<close>
  "Index [] sub = (if sub = [] then Some 0 else None)"
| "Index (c # s) sub = (if prefix sub (c # s) then Some 0 else map_option Suc (Index s sub))"

definition Contains :: "string \<Rightarrow> string \<Rightarrow> bool" where
  "Contains s sub \<longleftrightarrow> Index s sub \<noteq> None"

lemma Index_Some:
  "Index s sub = Some k \<longleftrightarrow> prefix sub (drop k s) \<and> k \<le> length s \<and> (\<forall>j < k. \<not> prefix sub (drop j s))"
proof (induction s arbitrary: k)
  case Nil
  then show ?case by (cases k) auto
next
  case (Cons c s)
  show ?case
  proof (cases "prefix sub (c # s)")
    case True
    then show ?thesis by (cases k) force+
  next
    case False
    then show ?thesis
      using Cons by (cases k) (auto simp: less_Suc_eq_0_disj)
  qed
qed

lemma Index_None: "Index s sub = None \<longleftrightarrow> \<not> sublist sub s"
proof (induction s)
  case Nil
  then show ?case by auto
next
  case (Cons c s)
  then show ?case by (auto simp: sublist_Cons_right)
qed

lemma Contains_sublist: "Contains s sub \<longleftrightarrow> sublist sub s"
  by (simp add: Contains_def Index_None)

text \<open>The first occurrence of a text that starts with a character the preceding text lacks.\<close>

lemma Index_skip:
  assumes "sub \<noteq> []" "hd sub \<notin> set p"
  shows "Index (p @ sub @ r) sub = Some (length p)"
  using assms
proof (induction p)
  case Nil
  then show ?case by (cases sub) simp_all
next
  case (Cons c p)
  then show ?case by (cases sub) auto
qed

section \<open>URLs\<close>

fun unescape :: "bool \<Rightarrow> string \<Rightarrow> string option" where
  \<comment> \<open>\<open>url.unescape\<close>, in a query (\<open>inq\<close>) or elsewhere; \<open>None\<close> is an error\<close>
  "unescape inq [] = Some []"
| "unescape inq (c # r) =
     (if c = CHR ''%'' then
        (case r of
           a # b # r' \<Rightarrow>
             (case (hex_value a, hex_value b) of
                (Some x, Some y) \<Rightarrow> map_option ((#) (chr (16 * x + y))) (unescape inq r')
              | _ \<Rightarrow> None)
         | _ \<Rightarrow> None)
      else map_option ((#) (if inq \<and> c = CHR ''+'' then CHR '' '' else c)) (unescape inq r))"

definition cut :: "char \<Rightarrow> string \<Rightarrow> string \<times> string" where
  \<comment> \<open>\<open>strings.Cut\<close>, without its flag\<close>
  "cut c s = (takeWhile (\<lambda>x. x \<noteq> c) s, drop 1 (dropWhile (\<lambda>x. x \<noteq> c) s))"

definition query_pair :: "string \<Rightarrow> (string \<times> string) list" where
  "query_pair piece =
     (if CHR '';'' \<in> set piece \<or> piece = [] then []
      else case cut (CHR ''='') piece of
        (key, value) \<Rightarrow>
          (case (unescape True key, unescape True value) of
             (Some k, Some v) \<Rightarrow> [(k, v)]
           | _ \<Rightarrow> []))"

definition parse_query :: "string \<Rightarrow> (string \<times> string) list" where
  \<comment> \<open>\<open>URL.Query\<close>: pairs that do not decode are left out\<close>
  "parse_query raw = concat (map query_pair (split_on (CHR ''&'') raw))"

definition control_char :: "char \<Rightarrow> bool" where
  "control_char c \<longleftrightarrow> byte c < 32 \<or> byte c = 127"

definition parse_url :: "string \<Rightarrow> (string \<times> string \<times> string) option" where
  \<comment> \<open>the host, the path and the raw query of a URL with the scheme \<open>http\<close>\<close>
  "parse_url u =
     (if list_ex control_char u \<or> \<not> prefix ''http://'' u then None
      else let (rest, fragment) = cut (CHR ''#'') (drop 7 u);
               (hostpath, raw) = cut (CHR ''?'') rest;
               host = takeWhile (\<lambda>c. c \<noteq> CHR ''/'') hostpath
           in case (unescape False (drop (length host) hostpath), unescape False fragment) of
                (Some path, Some _) \<Rightarrow> Some (host, path, raw)
              | _ \<Rightarrow> None)"

section \<open>A request over the network\<close>

definition bad_request :: response where
  \<comment> \<open>what \<open>net/http\<close> answers to a request line with a space in the URL\<close>
  "bad_request = \<lparr>rs_Code = 400, rs_ContentType = ''text/plain; charset=utf-8'', rs_Body = ''400 Bad Request''\<rparr>"

record network =
  nt_server :: "string \<Rightarrow> service option"   \<comment> \<open>who listens at an address\<close>
  nt_submit :: "string \<Rightarrow> command \<Rightarrow> (string + string) go"
    \<comment> \<open>the outcome of \<open>Submit\<close> there\<close>
  nt_await :: "string \<Rightarrow> int \<Rightarrow> event option"  \<comment> \<open>what a watcher there receives in time\<close>
  nt_error :: "string \<Rightarrow> string"             \<comment> \<open>the text of an error, for a URL\<close>
  nt_now :: int

definition resolve :: "network \<Rightarrow> string \<Rightarrow> action \<Rightarrow> response go" where
  "resolve nt host act =
     (case act of
        Respond a \<Rightarrow> Ret a
      | CallSubmit cmd answer \<Rightarrow>
          (case nt_submit nt host cmd of Blocked \<Rightarrow> Blocked | Ret r \<Rightarrow> Ret (answer r))
      | AwaitEvent i d answer \<Rightarrow> Ret (answer (nt_await nt host i)))"

definition fetch :: "network \<Rightarrow> string \<Rightarrow> string \<Rightarrow> (string + response) go" where
  \<comment> \<open>a request with a method and a URL: \<open>Inl\<close> is an error of the client, \<open>Blocked\<close> a request
    that is never answered\<close>
  "fetch nt meth url =
     (case parse_url url of
        None \<Rightarrow> Ret (Inl (nt_error nt url))
      | Some (host, path, raw) \<Rightarrow>
          (case nt_server nt host of
             None \<Rightarrow> Ret (Inl (nt_error nt url))
           | Some sc \<Rightarrow>
               if CHR '' '' \<in> set path \<union> set raw then Ret (Inr bad_request)
               else (case serve (nt_now nt) path \<lparr>rq_Method = meth, rq_Query = parse_query raw\<rparr> sc of
                       Blocked \<Rightarrow> Blocked
                     | Ret (_, act) \<Rightarrow> map_go Inr (resolve nt host act))))"

section \<open>URLs of plain text\<close>

definition plain :: "char \<Rightarrow> bool" where
  \<comment> \<open>the characters that a query transports as they are\<close>
  "plain c \<longleftrightarrow> is_digit c \<or> 65 \<le> byte c \<and> byte c \<le> 90 \<or> 97 \<le> byte c \<and> byte c \<le> 122 \<or> c \<in> set ''-_.~''"

definition host_char :: "char \<Rightarrow> bool" where
  "host_char c \<longleftrightarrow> plain c \<or> c = CHR '':''"

lemma byte_bounds [simp]: "byte c < 256"
  by (simp add: byte_def)

lemma plain_not:
  assumes "plain c"
  shows "c \<notin> set ''%+&=;#?/ '' \<and> \<not> control_char c \<and> c \<noteq> quote_ch \<and> c \<noteq> CHR '':''"
  using assms by (auto simp: plain_def is_digit_def control_char_def byte_def)

lemma host_char_not:
  assumes "host_char c"
  shows "c \<notin> set ''%+&=;#?/ '' \<and> \<not> control_char c"
  using assms plain_not[of c] by (auto simp: host_char_def control_char_def byte_def)

lemma unescape_plain: "CHR ''%'' \<notin> set s \<Longrightarrow> CHR ''+'' \<notin> set s \<or> \<not> inq \<Longrightarrow> unescape inq s = Some s"
  by (induction s) (auto split: if_splits)

lemma cut_at: "c \<notin> set s \<Longrightarrow> cut c (s @ c # r) = (s, r)"
  by (induction s) (auto simp: cut_def)

lemma cut_none: "c \<notin> set s \<Longrightarrow> cut c s = (s, [])"
  by (induction s) (auto simp: cut_def)

lemma plain_list:
  assumes "list_all plain s"
  shows "set s \<inter> set ''%+&=;#?/ '' = {}" "\<not> list_ex control_char s" "quote_ch \<notin> set s" "CHR '':'' \<notin> set s"
  using assms plain_not by (auto simp: list_all_iff list_ex_iff)

lemma split_on_none: "c \<notin> set s \<Longrightarrow> split_on c s = [s]"
  by (induction s) auto

lemma query_pair_plain:
  assumes "list_all plain name" "list_all plain v"
  shows "query_pair (name @ CHR ''='' # v) = [(name, v)]"
  using plain_list(1)[OF assms(1)] plain_list(1)[OF assms(2)]
  by (auto simp: query_pair_def cut_at unescape_plain)

lemma parse_query_one:
  assumes "list_all plain name" "list_all plain v"
  shows "parse_query (name @ CHR ''='' # v) = [(name, v)]"
  using plain_list(1)[OF assms(1)] plain_list(1)[OF assms(2)]
  by (simp add: parse_query_def split_on_none query_pair_plain assms)

lemma parse_query_two:
  assumes "list_all plain name" "list_all plain v" "list_all plain name'" "list_all plain v'"
  shows "parse_query (name @ CHR ''='' # v @ CHR ''&'' # name' @ CHR ''='' # v') = [(name, v), (name', v')]"
proof -
  have "split_on (CHR ''&'') ((name @ CHR ''='' # v) @ CHR ''&'' # (name' @ CHR ''='' # v')) =
      [name @ CHR ''='' # v, name' @ CHR ''='' # v']"
    using plain_list(1)[OF assms(1)] plain_list(1)[OF assms(2)] plain_list(1)[OF assms(3)] plain_list(1)[OF assms(4)]
    by (subst split_on_line) (auto simp: split_on_none)
  then show ?thesis by (simp add: parse_query_def query_pair_plain assms)
qed

lemma parse_url_parts:
  assumes "list_all host_char host" "list_all (\<lambda>c. plain c \<or> c = CHR ''/'') path"
    and "CHR ''#'' \<notin> set raw" "\<not> list_ex control_char raw"
  shows "parse_url (''http://'' @ host @ CHR ''/'' # path @ CHR ''?'' # raw) = Some (host, CHR ''/'' # path, raw)"
proof -
  have h: "\<And>c. c \<in> set host \<Longrightarrow> c \<notin> set ''%+&=;#?/ '' \<and> \<not> control_char c"
    using assms(1) host_char_not by (auto simp: list_all_iff)
  have p: "\<And>c. c \<in> set path \<Longrightarrow> c \<notin> set ''%+&=;#? '' \<and> \<not> control_char c"
    using assms(2) plain_not by (force simp: list_all_iff control_char_def byte_def)
  have "\<not> list_ex control_char (''http://'' @ host @ CHR ''/'' # path @ CHR ''?'' # raw)"
    using h p assms(4) by (auto simp: list_ex_iff control_char_def byte_def)
  moreover have "cut (CHR ''#'') (host @ CHR ''/'' # path @ CHR ''?'' # raw) = (host @ CHR ''/'' # path @ CHR ''?'' # raw, [])"
    using h p assms(3) by (intro cut_none) auto
  moreover have "cut (CHR ''?'') ((host @ CHR ''/'' # path) @ CHR ''?'' # raw) = (host @ CHR ''/'' # path, raw)"
    using h p by (intro cut_at) auto
  moreover have "takeWhile (\<lambda>c. c \<noteq> CHR ''/'') (host @ CHR ''/'' # path) = host"
    using h by (subst takeWhile_append2) auto
  moreover have "unescape False (CHR ''/'' # path) = Some (CHR ''/'' # path)"
    using p by (intro unescape_plain) auto
  ultimately show ?thesis by (simp add: parse_url_def)
qed

lemma parse_url_path:
  assumes "list_all host_char host" "list_all (\<lambda>c. plain c \<or> c = CHR ''/'') path"
  shows "parse_url (''http://'' @ host @ CHR ''/'' # path) = Some (host, CHR ''/'' # path, [])"
proof -
  have h: "\<And>c. c \<in> set host \<Longrightarrow> c \<notin> set ''%+&=;#?/ '' \<and> \<not> control_char c"
    using assms(1) host_char_not by (auto simp: list_all_iff)
  have p: "\<And>c. c \<in> set path \<Longrightarrow> c \<notin> set ''%+&=;#? '' \<and> \<not> control_char c"
    using assms(2) plain_not by (force simp: list_all_iff control_char_def byte_def)
  have "\<not> list_ex control_char (''http://'' @ host @ CHR ''/'' # path)"
    using h p by (auto simp: list_ex_iff control_char_def byte_def)
  moreover have "cut c (host @ CHR ''/'' # path) = (host @ CHR ''/'' # path, [])" if "c \<in> {CHR ''#'', CHR ''?''}" for c
    using h p that by (intro cut_none) auto
  moreover have "takeWhile (\<lambda>c. c \<noteq> CHR ''/'') (host @ CHR ''/'' # path) = host"
    using h by (subst takeWhile_append2) auto
  moreover have "unescape False (CHR ''/'' # path) = Some (CHR ''/'' # path)"
    using p by (intro unescape_plain) auto
  ultimately show ?thesis by (simp add: parse_url_def)
qed

end
