(* ===== verification/Clients.thy ===== *)
theory Clients
  imports Url
begin

text \<open>
  The programs that talk to a cluster: the HTTP client (\<open>cmd/client\<close>), the RPC client
  (\<open>client/client.go\<close>, \<open>cmd/rpcclient\<close>), the load generator (\<open>cmd/stress\<close>) and the table of
  addresses (\<open>config\<close>). A function that makes HTTP requests takes \<open>http\<close>, which answers a
  method and a URL; \<open>fetch\<close> of the theory \<open>Url\<close> is the one that leads to the servers. A
  function that makes RPC calls takes the \<open>Submit\<close> of the server it is connected to. What a
  program prints is a list of lines.
\<close>

type_synonym http_client = "string \<Rightarrow> string \<Rightarrow> (string + response) go"

section \<open>\<open>cmd/client\<close>\<close>

fun httpPut :: "http_client \<Rightarrow> string list \<Rightarrow> string \<Rightarrow> string \<Rightarrow> (string list \<times> string option) go" where
  \<comment> \<open>the lines printed, and the error\<close>
  "httpPut http [] key value = Ret ([], Some ''all nodes failed (no leader?)'')"
| "httpPut http (addr # addrs) key value =
     (case http ''POST'' (''http://'' @ addr @ ''/put?key='' @ key @ ''&value='' @ value) of
        Blocked \<Rightarrow> Blocked
      | Ret (Inl err) \<Rightarrow> httpPut http addrs key value
      | Ret (Inr resp) \<Rightarrow>
          if rs_Code resp = 200 then Ret ([''Write success on '' @ addr], None)
          else if Contains (rs_Body resp) ''not leader''
          then map_go (apfst ((#) (''Not leader: '' @ addr))) (httpPut http addrs key value)
          else Ret ([], Some (''status '' @ itoa (rs_Code resp) @ '': '' @ rs_Body resp)))"

definition text_field :: "string \<Rightarrow> string \<Rightarrow> string option" where
  \<comment> \<open>what stands between a mark and the next quote\<close>
  "text_field mark content =
     (case Index content mark of
        None \<Rightarrow> None
      | Some idx \<Rightarrow>
          (let rest = drop (idx + length mark) content
           in case Index rest [quote_ch] of None \<Rightarrow> None | Some n \<Rightarrow> Some (take n rest)))"

fun httpGet :: "http_client \<Rightarrow> string list \<Rightarrow> string \<Rightarrow> (string + string) go" where
  "httpGet http [] key = Ret (Inl ''key not found'')"
| "httpGet http (addr # addrs) key =
     (case http ''GET'' (''http://'' @ addr @ ''/get?key='' @ key) of
        Blocked \<Rightarrow> Blocked
      | Ret (Inl err) \<Rightarrow> httpGet http addrs key
      | Ret (Inr resp) \<Rightarrow>
          if rs_Code resp \<noteq> 200 then httpGet http addrs key
          else (case text_field (jname ''value'' @ [quote_ch]) (rs_Body resp) of
                  None \<Rightarrow> httpGet http addrs key
                | Some val \<Rightarrow> if val \<noteq> [] then Ret (Inr val) else httpGet http addrs key))"

definition httpHealth :: "http_client \<Rightarrow> string \<Rightarrow> (string + string) go" where
  "httpHealth http baseURL =
     (case http ''GET'' (baseURL @ ''/health'') of
        Blocked \<Rightarrow> Blocked
      | Ret (Inl err) \<Rightarrow> Ret (Inl err)
      | Ret (Inr resp) \<Rightarrow>
          Ret (Inr (case text_field (jname ''status'' @ [quote_ch]) (rs_Body resp) of
                      None \<Rightarrow> [] | Some status \<Rightarrow> status)))"

definition client_main :: "http_client \<Rightarrow> string \<Rightarrow> string \<Rightarrow> string \<Rightarrow> string \<Rightarrow> string list go" where
  \<comment> \<open>\<open>main\<close>, after the flags are parsed\<close>
  "client_main http httpAddr op key value =
     (if op = [] then Ret [''Usage: client no message'']
      else let baseURL = ''http://'' @ httpAddr; addrlist = split_on (CHR '','') httpAddr
           in if op = ''put'' then
                (if key = [] \<or> value = [] then Ret [''put operation requires -key and -value'']
                 else map_go (\<lambda>(out, err). out @ (case err of Some e \<Rightarrow> [''Error: '' @ e] | None \<Rightarrow> [''Put succeeded'']))
                        (httpPut http addrlist key value))
              else if op = ''get'' then
                (if key = [] then Ret [''get operation requires -key'']
                 else map_go (\<lambda>r. case r of
                          Inl e \<Rightarrow> [''Error: '' @ e]
                        | Inr val \<Rightarrow> if val = [] then [''This key is not exist or it'' @ [CHR 0x27] @ ''s empty''] else [''Value: '' @ val])
                        (httpGet http addrlist key))
              else if op = ''health'' then
                map_go (\<lambda>r. case r of Inl e \<Rightarrow> [''Error: '' @ e] | Inr status \<Rightarrow> [''Status: '' @ status])
                  (httpHealth http baseURL)
              else Ret [''Unknown operation: '' @ op])"

section \<open>The RPC client\<close>

definition rpc_call :: "(command \<Rightarrow> (string + string) go) \<Rightarrow> 'r rpc_action \<Rightarrow> (string + 'r) go" where
  \<comment> \<open>a call over \<open>net/rpc\<close>: the response, or the text of the error that the handler returned\<close>
  "rpc_call submit act =
     (case act of RpcSubmit cmd answer \<Rightarrow>
        map_go (\<lambda>r. case answer r of (resp, None) \<Rightarrow> Inr resp | (_, Some err) \<Rightarrow> Inl err) (submit cmd))"

definition client_Put :: "(command \<Rightarrow> (string + string) go) \<Rightarrow> string \<Rightarrow> string \<Rightarrow> string option go" where
  "client_Put submit key value =
     map_go (\<lambda>r. case r of Inl err \<Rightarrow> Some err | Inr ok \<Rightarrow> if \<not> ok then Some ''put failed'' else None)
       (rpc_call submit (rpc_Put \<lparr>pr_Key = key, pr_Value = value, pr_LeaseID = 0\<rparr>))"

definition client_Get :: "(command \<Rightarrow> (string + string) go) \<Rightarrow> string \<Rightarrow> (string + string) go" where
  "client_Get submit key = rpc_call submit (rpc_Get key)"

definition client_Delete :: "(command \<Rightarrow> (string + string) go) \<Rightarrow> string \<Rightarrow> string option go" where
  "client_Delete submit key =
     map_go (\<lambda>r. case r of Inl err \<Rightarrow> Some err | Inr ok \<Rightarrow> if \<not> ok then Some ''delete failed'' else None)
       (rpc_call submit (rpc_Delete key))"

definition client_Watch :: "int \<Rightarrow> string \<Rightarrow> bool \<Rightarrow> int \<Rightarrow> service \<Rightarrow> service \<times> int" where
  "client_Watch now key persistent timeoutMs sc =
     rpc_Watch now \<lparr>wr_Key = key, wr_Persistent = persistent, wr_Timeout = timeoutMs, wr_WatcherID = 0,
                    wr_FromRev = 0\<rparr> sc"

definition client_CancelWatch :: "string \<Rightarrow> int \<Rightarrow> service \<Rightarrow> service option" where
  "client_CancelWatch key watcherID sc =
     rpc_CancelWatch \<lparr>wr_Key = key, wr_Persistent = False, wr_Timeout = 0, wr_WatcherID = watcherID,
                      wr_FromRev = 0\<rparr> sc"

definition rpcclient_main ::
  "(command \<Rightarrow> (string + string) go) \<Rightarrow> string \<Rightarrow> string \<Rightarrow> string \<Rightarrow> string list go" where
  \<comment> \<open>\<open>main\<close>, once it is connected\<close>
  "rpcclient_main submit op key value =
     (if op = [] then Ret [''Usage: rpcclient -op <put|get|delete> -key <key> [-value <value>]'']
      else if op = ''put'' then
        (if key = [] \<or> value = [] then Ret [''put operation requires -key and -value'']
         else map_go (\<lambda>err. case err of Some e \<Rightarrow> [''Put error: '' @ e] | None \<Rightarrow> [''Put succeeded''])
                (client_Put submit key value))
      else if op = ''get'' then
        (if key = [] then Ret [''get operation requires -key'']
         else map_go (\<lambda>r. case r of Inl e \<Rightarrow> [''Get error: '' @ e] | Inr val \<Rightarrow> [''Value: '' @ val])
                (client_Get submit key))
      else if op = ''delete'' then
        (if key = [] then Ret [''delete operation requires -key'']
         else map_go (\<lambda>err. case err of Some e \<Rightarrow> [''Delete error: '' @ e] | None \<Rightarrow> [''Delete succeeded''])
                (client_Delete submit key))
      else Ret [''Invalid operation''])"

section \<open>The load generator\<close>

record result =
  re_Latency :: int
  re_OK :: bool
  re_Err :: string
  re_Body :: string

record stats =
  st_Total :: int
  st_Success :: int
  st_Failed :: int
  st_Latencies :: "int list"

definition Avg :: "stats \<Rightarrow> int" where
  \<comment> \<open>the sum of the durations wraps around; Go's division rounds towards zero\<close>
  "Avg s =
     (if st_Latencies s = [] then 0
      else let total = foldl (\<lambda>n l. wrap64 (n + l)) 0 (st_Latencies s)
           in sgn total * (\<bar>total\<bar> div int (length (st_Latencies s))))"

function strip :: "string list \<Rightarrow> string \<Rightarrow> string" where
  "strip rs s =
     (case List.find (\<lambda>p. p \<noteq> [] \<and> prefix p s) rs of
        None \<Rightarrow> s
      | Some p \<Rightarrow> strip rs (drop (length p) s))"
  by auto

termination strip
proof (relation "measure (length \<circ> snd)")
  fix rs :: "string list" and s p
  assume "List.find (\<lambda>p. p \<noteq> [] \<and> prefix p s) rs = Some p"
  then have "p \<noteq> []" "prefix p s" using find_SomeD by fastforce+
  then show "((rs, drop (length p) s), (rs, s)) \<in> measure (length \<circ> snd)" by (cases s) auto
qed simp

declare strip.simps [simp del]

definition TrimSpace :: "string \<Rightarrow> string" where
  \<comment> \<open>\<open>strings.TrimSpace\<close>\<close>
  "TrimSpace s =
     (let spaces = [CHR 0x0A] # space_runes
      in rev (strip (map rev spaces) (rev (strip spaces s))))"

fun findLeader :: "http_client \<Rightarrow> string list \<Rightarrow> string go" where
  "findLeader http [] = Ret []"
| "findLeader http (addr # addrs) =
     (case http ''GET'' (''http://'' @ addr @ ''/health'') of
        Blocked \<Rightarrow> Blocked
      | Ret (Inl err) \<Rightarrow> findLeader http addrs
      | Ret (Inr resp) \<Rightarrow>
          if Contains (rs_Body resp) (jname ''status'' @ quoted ''leader'') then Ret addr
          else findLeader http addrs)"

definition op_result :: "bool \<Rightarrow> int \<Rightarrow> string + response \<Rightarrow> result" where
  \<comment> \<open>the end of every operation; a read does not look at the body\<close>
  "op_result check lat r =
     (case r of
        Inl err \<Rightarrow> \<lparr>re_Latency = lat, re_OK = False, re_Err = err, re_Body = []\<rparr>
      | Inr resp \<Rightarrow>
          (let ok = (rs_Code resp = 200 \<and> (check \<longrightarrow> Contains (rs_Body resp) (jname ''ok'' @ ''true'')))
           in \<lparr>re_Latency = lat, re_OK = ok, re_Err = (if \<not> ok then TrimSpace (rs_Body resp) else []),
               re_Body = rs_Body resp\<rparr>))"

definition stress_httpPut :: "http_client \<Rightarrow> int \<Rightarrow> string \<Rightarrow> string \<Rightarrow> string \<Rightarrow> result go" where
  "stress_httpPut http lat addr key value =
     map_go (op_result True lat)
       (http ''POST'' (''http://'' @ addr @ ''/put?key='' @ key @ ''&value='' @ value))"

definition stress_httpGet :: "http_client \<Rightarrow> int \<Rightarrow> string \<Rightarrow> string \<Rightarrow> result go" where
  "stress_httpGet http lat addr key =
     map_go (op_result False lat) (http ''GET'' (''http://'' @ addr @ ''/get?key='' @ key))"

definition stress_httpDelete :: "http_client \<Rightarrow> int \<Rightarrow> string \<Rightarrow> string \<Rightarrow> result go" where
  "stress_httpDelete http lat addr key =
     map_go (op_result True lat) (http ''DELETE'' (''http://'' @ addr @ ''/delete?key='' @ key))"

definition httpLeaseGrant :: "http_client \<Rightarrow> int \<Rightarrow> string \<Rightarrow> int \<Rightarrow> result go" where
  "httpLeaseGrant http lat addr ttl =
     map_go (op_result True lat) (http ''POST'' (''http://'' @ addr @ ''/lease/grant?ttl='' @ itoa ttl))"

definition httpLeaseRevoke :: "http_client \<Rightarrow> int \<Rightarrow> string \<Rightarrow> string \<Rightarrow> result go" where
  "httpLeaseRevoke http lat addr leaseID =
     map_go (op_result True lat) (http ''POST'' (''http://'' @ addr @ ''/lease/revoke?lease_id='' @ leaseID))"

definition extractLeaseID :: "string \<Rightarrow> string" where
  "extractLeaseID body =
     (case Index body (jname ''lease_id'') of
        None \<Rightarrow> []
      | Some idx \<Rightarrow> takeWhile (\<lambda>c. c \<noteq> CHR ''}'' \<and> c \<noteq> CHR '','') (drop (idx + 11) body))"

definition lease_phase :: "http_client \<Rightarrow> int \<Rightarrow> int \<Rightarrow> string \<Rightarrow> result go" where
  \<comment> \<open>the operation of phase 5 of \<open>main\<close>: grant a lease, revoke it\<close>
  "lease_phase http lat lat' leader =
     (case httpLeaseGrant http lat leader 30 of
        Blocked \<Rightarrow> Blocked
      | Ret res \<Rightarrow>
          if \<not> re_OK res then Ret res
          else let leaseID = extractLeaseID (re_Body res)
               in if leaseID = [] then
                    Ret \<lparr>re_Latency = re_Latency res, re_OK = False, re_Err = ''no lease_id in response'',
                         re_Body = re_Body res\<rparr>
                  else map_go (\<lambda>res2. res2\<lparr>re_Latency := re_Latency res2 + re_Latency res\<rparr>)
                         (httpLeaseRevoke http lat' leader leaseID))"

fun launch :: "nat \<Rightarrow> (nat \<Rightarrow> bool) \<Rightarrow> nat \<Rightarrow> nat" where
  \<comment> \<open>the loop of \<open>runTest\<close> over the number of requests: in round \<open>i\<close> the limiter has a free slot,
    or the round sleeps; the number of requests started\<close>
  "launch i slot 0 = 0"
| "launch i slot (Suc n) = (if slot i then 1 else 0) + launch (Suc i) slot n"

definition collect :: "result list \<Rightarrow> stats" where
  \<comment> \<open>the counters of \<open>runTest\<close>, from the results in the order in which they came in\<close>
  "collect rs =
     (let success = int (length (filter re_OK rs)); failed = int (length (filter (\<lambda>r. \<not> re_OK r) rs))
      in \<lparr>st_Total = success + failed, st_Success = success, st_Failed = failed,
          st_Latencies = map re_Latency rs\<rparr>)"

section \<open>\<open>config\<close>\<close>

record node_config =
  nc_ID :: int
  nc_RaftAddr :: string
  nc_RPCAddr :: string
  nc_HTTPAddr :: string

definition TestCluster :: "node_config list" where
  "TestCluster =
     [\<lparr>nc_ID = 0, nc_RaftAddr = ''127.0.0.1:5000'', nc_RPCAddr = ''127.0.0.1:6000'', nc_HTTPAddr = ''127.0.0.1:8000''\<rparr>,
      \<lparr>nc_ID = 1, nc_RaftAddr = ''127.0.0.1:5001'', nc_RPCAddr = ''127.0.0.1:6001'', nc_HTTPAddr = ''127.0.0.1:8001''\<rparr>,
      \<lparr>nc_ID = 2, nc_RaftAddr = ''127.0.0.1:5002'', nc_RPCAddr = ''127.0.0.1:6002'', nc_HTTPAddr = ''127.0.0.1:8002''\<rparr>]"

definition GetNodeConfig :: "node_config list \<Rightarrow> int \<Rightarrow> node_config option" where
  "GetNodeConfig nodes i = List.find (\<lambda>node. nc_ID node = i) nodes"

definition GetRaftAddrs :: "node_config list \<Rightarrow> string list" where
  "GetRaftAddrs nodes = map nc_RaftAddr nodes"

section \<open>Requests that reach a server\<close>

lemma plain_words:
  "list_all plain ''key''" "list_all plain ''value''" "list_all plain ''ttl''" "list_all plain ''lease_id''"
  by (simp_all add: plain_def is_digit_def byte_def)

lemma plain_paths:
  "list_all (\<lambda>c. plain c \<or> c = CHR ''/'') ''get''" "list_all (\<lambda>c. plain c \<or> c = CHR ''/'') ''put''"
  "list_all (\<lambda>c. plain c \<or> c = CHR ''/'') ''health''" "list_all (\<lambda>c. plain c \<or> c = CHR ''/'') ''lease/grant''"
  "list_all (\<lambda>c. plain c \<or> c = CHR ''/'') ''lease/revoke''"
  by (simp_all add: plain_def is_digit_def byte_def)

definition answer_at :: "network \<Rightarrow> string \<Rightarrow> string \<Rightarrow> string \<Rightarrow> string \<Rightarrow> (string \<times> string) list \<Rightarrow> (string + response) go" where
  \<comment> \<open>what the server at an address answers to a request, if there is one\<close>
  "answer_at nt url addr meth path q =
     (case nt_server nt addr of
        None \<Rightarrow> Ret (Inl (nt_error nt url))
      | Some sc \<Rightarrow>
          (case serve (nt_now nt) path \<lparr>rq_Method = meth, rq_Query = q\<rparr> sc of
             Blocked \<Rightarrow> Blocked
           | Ret (_, act) \<Rightarrow> map_go Inr (resolve nt addr act)))"

lemma fetch_raw:
  assumes "list_all host_char addr" "list_all (\<lambda>c. plain c \<or> c = CHR ''/'') path"
    and "list_all (\<lambda>c. plain c \<or> c = CHR ''='' \<or> c = CHR ''&'') raw"
    and "url = ''http://'' @ addr @ CHR ''/'' # path @ CHR ''?'' # raw"
  shows "fetch nt meth url = answer_at nt url addr meth (CHR ''/'' # path) (parse_query raw)"
proof -
  have raw: "c \<notin> set ''# ''" "\<not> control_char c" if "c \<in> set raw" for c
    using assms(3) that plain_not[of c] by (auto simp: list_all_iff control_char_def byte_def)
  have path: "CHR '' '' \<notin> set path" using assms(2) plain_not by (auto simp: list_all_iff)
  have "parse_url url = Some (addr, CHR ''/'' # path, raw)"
    unfolding assms(4) using raw by (intro parse_url_parts assms(1,2)) (auto simp: list_ex_iff)
  then show ?thesis using raw(1) path by (auto simp: fetch_def answer_at_def split: option.splits)
qed

lemma fetch_one:
  assumes "list_all host_char addr" "list_all (\<lambda>c. plain c \<or> c = CHR ''/'') path"
    and "list_all plain name" "list_all plain v"
    and "url = ''http://'' @ addr @ CHR ''/'' # path @ CHR ''?'' # name @ CHR ''='' # v"
  shows "fetch nt meth url = answer_at nt url addr meth (CHR ''/'' # path) [(name, v)]"
proof -
  have "list_all (\<lambda>c. plain c \<or> c = CHR ''='' \<or> c = CHR ''&'') (name @ CHR ''='' # v)"
    using assms(3,4) by (auto simp: list_all_iff)
  then have "fetch nt meth url = answer_at nt url addr meth (CHR ''/'' # path) (parse_query (name @ CHR ''='' # v))"
    using assms(5) by (intro fetch_raw assms(1,2))
  then show ?thesis using parse_query_one[OF assms(3,4)] by simp
qed

lemma fetch_get:
  assumes "list_all host_char addr" "list_all plain key"
  shows "fetch nt ''GET'' (''http://'' @ addr @ ''/get?key='' @ key) =
    (case nt_server nt addr of
       None \<Rightarrow> Ret (Inl (nt_error nt (''http://'' @ addr @ ''/get?key='' @ key)))
     | Some sc \<Rightarrow> map_go Inr (http_Get \<lparr>rq_Method = ''GET'', rq_Query = [(''key'', key)]\<rparr> sc))"
  by (subst fetch_one[OF assms(1) plain_paths(1) plain_words(1) assms(2)])
     (auto simp: answer_at_def serve_def answered_def resolve_def split: option.splits go.splits)

section \<open>Reads\<close>

lemma Index_quote: "quote_ch \<notin> set v \<Longrightarrow> Index (v @ quote_ch # r) [quote_ch] = Some (length v)"
  using Index_skip[of "[quote_ch]" v r] by simp

lemma text_field_value:
  "quote_ch \<notin> set v \<Longrightarrow>
   text_field (jname ''value'' @ [quote_ch]) (''{'' @ jname ''ok'' @ ''true,'' @ jname ''value'' @ quoted v @ ''}'') = Some v"
  by (simp add: text_field_def jname_def quoted_def Index_quote)

definition stored :: "network \<Rightarrow> string \<Rightarrow> string \<Rightarrow> string" where
  \<comment> \<open>the live value of a key in the store at an address; the empty string where there is none\<close>
  "stored nt key addr =
     (case nt_server nt addr of
        None \<Rightarrow> []
      | Some sc \<Rightarrow> (case kv_view (sv_store (sc_sv sc)) key of None \<Rightarrow> [] | Some v \<Rightarrow> v))"

definition readable :: "service \<Rightarrow> bool" where
  "readable sc \<longleftrightarrow>
     \<not> sv_blocked (sc_sv sc) \<and> kv_ok (sv_store (sc_sv sc)) \<and> kv_currentRev (sv_store (sc_sv sc)) \<le> max_int64"

lemma http_Get_stored:
  assumes "readable sc" "nt_server nt addr = Some sc" "key \<noteq> []"
  shows "http_Get \<lparr>rq_Method = ''GET'', rq_Query = [(''key'', key)]\<rparr> sc =
    Ret (json_answer 200 (''{'' @ jname ''ok'' @ ''true,'' @ jname ''value'' @ quoted (stored nt key addr) @ ''}''))"
  using assms Get_live[of "sv_store (sc_sv sc)" key]
  by (simp add: http_Get_def method_in_def query_def Get_server_def readable_def stored_def)

text \<open>
  C33: A read with the HTTP client, through URL, handler and answer. If the servers that run are
  not wedged and the key is plain text, \<open>httpGet\<close> returns the value that the first address in the list
  with a non-empty value stores, and \<open>key not found\<close> when there is none: addresses without a server
  are passed over, and so are servers without the key. The value must not contain a quote.
\<close>

theorem httpGet_first:
  assumes key: "key \<noteq> []" "list_all plain key"
    and addrs: "\<forall>a \<in> set addrs. list_all host_char a \<and> quote_ch \<notin> set (stored nt key a) \<and>
      (\<forall>sc. nt_server nt a = Some sc \<longrightarrow> readable sc)"
  shows "httpGet (fetch nt) addrs key =
    Ret (case List.find (\<lambda>a. stored nt key a \<noteq> []) addrs of
           None \<Rightarrow> Inl ''key not found'' | Some a \<Rightarrow> Inr (stored nt key a))"
  using addrs
proof (induction addrs)
  case Nil
  then show ?case by simp
next
  case (Cons a addrs)
  show ?case
  proof (cases "nt_server nt a")
    case None
    then have "fetch nt ''GET'' (''http://'' @ a @ ''/get?key='' @ key) =
        Ret (Inl (nt_error nt (''http://'' @ a @ ''/get?key='' @ key)))"
      using fetch_get[of a key nt] Cons.prems key by (simp del: append.simps)
    moreover have "stored nt key a = []" using None by (simp add: stored_def)
    ultimately show ?thesis using Cons by (simp del: append.simps)
  next
    case (Some sc)
    have "fetch nt ''GET'' (''http://'' @ a @ ''/get?key='' @ key) =
        Ret (Inr (json_answer 200 (''{'' @ jname ''ok'' @ ''true,'' @ jname ''value'' @ quoted (stored nt key a) @ ''}'')))"
      using fetch_get[of a key nt] http_Get_stored[of sc nt a key] Cons.prems key Some by (simp del: append.simps)
    moreover have "text_field (jname ''value'' @ [quote_ch])
        (''{'' @ jname ''ok'' @ ''true,'' @ jname ''value'' @ quoted (stored nt key a) @ ''}'') = Some (stored nt key a)"
      using Cons.prems by (intro text_field_value) simp
    ultimately show ?thesis using Cons by (simp add: json_answer_def del: append.simps)
  qed
qed

theorem httpGet_first_witness:
  "httpGet (fetch \<lparr>nt_server = (\<lambda>a. if a = ''b:2'' then Some (demo_service\<lparr>sc_sv := (new_server True)\<lparr>sv_store := Put NewKVStore ''k'' ''v''\<rparr>\<rparr>) else None),
      nt_submit = (\<lambda>_ _. Blocked), nt_await = (\<lambda>_ _. None), nt_error = (\<lambda>_. ''refused''), nt_now = 0\<rparr>)
     [''a:1'', ''b:2''] ''k'' = Ret (Inr ''v'')"
proof -
  let ?sc = "demo_service\<lparr>sc_sv := (new_server True)\<lparr>sv_store := Put NewKVStore ''k'' ''v''\<rparr>\<rparr>"
  let ?nt = "\<lparr>nt_server = (\<lambda>a. if a = ''b:2'' then Some ?sc else None),
      nt_submit = (\<lambda>_ _. Blocked), nt_await = (\<lambda>_ _. None), nt_error = (\<lambda>_. ''refused''), nt_now = 0\<rparr>"
  have "kv_view (Put NewKVStore ''k'' ''v'') ''k'' = Some ''v''" by code_simp
  then have st: "stored ?nt ''k'' a = (if a = ''b:2'' then ''v'' else [])" for a by (simp add: stored_def)
  have "kv_ok (Put NewKVStore ''k'' ''v'')" "kv_currentRev (Put NewKVStore ''k'' ''v'') \<le> max_int64" by code_simp+
  then have "readable ?sc" by (simp add: readable_def new_server_def)
  moreover have "list_all plain ''k''" "list_all host_char ''a:1''" "list_all host_char ''b:2''" by code_simp+
  ultimately show ?thesis
    using httpGet_first[of "''k''" "[''a:1'', ''b:2'']" ?nt] by (simp add: st)
qed

section \<open>Leases of the load generator\<close>

lemma skip_space_digit: "is_digit c \<Longrightarrow> skip_space (c # s) = c # s"
proof -
  assume c: "is_digit c"
  have "list_all (\<lambda>p. p \<noteq> [] \<and> \<not> is_digit (hd p)) space_runes" by code_simp
  then have "\<not> prefix p (c # s)" if "p \<in> set space_runes" for p
    using that c by (cases p) (auto simp: list_all_iff)
  then have "List.find (\<lambda>p. p \<noteq> [] \<and> prefix p (c # s)) space_runes = None"
    by (auto simp: find_None_iff)
  then show ?thesis by (simp add: skip_space.simps)
qed

lemma sscan_itoa:
  assumes "0 \<le> i" "i \<le> max_int64"
  shows "sscan_int (itoa i) v = i"
proof -
  obtain c cs where u: "utoa (nat i) = c # cs" "is_digit c"
    using utoa_digits[of "nat i"] utoa_nonempty[of "nat i"] by (cases "utoa (nat i)") auto
  have "c \<noteq> CHR ''-''" "c \<noteq> CHR ''+''" "c \<noteq> CHR ''_''" "CHR ''_'' \<notin> set cs"
    using u utoa_digits[of "nat i"] by (auto simp: is_digit_def byte_def)
  moreover have tw: "takeWhile (\<lambda>c. is_digit c \<or> c = CHR ''_'') cs = cs"
    using u(1) utoa_digits[of "nat i"] by (auto simp: takeWhile_eq_all_conv)
  moreover have "wrap64 i = i" using assms by (simp add: wrap64_def max_int64_def)
  ultimately show ?thesis
    using u assms digits_value_utoa[of "nat i"] by (simp add: sscan_int_def itoa_def skip_space_digit Let_def tw)
qed

lemma itoa_plain: "list_all plain (itoa i)"
  using utoa_digits by (auto simp: itoa_def list_all_iff plain_def)

lemma extract_granted:
  assumes "0 \<le> i"
  shows "extractLeaseID (''{'' @ jname ''ok'' @ ''true,'' @ jname ''lease_id'' @ itoa i @ ''}'') = itoa i"
proof -
  have "takeWhile (\<lambda>c. c \<noteq> CHR ''}'' \<and> c \<noteq> CHR '','') (itoa i @ ''}'') = itoa i"
    using itoa_plain[of i] by (subst takeWhile_append2) (auto simp: list_all_iff plain_def is_digit_def byte_def)
  then show ?thesis by (simp add: extractLeaseID_def jname_def)
qed

lemma itoa_nonempty: "itoa i \<noteq> []"
  by (simp add: itoa_def utoa_nonempty)

definition grant_30 :: command where
  "grant_30 = zero_command\<lparr>c_Type := CmdLeaseGrant, c_TTL := 30\<rparr>"

definition revoke_of :: "int \<Rightarrow> command" where
  "revoke_of i = zero_command\<lparr>c_Type := CmdLeaseRevoke, c_LeaseID := i\<rparr>"

lemma grant_request:
  assumes "list_all host_char addr" "nt_server nt addr = Some sc"
  shows "httpLeaseGrant (fetch nt) lat addr 30 =
    (case nt_submit nt addr grant_30 of
       Blocked \<Rightarrow> Blocked
     | Ret r \<Rightarrow> Ret (op_result True lat (Inr (submitted (\<lambda>result. json_answer 200
         (''{'' @ jname ''ok'' @ ''true,'' @ jname ''lease_id'' @ result @ ''}'')) r))))"
proof -
  have itoa: "itoa 30 = ''30''" by code_simp
  have p: "list_all plain ''30''" by code_simp
  have ttl: "sscan_int ''30'' 10 = 30" by code_simp
  have "fetch nt ''POST'' (''http://'' @ addr @ ''/lease/grant?ttl='' @ itoa 30) =
      answer_at nt (''http://'' @ addr @ ''/lease/grant?ttl='' @ itoa 30) addr ''POST'' (CHR ''/'' # ''lease/grant'') [(''ttl'', ''30'')]"
    by (rule fetch_one[OF assms(1) plain_paths(4) plain_words(3) p]) (simp add: itoa)
  moreover have "http_LeaseGrant \<lparr>rq_Method = ''POST'', rq_Query = [(''ttl'', ''30'')]\<rparr> =
      CallSubmit grant_30 (submitted (\<lambda>result. json_answer 200
         (''{'' @ jname ''ok'' @ ''true,'' @ jname ''lease_id'' @ result @ ''}'')))"
    by (simp add: http_LeaseGrant_def method_in_def query_def ttl_value_def ttl grant_30_def)
  ultimately show ?thesis
    using assms(2) by (simp add: httpLeaseGrant_def answer_at_def serve_def resolve_def split: go.split)
qed

lemma revoke_request:
  assumes "list_all host_char addr" "nt_server nt addr = Some sc" "0 \<le> i" "i \<le> max_int64"
  shows "httpLeaseRevoke (fetch nt) lat addr (itoa i) =
    (case nt_submit nt addr (revoke_of i) of
       Blocked \<Rightarrow> Blocked
     | Ret r \<Rightarrow> Ret (op_result True lat (Inr (submitted (\<lambda>_. ok_answer) r))))"
proof -
  have "fetch nt ''POST'' (''http://'' @ addr @ ''/lease/revoke?lease_id='' @ itoa i) =
      answer_at nt (''http://'' @ addr @ ''/lease/revoke?lease_id='' @ itoa i) addr ''POST'' (CHR ''/'' # ''lease/revoke'')
        [(''lease_id'', itoa i)]"
    by (rule fetch_one[OF assms(1) plain_paths(5) plain_words(4) itoa_plain]) simp
  moreover have "http_LeaseRevoke \<lparr>rq_Method = ''POST'', rq_Query = [(''lease_id'', itoa i)]\<rparr> =
      CallSubmit (revoke_of i) (submitted (\<lambda>_. ok_answer))"
    by (simp add: http_LeaseRevoke_def method_in_def query_def lease_id_of_def itoa_nonempty sscan_itoa assms revoke_of_def)
  ultimately show ?thesis
    using assms(2) by (simp add: httpLeaseRevoke_def answer_at_def serve_def resolve_def split: go.split)
qed

lemma ok_true: "Contains (''{'' @ jname ''ok'' @ ''true'' @ r) (jname ''ok'' @ ''true'')"
  by (simp add: Contains_def jname_def)

text \<open>
  C34: The round trip of a lease id through the load generator. When the leader's answer to the grant
  carries the id \<open>i\<close>, the generator finds exactly this id in the JSON text, and its second
  request makes the server submit the revocation of exactly the lease \<open>i\<close>; the operation counts
  as successful if and only if that submission succeeds.
\<close>

theorem lease_phase_roundtrip:
  assumes "list_all host_char leader" "nt_server nt leader = Some sc" "0 \<le> i" "i \<le> max_int64"
    and "nt_submit nt leader (zero_command\<lparr>c_Type := CmdLeaseGrant, c_TTL := 30\<rparr>) = Ret (Inr (itoa i))"
  shows "map_go (\<lambda>res. (re_OK res, re_Latency res)) (lease_phase (fetch nt) lat lat' leader) =
    map_go (\<lambda>r. (\<not> isl r, lat' + lat))
      (nt_submit nt leader (zero_command\<lparr>c_Type := CmdLeaseRevoke, c_LeaseID := i\<rparr>))"
proof -
  let ?body = "''{'' @ jname ''ok'' @ ''true,'' @ jname ''lease_id'' @ itoa i @ ''}''"
  have g: "httpLeaseGrant (fetch nt) lat leader 30 = Ret (op_result True lat (Inr (json_answer 200 ?body)))"
    using grant_request[OF assms(1,2)] assms(5) by (simp add: grant_30_def submitted_def)
  have "re_OK (op_result True lat (Inr (json_answer 200 ?body)))"
    using ok_true[of "'','' @ jname ''lease_id'' @ itoa i @ ''}''"] by (simp add: op_result_def json_answer_def)
  moreover have "re_OK (op_result True lat' (Inr (submitted (\<lambda>_. ok_answer) r))) = (\<not> isl r)" for r
    using ok_true[of "''}''"]
    by (cases r) (simp_all add: op_result_def submitted_def ok_answer_def error_answer_def json_answer_def)
  ultimately show ?thesis
    using revoke_request[OF assms(1-4), of lat'] g extract_granted[OF assms(3)]
    by (simp add: lease_phase_def op_result_def json_answer_def itoa_nonempty revoke_of_def Let_def split: go.split sum.split)
qed

theorem lease_phase_roundtrip_witness:
  "map_go (\<lambda>res. (re_OK res, re_Latency res))
     (lease_phase (fetch \<lparr>nt_server = (\<lambda>_. Some demo_service),
        nt_submit = (\<lambda>_ cmd. if cmd = revoke_of 7 then Ret (Inr ''OK'') else if cmd = grant_30 then Ret (Inr ''7'') else Blocked),
        nt_await = (\<lambda>_ _. None), nt_error = (\<lambda>_. ''refused''), nt_now = 0\<rparr>) 3 4 ''a:1'') = Ret (True, 7)"
proof -
  let ?nt = "\<lparr>nt_server = (\<lambda>_. Some demo_service),
        nt_submit = (\<lambda>_ cmd. if cmd = revoke_of 7 then Ret (Inr ''OK'') else if cmd = grant_30 then Ret (Inr ''7'') else Blocked),
        nt_await = (\<lambda>_ _. None), nt_error = (\<lambda>_. ''refused''), nt_now = 0\<rparr>"
  have "list_all host_char ''a:1''" "(7::int) \<le> max_int64" "itoa 7 = ''7''" by code_simp+
  then show ?thesis
    using lease_phase_roundtrip[of "''a:1''" ?nt demo_service 7 3 4]
    by (simp add: revoke_of_def grant_30_def zero_command_def)
qed

section \<open>Writes\<close>

lemma fetch_put:
  assumes "list_all host_char addr" "list_all plain key" "list_all plain value" "key \<noteq> []" "value \<noteq> []"
  shows "fetch nt ''POST'' (''http://'' @ addr @ ''/put?key='' @ key @ ''&value='' @ value) =
    (case nt_server nt addr of
       None \<Rightarrow> Ret (Inl (nt_error nt (''http://'' @ addr @ ''/put?key='' @ key @ ''&value='' @ value)))
     | Some sc \<Rightarrow> map_go (\<lambda>r. Inr (submitted (\<lambda>_. ok_answer) r))
         (nt_submit nt addr (zero_command\<lparr>c_Type := CmdPut, c_Key := key, c_Value := value\<rparr>)))"
proof -
  let ?raw = "''key'' @ CHR ''='' # key @ CHR ''&'' # ''value'' @ CHR ''='' # value"
  have "list_all (\<lambda>c. plain c \<or> c = CHR ''='' \<or> c = CHR ''&'') ?raw"
    using assms(2,3) plain_words by (auto simp: list_all_iff)
  then have "fetch nt ''POST'' (''http://'' @ addr @ ''/put?key='' @ key @ ''&value='' @ value) =
      answer_at nt (''http://'' @ addr @ ''/put?key='' @ key @ ''&value='' @ value) addr ''POST'' (CHR ''/'' # ''put'')
        (parse_query ?raw)"
    by (intro fetch_raw assms(1) plain_paths) simp_all
  also have "parse_query ?raw = [(''key'', key), (''value'', value)]"
    by (intro parse_query_two assms plain_words)
  finally have "fetch nt ''POST'' (''http://'' @ addr @ ''/put?key='' @ key @ ''&value='' @ value) =
      answer_at nt (''http://'' @ addr @ ''/put?key='' @ key @ ''&value='' @ value) addr ''POST'' (CHR ''/'' # ''put'')
        [(''key'', key), (''value'', value)]" .
  moreover have "zero_command\<lparr>c_Type := CmdPut, c_Key := key, c_Value := value, c_LeaseID := 0\<rparr> =
      zero_command\<lparr>c_Type := CmdPut, c_Key := key, c_Value := value\<rparr>" by (simp add: zero_command_def)
  ultimately show ?thesis
    using assms(4,5)
    by (simp add: answer_at_def serve_def resolve_def http_Put_def method_in_def query_def split: option.split go.split)
qed

text \<open>
  C32: A write with the HTTP client finds the leader. If every address before the leader's either has
  no server or answers that it is not the leader, and the leader's submission succeeds, then \<open>httpPut\<close>
  returns no error, has handed the leader exactly the command that sets the key to the value, and
  has reported the followers it met.
\<close>

theorem httpPut_finds_leader:
  assumes "list_all plain key" "list_all plain value" "key \<noteq> []" "value \<noteq> []"
    and cmd: "cmd = zero_command\<lparr>c_Type := CmdPut, c_Key := key, c_Value := value\<rparr>"
    and before: "\<forall>a \<in> set addrs. list_all host_char a \<and>
      (nt_server nt a \<noteq> None \<longrightarrow> nt_submit nt a cmd = Ret (Inl ''not leader''))"
    and leader: "list_all host_char leader" "nt_server nt leader \<noteq> None" "nt_submit nt leader cmd = Ret (Inr result)"
  shows "httpPut (fetch nt) (addrs @ leader # rest) key value =
    Ret (map (\<lambda>a. ''Not leader: '' @ a) (filter (\<lambda>a. nt_server nt a \<noteq> None) addrs) @ [''Write success on '' @ leader], None)"
  using before
proof (induction addrs)
  case Nil
  have "fetch nt ''POST'' (''http://'' @ leader @ ''/put?key='' @ key @ ''&value='' @ value) = Ret (Inr ok_answer)"
    using fetch_put[OF leader(1) assms(1-4), of nt] leader(2,3) cmd
    by (auto simp: submitted_def simp del: append.simps append_assoc)
  then show ?case by (simp add: ok_answer_def json_answer_def)
next
  case (Cons a addrs)
  have body: "Contains (rs_Body (error_answer 500 ''not leader'')) ''not leader''"
    by (simp add: Contains_def error_answer_def json_answer_def jname_def quoted_def)
  have code: "rs_Code (error_answer 500 ''not leader'') \<noteq> 200" by (simp add: error_answer_def json_answer_def)
  show ?case
  proof (cases "nt_server nt a")
    case None
    then have "\<exists>e. fetch nt ''POST'' (''http://'' @ a @ ''/put?key='' @ key @ ''&value='' @ value) = Ret (Inl e)"
      using fetch_put[of a key "value" nt] assms(1-4) Cons.prems by (simp del: append.simps append_assoc)
    then show ?thesis using Cons None by auto
  next
    case (Some sc)
    then have "fetch nt ''POST'' (''http://'' @ a @ ''/put?key='' @ key @ ''&value='' @ value) =
        Ret (Inr (error_answer 500 ''not leader''))"
      using fetch_put[of a key "value" nt] assms(1-4) Cons.prems cmd by (simp add: submitted_def del: append.simps append_assoc)
    then show ?thesis using Cons Some body code by simp
  qed
qed

theorem httpPut_finds_leader_witness:
  "httpPut (fetch \<lparr>nt_server = (\<lambda>a. if a = ''a:1'' then None else Some demo_service),
      nt_submit = (\<lambda>a _. if a = ''c:3'' then Ret (Inr []) else Ret (Inl ''not leader'')),
      nt_await = (\<lambda>_ _. None), nt_error = (\<lambda>_. ''refused''), nt_now = 0\<rparr>)
     [''a:1'', ''b:2'', ''c:3'', ''d:4''] ''k'' ''v'' = Ret ([''Not leader: b:2'', ''Write success on c:3''], None)"
proof -
  let ?nt = "\<lparr>nt_server = (\<lambda>a. if a = ''a:1'' then None else Some demo_service),
      nt_submit = (\<lambda>a _. if a = ''c:3'' then Ret (Inr []) else Ret (Inl ''not leader'')),
      nt_await = (\<lambda>_ _. None), nt_error = (\<lambda>_. ''refused''), nt_now = 0\<rparr>"
  have "list_all plain ''k''" "list_all plain ''v''" "list_all host_char ''a:1''" "list_all host_char ''b:2''"
    "list_all host_char ''c:3''" by code_simp+
  then show ?thesis
    using httpPut_finds_leader[of "''k''" "''v''" _ "[''a:1'', ''b:2'']" ?nt "''c:3''" "[]" "[''d:4'']"] by simp
qed

section \<open>RPC\<close>

lemma client_Put_outcome:
  "client_Put submit key val =
     map_go (\<lambda>r. case r of Inl err \<Rightarrow> Some err | Inr _ \<Rightarrow> None)
       (submit (zero_command\<lparr>c_Type := CmdPut, c_Key := key, c_Value := val\<rparr>))"
proof -
  have "zero_command\<lparr>c_Type := CmdPut, c_Key := key, c_Value := val, c_LeaseID := 0\<rparr> =
      zero_command\<lparr>c_Type := CmdPut, c_Key := key, c_Value := val\<rparr>" by (simp add: zero_command_def)
  then show ?thesis
    by (auto simp: client_Put_def rpc_call_def rpc_Put_def rpc_ok_def go.map_comp o_def
        intro!: go.map_cong split: sum.split)
qed



text \<open>
  The load generator's loop over the number of requests counts a round in which the limiter is
  full: it sends fewer requests than it was asked for whenever that happens.
\<close>

lemma launch_count: "launch i slot n = card {j. i \<le> j \<and> j < i + n \<and> slot j}"
proof (induction n arbitrary: i)
  case 0
  then show ?case by (simp add: card_eq_0_iff)
next
  case (Suc n)
  have "{j. i \<le> j \<and> j < i + Suc n \<and> slot j} =
      (if slot i then {i} else {}) \<union> {j. Suc i \<le> j \<and> j < Suc i + n \<and> slot j}"
    by (auto simp: Suc_le_eq order.strict_iff_order)
  moreover have "finite {j. Suc i \<le> j \<and> j < Suc i + n \<and> slot j}"
    by (rule finite_subset[of _ "{..<Suc i + n}"]) auto
  ultimately show ?case using Suc by simp
qed

lemma launch_total: "launch 0 slot n = n \<longleftrightarrow> (\<forall>i < n. slot i)"
proof
  assume "launch 0 slot n = n"
  then have c: "card {j. j < n \<and> slot j} = card {..<n}" by (simp add: launch_count)
  have "{j. j < n \<and> slot j} = {..<n}"
    by (rule card_subset_eq) (use c in auto)
  then show "\<forall>i < n. slot i" by blast
next
  assume "\<forall>i < n. slot i"
  then have "{j. j < n \<and> slot j} = {..<n}" by blast
  then show "launch 0 slot n = n" by (simp add: launch_count)
qed

lemma GetNodeConfig_ID: "GetNodeConfig nodes i = Some node \<Longrightarrow> node \<in> set nodes \<and> nc_ID node = i"
  by (auto simp: GetNodeConfig_def find_Some_iff)

end
