(* ===== verification/Raft_Cluster.thy ===== *)
theory Raft_Cluster
  imports Raft_Node
begin

text \<open>
  A cluster of peers that exchange votes. Each peer is a state of \<open>Raft_Node\<close>; a vote request
  is a goroutine of \<open>StartElection\<close>, which waits for its answer and then runs
  \<open>election_reply\<close>. Requests and answers may be delayed, reordered and lost; every other
  event of a peer may happen at any time. Two history variables record the votes cast and the
  elections won. A peer keeps running: a restart begins with an empty persister, so that it
  may vote again in a term.
\<close>

section \<open>State and steps\<close>

datatype call_phase = Asked | Answered vote_reply

record vote_call =
  vc_from :: nat
  vc_to :: nat
  vc_args :: vote_args
  vc_term :: int
  vc_phase :: call_phase

record 'c cluster =
  cl_nodes :: "'c raft list"
  cl_calls :: "vote_call list"
  cl_votes :: "(nat \<times> int \<times> int) list"   \<comment> \<open>voter, term, candidate\<close>
  cl_won :: "(nat \<times> int) list"

datatype 'c cluster_event =
    Timer nat clock
  | Deliver nat clock
  | Return nat clock
  | Drop nat
  | Other nat "'c node_event"

definition boot :: "('c \<Rightarrow> bool) \<Rightarrow> clock \<Rightarrow> string list \<Rightarrow> (nat \<Rightarrow> int) \<Rightarrow> 'c cluster" where
  \<comment> \<open>peer \<open>k\<close> of the list is started with the number \<open>num k\<close>\<close>
  "boot registered clk peers num =
     \<lparr>cl_nodes = map (\<lambda>k. the (Make registered clk peers (num k) MakePersister)) [0..<length peers],
      cl_calls = [], cl_votes = [], cl_won = []\<rparr>"

definition new_calls :: "nat \<Rightarrow> spawn list \<Rightarrow> vote_call list" where
  "new_calls k go =
     concat (map (\<lambda>g. case g of
        GoRequestVote i addr args tm \<Rightarrow>
          [\<lparr>vc_from = k, vc_to = nat i, vc_args = args, vc_term = tm, vc_phase = Asked\<rparr>]
      | _ \<Rightarrow> []) go)"

definition remove_nth :: "nat \<Rightarrow> 'a list \<Rightarrow> 'a list" where
  "remove_nth j xs = take j xs @ drop (Suc j) xs"

definition is_other :: "'c node_event \<Rightarrow> bool" where
  "is_other ev = (case ev of Tick _ \<Rightarrow> False | VoteRequest _ _ \<Rightarrow> False | VoteReply _ _ _ _ \<Rightarrow> False | _ \<Rightarrow> True)"

fun fire :: "'c cluster_event \<Rightarrow> 'c cluster \<Rightarrow> 'c cluster option" where
  "fire (Timer k clk) s =
     (if k < length (cl_nodes s)
      then (let rf = cl_nodes s ! k; (rf', go) = ticker clk rf
            in Some (s\<lparr>cl_nodes := (cl_nodes s)[k := rf'],
                       cl_calls := cl_calls s @ new_calls k go,
                       cl_votes := (if rf_CurrentTerm rf' > rf_CurrentTerm rf
                                    then (k, rf_CurrentTerm rf', rf_votedFor rf') # cl_votes s
                                    else cl_votes s)\<rparr>))
      else None)"
| "fire (Deliver j clk) s =
     (if j < length (cl_calls s) \<and> vc_phase (cl_calls s ! j) = Asked \<and> vc_to (cl_calls s ! j) < length (cl_nodes s)
      then (let call = cl_calls s ! j; i = vc_to call;
                (rf', reply) = RequestVote clk (vc_args call) (cl_nodes s ! i)
            in Some (s\<lparr>cl_nodes := (cl_nodes s)[i := rf'],
                       cl_calls := (cl_calls s)[j := call\<lparr>vc_phase := Answered reply\<rparr>],
                       cl_votes := (if vr_VoteGranted reply
                                    then (i, va_Term (vc_args call), va_CandidateId (vc_args call)) # cl_votes s
                                    else cl_votes s)\<rparr>))
      else None)"
| "fire (Return j clk) s =
     (if j < length (cl_calls s) \<and> vc_from (cl_calls s ! j) < length (cl_nodes s)
      then (let call = cl_calls s ! j; k = vc_from call; rf = cl_nodes s ! k
            in case vc_phase call of
                 Asked \<Rightarrow> None
               | Answered reply \<Rightarrow>
                   (let rf' = fst (election_reply clk True reply (vc_term call) (int (length (rf_peers rf))) rf)
                    in Some (s\<lparr>cl_nodes := (cl_nodes s)[k := rf'],
                               cl_calls := remove_nth j (cl_calls s),
                               cl_won := (if rf_State rf \<noteq> Leader \<and> rf_State rf' = Leader
                                          then (k, rf_CurrentTerm rf') # cl_won s else cl_won s)\<rparr>)))
      else None)"
| "fire (Drop j) s = Some (s\<lparr>cl_calls := remove_nth j (cl_calls s)\<rparr>)"
| "fire (Other k ev) s =
     (if k < length (cl_nodes s) \<and> is_other ev
      then do { rf' \<leftarrow> node_step ev (cl_nodes s ! k); Some (s\<lparr>cl_nodes := (cl_nodes s)[k := rf']\<rparr>) }
      else None)"

inductive cluster_reach :: "'c cluster \<Rightarrow> 'c cluster \<Rightarrow> bool" for s0 where
  start: "cluster_reach s0 s0"
| step: "cluster_reach s0 s \<Longrightarrow> fire ev s = Some s' \<Longrightarrow> cluster_reach s0 s'"

section \<open>Quorums\<close>

text \<open>
  What an election needs of its quorums, as an interface: any two of them share a voter.
\<close>

locale quorum_system =
  fixes quorum :: "nat set \<Rightarrow> bool"
  assumes overlap: "quorum A \<Longrightarrow> quorum B \<Longrightarrow> A \<inter> B \<noteq> {}"
begin

lemma unique_choice:
  assumes "quorum {i. vote i a}" "quorum {i. vote i b}" "\<And>i x y. vote i x \<Longrightarrow> vote i y \<Longrightarrow> x = y"
  shows "a = b"
  using overlap[OF assms(1,2)] assms(3) by blast

end

definition majority :: "nat \<Rightarrow> nat set \<Rightarrow> bool" where
  "majority n A \<longleftrightarrow> A \<subseteq> {..<n} \<and> n div 2 < card A"

lemma majority_overlap:
  assumes "majority n A" "majority n B"
  shows "A \<inter> B \<noteq> {}"
proof
  assume "A \<inter> B = {}"
  then have "card (A \<union> B) = card A + card B"
    using assms by (meson card_Un_disjoint finite_lessThan finite_subset majority_def)
  moreover have "card (A \<union> B) \<le> n"
    using assms card_mono[of "{..<n}" "A \<union> B"] by (simp add: majority_def)
  moreover have "n div 2 < card A" "n div 2 < card B" using assms by (simp_all add: majority_def)
  ultimately show False by linarith
qed

interpretation mq: quorum_system "majority n" for n :: nat
  by unfold_locales (rule majority_overlap)

section \<open>The invariant of an election\<close>

definition call_key :: "vote_call \<Rightarrow> nat \<times> nat \<times> int" where
  "call_key call = (vc_from call, vc_to call, vc_term call)"

definition self_numbered :: "'c cluster \<Rightarrow> bool" where
  \<comment> \<open>the numbering that \<open>Make\<close> asks for: \<open>peers[me]\<close> is the peer itself\<close>
  "self_numbered s \<longleftrightarrow>
     (\<forall>k < length (cl_nodes s). rf_me (cl_nodes s ! k) = int k \<and>
        length (rf_peers (cl_nodes s ! k)) = length (cl_nodes s))"

definition votes_ok :: "'c cluster \<Rightarrow> bool" where
  "votes_ok s \<longleftrightarrow>
     (\<forall>(i, t, c) \<in> set (cl_votes s). i < length (cl_nodes s) \<and> 0 \<le> c \<and>
        (t < rf_CurrentTerm (cl_nodes s ! i) \<or>
         t = rf_CurrentTerm (cl_nodes s ! i) \<and> rf_votedFor (cl_nodes s ! i) = c)) \<and>
     (\<forall>i t c c'. (i, t, c) \<in> set (cl_votes s) \<longrightarrow> (i, t, c') \<in> set (cl_votes s) \<longrightarrow> c = c')"

definition call_ok :: "'c cluster \<Rightarrow> vote_call \<Rightarrow> bool" where
  "call_ok s call \<longleftrightarrow>
     vc_from call < length (cl_nodes s) \<and> vc_to call < length (cl_nodes s) \<and> vc_from call \<noteq> vc_to call \<and>
     va_Term (vc_args call) = vc_term call \<and> va_CandidateId (vc_args call) = int (vc_from call) \<and>
     (vc_from call, vc_term call, int (vc_from call)) \<in> set (cl_votes s) \<and>
     (case vc_phase call of
        Asked \<Rightarrow> True
      | Answered r \<Rightarrow> vr_VoteGranted r \<longrightarrow>
          vr_Term r = vc_term call \<and> (vc_to call, vc_term call, int (vc_from call)) \<in> set (cl_votes s))"

definition calls_ok :: "'c cluster \<Rightarrow> bool" where
  "calls_ok s \<longleftrightarrow> distinct (map call_key (cl_calls s)) \<and> (\<forall>call \<in> set (cl_calls s). call_ok s call)"

definition counted :: "'c cluster \<Rightarrow> nat \<Rightarrow> int \<Rightarrow> nat set" where
  \<comment> \<open>the other peers whose vote for \<open>k\<close> has been taken into account\<close>
  "counted s k t =
     {i. i < length (cl_nodes s) \<and> i \<noteq> k \<and> (i, t, int k) \<in> set (cl_votes s) \<and> (k, i, t) \<notin> call_key ` set (cl_calls s)}"

definition tally_ok :: "'c cluster \<Rightarrow> bool" where
  "tally_ok s \<longleftrightarrow>
     (\<forall>k < length (cl_nodes s). let rf = cl_nodes s ! k; t = rf_CurrentTerm rf
        in rf_State rf = Candidate \<and> (k, t, int k) \<in> set (cl_votes s) \<longrightarrow>
           rf_electionVotes rf \<le> 1 + int (card (counted s k t)))"

definition won_ok :: "'c cluster \<Rightarrow> bool" where
  "won_ok s \<longleftrightarrow>
     (\<forall>(k, t) \<in> set (cl_won s). k < length (cl_nodes s) \<and>
        majority (length (cl_nodes s)) {i. (i, t, int k) \<in> set (cl_votes s)})"

definition election_ok :: "'c cluster \<Rightarrow> bool" where
  "election_ok s \<longleftrightarrow> self_numbered s \<and> votes_ok s \<and> calls_ok s \<and> tally_ok s \<and> won_ok s"

lemma counted_finite [simp]: "finite (counted s k t)"
  unfolding counted_def by (rule finite_subset[of _ "{..<length (cl_nodes s)}"]) auto

lemma election_ok_boot: "election_ok (boot registered clk peers int)"
proof -
  have "rf_me (the (Make registered clk peers (int k) MakePersister)) = int k"
    "rf_peers (the (Make registered clk peers (int k) MakePersister)) = peers" for k
    by (simp_all add: Make_def readPersist_def MakePersister_def)
  then show ?thesis
    by (simp add: election_ok_def boot_def self_numbered_def votes_ok_def calls_ok_def tally_ok_def won_ok_def)
qed

subsection \<open>A peer changes and nobody votes\<close>

lemma counted_nodes [simp]:
  "length ns = length (cl_nodes s) \<Longrightarrow> counted (s\<lparr>cl_nodes := ns\<rparr>) k t = counted s k t"
  by (simp add: counted_def)

lemma call_ok_nodes [simp]:
  "length ns = length (cl_nodes s) \<Longrightarrow> call_ok (s\<lparr>cl_nodes := ns\<rparr>) call = call_ok s call"
  by (cases "vc_phase call") (simp_all add: call_ok_def)

lemma election_ok_move:
  assumes ok: "election_ok s" and k: "k < length (cl_nodes s)"
    and kept: "vote_kept (cl_nodes s ! k) rf'"
    and tally: "rf_State rf' = Candidate \<Longrightarrow> (k, rf_CurrentTerm rf', int k) \<in> set (cl_votes s) \<Longrightarrow>
       rf_electionVotes rf' \<le> 1 + int (card (counted s k (rf_CurrentTerm rf')))"
  shows "election_ok (s\<lparr>cl_nodes := (cl_nodes s)[k := rf']\<rparr>)"
proof -
  let ?s = "s\<lparr>cl_nodes := (cl_nodes s)[k := rf']\<rparr>"
  have o: "self_numbered s" "votes_ok s" "calls_ok s" "tally_ok s" "won_ok s" using ok by (simp_all add: election_ok_def)
  have "self_numbered ?s" using o(1) k kept by (simp add: self_numbered_def vote_kept_def nth_list_update)
  moreover have "votes_ok ?s"
  proof -
    have "t < rf_CurrentTerm ((cl_nodes s)[k := rf'] ! i) \<or>
          t = rf_CurrentTerm ((cl_nodes s)[k := rf'] ! i) \<and> rf_votedFor ((cl_nodes s)[k := rf'] ! i) = c"
      if v: "(i, t, c) \<in> set (cl_votes s)" for i t c
    proof -
      have old: "i < length (cl_nodes s)" "0 \<le> c"
        "t < rf_CurrentTerm (cl_nodes s ! i) \<or>
         t = rf_CurrentTerm (cl_nodes s ! i) \<and> rf_votedFor (cl_nodes s ! i) = c"
        using o(2) v by (auto simp: votes_ok_def)
      show ?thesis
      proof (cases "i = k")
        case True
        then show ?thesis using old kept by (auto simp: vote_kept_def)
      next
        case False
        then show ?thesis using old by simp
      qed
    qed
    then show ?thesis using o(2) by (auto simp: votes_ok_def)
  qed
  moreover have "calls_ok ?s" using o(3) by (simp add: calls_ok_def)
  moreover have "tally_ok ?s"
    unfolding tally_ok_def
  proof (intro allI impI)
    fix j assume j: "j < length (cl_nodes ?s)"
    show "let rf = cl_nodes ?s ! j; t = rf_CurrentTerm rf
        in rf_State rf = Candidate \<and> (j, t, int j) \<in> set (cl_votes ?s) \<longrightarrow>
           rf_electionVotes rf \<le> 1 + int (card (counted ?s j t))"
    proof (cases "j = k")
      case True
      then show ?thesis using tally j by (simp add: Let_def)
    next
      case False
      then show ?thesis using o(4) j by (simp add: tally_ok_def Let_def)
    qed
  qed
  moreover have "won_ok ?s" using o(5) by (simp add: won_ok_def)
  ultimately show ?thesis by (simp add: election_ok_def)
qed

lemma vote_above_term:
  assumes "election_ok s" "k < length (cl_nodes s)" "rf_CurrentTerm (cl_nodes s ! k) < t"
  shows "(k, t, c) \<notin> set (cl_votes s)"
  using assms by (auto simp: election_ok_def votes_ok_def)

lemma tallyD:
  assumes "election_ok s" "k < length (cl_nodes s)" "rf_State (cl_nodes s ! k) = Candidate"
    and "(k, rf_CurrentTerm (cl_nodes s ! k), int k) \<in> set (cl_votes s)"
  shows "rf_electionVotes (cl_nodes s ! k) \<le> 1 + int (card (counted s k (rf_CurrentTerm (cl_nodes s ! k))))"
  using assms by (auto simp: election_ok_def tally_ok_def Let_def)

lemma election_ok_quiet:
  assumes "election_ok s" "k < length (cl_nodes s)" "vote_same (cl_nodes s ! k) rf'"
  shows "election_ok (s\<lparr>cl_nodes := (cl_nodes s)[k := rf']\<rparr>)"
proof (rule election_ok_move[OF assms(1,2) vote_same_kept[OF assms(3)]])
  assume "rf_State rf' = Candidate" "(k, rf_CurrentTerm rf', int k) \<in> set (cl_votes s)"
  moreover have "rf_State rf' = Candidate \<Longrightarrow> rf_CurrentTerm rf' = rf_CurrentTerm (cl_nodes s ! k) \<and>
      rf_State (cl_nodes s ! k) = Candidate \<and> rf_electionVotes rf' = rf_electionVotes (cl_nodes s ! k)"
    using assms(3) by (auto simp: vote_same_def)
  ultimately show "rf_electionVotes rf' \<le> 1 + int (card (counted s k (rf_CurrentTerm rf')))"
    using tallyD[OF assms(1,2)] by auto
qed

lemma tally_ok_grow:
  assumes "tally_ok s" "cl_nodes s' = cl_nodes s"
    and "\<And>k t. k < length (cl_nodes s) \<Longrightarrow> rf_electionVotes (cl_nodes s ! k) \<le> 1 \<or>
           ((k, t, int k) \<in> set (cl_votes s') \<longrightarrow> (k, t, int k) \<in> set (cl_votes s)) \<and> counted s k t \<subseteq> counted s' k t"
  shows "tally_ok s'"
  unfolding tally_ok_def Let_def
proof (intro allI impI)
  fix k
  let ?rf = "cl_nodes s' ! k"
  let ?t = "rf_CurrentTerm ?rf"
  assume k: "k < length (cl_nodes s')" and c: "rf_State ?rf = Candidate \<and> (k, ?t, int k) \<in> set (cl_votes s')"
  show "rf_electionVotes ?rf \<le> 1 + int (card (counted s' k ?t))"
  proof (cases "rf_electionVotes ?rf \<le> 1")
    case False
    then have *: "(k, ?t, int k) \<in> set (cl_votes s)" "counted s k ?t \<subseteq> counted s' k ?t"
      using assms(2) assms(3)[of k ?t] k c by auto
    have "rf_electionVotes ?rf \<le> 1 + int (card (counted s k ?t))"
      using assms(1,2) k c *(1) by (simp add: tally_ok_def Let_def)
    moreover have "card (counted s k ?t) \<le> card (counted s' k ?t)" using *(2) by (rule card_mono[rotated]) simp
    ultimately show ?thesis by linarith
  qed simp
qed

lemma election_ok_drop:
  assumes "election_ok s"
  shows "election_ok (s\<lparr>cl_calls := remove_nth j (cl_calls s)\<rparr>)"
proof -
  let ?s = "s\<lparr>cl_calls := remove_nth j (cl_calls s)\<rparr>"
  have sub: "set (remove_nth j (cl_calls s)) \<subseteq> set (cl_calls s)"
    by (auto simp: remove_nth_def dest: in_set_takeD in_set_dropD)
  have dist: "distinct (map call_key (cl_calls s)) \<Longrightarrow> distinct (map call_key (remove_nth j (cl_calls s)))"
  proof -
    assume d: "distinct (map call_key (cl_calls s))"
    have "set (take j (map call_key (cl_calls s))) \<inter> set (drop (Suc j) (map call_key (cl_calls s))) = {}"
      using d by (rule set_take_disj_set_drop_if_distinct) simp
    then show ?thesis using d by (simp add: remove_nth_def take_map[symmetric] drop_map[symmetric] del: set_map)
  qed
  have call: "call_ok ?s c = call_ok s c" for c by (cases "vc_phase c") (simp_all add: call_ok_def)
  have "tally_ok ?s"
    by (rule tally_ok_grow[of s]) (use assms sub in \<open>auto simp: election_ok_def counted_def\<close>)
  then show ?thesis
    using assms sub dist by (auto simp: election_ok_def self_numbered_def votes_ok_def calls_ok_def won_ok_def call)
qed

subsection \<open>A peer votes\<close>

lemma majority_mono: "majority n A \<Longrightarrow> A \<subseteq> B \<Longrightarrow> B \<subseteq> {..<n} \<Longrightarrow> majority n B"
  using card_mono[of B A] finite_subset[of B "{..<n}"] by (auto simp: majority_def)

lemma votes_bound: "votes_ok s \<Longrightarrow> {i. (i, t, c) \<in> set (cl_votes s)} \<subseteq> {..<length (cl_nodes s)}"
  by (auto simp: votes_ok_def)

lemma call_ok_mono:
  assumes "call_ok s call" "length (cl_nodes s') = length (cl_nodes s)" "set (cl_votes s) \<subseteq> set (cl_votes s')"
  shows "call_ok s' call"
  using assms by (cases "vc_phase call") (auto simp: call_ok_def)

lemma won_ok_mono:
  assumes "won_ok s" "votes_ok s'" "cl_won s' = cl_won s" "length (cl_nodes s') = length (cl_nodes s)"
    and "set (cl_votes s) \<subseteq> set (cl_votes s')"
  shows "won_ok s'"
proof -
  have "majority (length (cl_nodes s')) {i. (i, t, c) \<in> set (cl_votes s')}"
    if "majority (length (cl_nodes s)) {i. (i, t, c) \<in> set (cl_votes s)}" for t c
    by (rule majority_mono[of _ "{i. (i, t, c) \<in> set (cl_votes s)}"])
       (use that votes_bound[OF assms(2)] assms(4,5) in auto)
  then show ?thesis using assms(1,3,4) by (auto simp: won_ok_def)
qed

lemma votes_ok_add:
  assumes "votes_ok s" "i < length (cl_nodes s)" "0 \<le> c"
    and "rf_CurrentTerm (cl_nodes s ! i) = t" "rf_votedFor (cl_nodes s ! i) = c"
  shows "votes_ok (s\<lparr>cl_votes := (i, t, c) # cl_votes s\<rparr>)"
proof -
  have "c' = c" if "(i, t, c') \<in> set (cl_votes s)" for c' using assms that by (auto simp: votes_ok_def)
  then show ?thesis using assms by (auto simp: votes_ok_def)
qed

lemma answered_keys: "map call_key (xs[j := (xs ! j)\<lparr>vc_phase := p\<rparr>]) = map call_key xs"
proof -
  have "call_key ((xs ! j)\<lparr>vc_phase := p\<rparr>) = call_key (xs ! j)" by (simp add: call_key_def)
  then show ?thesis by (cases "j < length xs") (simp_all add: map_update list_update_same_conv list_update_beyond)
qed

lemma election_ok_vote:
  \<comment> \<open>peer \<open>i\<close> answers a call with its vote\<close>
  assumes ok: "election_ok s" and j: "j < length (cl_calls s)"
    and call: "call = cl_calls s ! j" "vc_to call = i" "vc_from call = c" "vc_term call = t"
    and vote: "rf_CurrentTerm (cl_nodes s ! i) = t" "rf_votedFor (cl_nodes s ! i) = int c"
    and reply: "vr_Term reply = t"
  shows "election_ok (s\<lparr>cl_calls := (cl_calls s)[j := call\<lparr>vc_phase := Answered reply\<rparr>],
                        cl_votes := (i, t, int c) # cl_votes s\<rparr>)" (is "election_ok ?s")
proof -
  have o: "self_numbered s" "votes_ok s" "calls_ok s" "tally_ok s" "won_ok s" using ok by (simp_all add: election_ok_def)
  have cok: "call_ok s call" using o(3) j call(1) by (simp add: calls_ok_def)
  then have i: "i < length (cl_nodes s)" "i \<noteq> c" using call by (auto simp: call_ok_def)
  have votes: "votes_ok ?s" using votes_ok_add[OF o(2) i(1) _ vote] by (simp add: votes_ok_def)
  have keys: "map call_key (cl_calls ?s) = map call_key (cl_calls s)"
    by (simp add: answered_keys call(1))
  have keyset: "call_key ` set (cl_calls ?s) = call_key ` set (cl_calls s)"
    using arg_cong[OF keys, of set] by simp
  have "self_numbered ?s" using o(1) by (simp add: self_numbered_def)
  moreover have "calls_ok ?s"
  proof -
    have "call_ok ?s (call\<lparr>vc_phase := Answered reply\<rparr>)"
      using cok call reply by (auto simp: call_ok_def)
    moreover have "call_ok ?s x" if "x \<in> set (cl_calls s)" for x
      using that o(3) by (auto simp: calls_ok_def intro: call_ok_mono)
    ultimately show ?thesis
      using o(3) keys set_update_subset_insert[of "cl_calls s" j] by (fastforce simp: calls_ok_def)
  qed
  moreover have "tally_ok ?s"
    by (rule tally_ok_grow[OF o(4)]) (use i keyset in \<open>auto simp: counted_def\<close>)
  moreover have "won_ok ?s" by (rule won_ok_mono[OF o(5) votes]) auto
  ultimately show ?thesis using votes by (simp add: election_ok_def)
qed

lemma election_ok_refuse:
  \<comment> \<open>peer \<open>i\<close> answers a call without its vote\<close>
  assumes ok: "election_ok s" and j: "j < length (cl_calls s)" and reply: "\<not> vr_VoteGranted reply"
  shows "election_ok (s\<lparr>cl_calls := (cl_calls s)[j := (cl_calls s ! j)\<lparr>vc_phase := Answered reply\<rparr>]\<rparr>)"
    (is "election_ok ?s")
proof -
  have o: "self_numbered s" "votes_ok s" "calls_ok s" "tally_ok s" "won_ok s" using ok by (simp_all add: election_ok_def)
  have cok: "call_ok s (cl_calls s ! j)" using o(3) j by (simp add: calls_ok_def)
  have keys: "map call_key (cl_calls ?s) = map call_key (cl_calls s)"
    by (simp add: answered_keys)
  have keyset: "call_key ` set (cl_calls ?s) = call_key ` set (cl_calls s)"
    using arg_cong[OF keys, of set] by simp
  have "calls_ok ?s"
  proof -
    have "call_ok ?s ((cl_calls s ! j)\<lparr>vc_phase := Answered reply\<rparr>)"
      using cok reply by (auto simp: call_ok_def)
    moreover have "call_ok ?s x" if "x \<in> set (cl_calls s)" for x
      using that o(3) by (auto simp: calls_ok_def intro: call_ok_mono)
    ultimately show ?thesis
      using o(3) keys set_update_subset_insert[of "cl_calls s" j] by (fastforce simp: calls_ok_def)
  qed
  moreover have "tally_ok ?s" by (rule tally_ok_grow[OF o(4)]) (use keyset in \<open>auto simp: counted_def\<close>)
  ultimately show ?thesis using o by (simp add: election_ok_def self_numbered_def votes_ok_def won_ok_def)
qed

lemma RequestVote_granted:
  assumes "vr_VoteGranted (snd (RequestVote clk args rf))"
  shows "rf_CurrentTerm (fst (RequestVote clk args rf)) = va_Term args \<and>
    rf_votedFor (fst (RequestVote clk args rf)) = va_CandidateId args \<and>
    vr_Term (snd (RequestVote clk args rf)) = va_Term args"
  using assms by (auto simp: RequestVote_def timer_defs Let_def split: if_splits)

lemma RequestVote_state:
  "rf_State (fst (RequestVote clk args rf)) = rf_State rf"
  "rf_electionVotes (fst (RequestVote clk args rf)) = rf_electionVotes rf"
  by (auto simp: RequestVote_def timer_defs Let_def)

lemma election_ok_Deliver:
  assumes ok: "election_ok s" and f: "fire (Deliver j clk) s = Some s'"
  shows "election_ok s'"
proof -
  define call where "call = cl_calls s ! j"
  define i where "i = vc_to call"
  define r where "r = RequestVote clk (vc_args call) (cl_nodes s ! i)"
  let ?s1 = "s\<lparr>cl_nodes := (cl_nodes s)[i := fst r]\<rparr>"
  have j: "j < length (cl_calls s)" and i: "i < length (cl_nodes s)"
    and s': "s' = ?s1\<lparr>cl_calls := (cl_calls s)[j := call\<lparr>vc_phase := Answered (snd r)\<rparr>],
       cl_votes := (if vr_VoteGranted (snd r) then (i, va_Term (vc_args call), va_CandidateId (vc_args call)) # cl_votes s
                    else cl_votes s)\<rparr>"
    using f by (auto simp: call_def i_def r_def Let_def split: if_splits prod.splits)
  have kept: "vote_kept (cl_nodes s ! i) (fst r)" unfolding r_def by (rule vote_kept_RequestVote)
  have ok1: "election_ok ?s1"
  proof (rule election_ok_move[OF ok i kept])
    assume a: "rf_State (fst r) = Candidate" "(i, rf_CurrentTerm (fst r), int i) \<in> set (cl_votes s)"
    then have "rf_CurrentTerm (fst r) = rf_CurrentTerm (cl_nodes s ! i)"
      using vote_above_term[OF ok i] kept by (auto simp: vote_kept_def)
    then show "rf_electionVotes (fst r) \<le> 1 + int (card (counted s i (rf_CurrentTerm (fst r))))"
      using tallyD[OF ok i] a RequestVote_state[of clk "vc_args call" "cl_nodes s ! i"] by (simp add: r_def)
  qed
  have cok: "call_ok s call" using ok j by (simp add: election_ok_def calls_ok_def call_def)
  have args: "va_Term (vc_args call) = vc_term call" "va_CandidateId (vc_args call) = int (vc_from call)"
    using cok by (simp_all add: call_ok_def)
  show ?thesis
  proof (cases "vr_VoteGranted (snd r)")
    case True
    note g = RequestVote_granted[OF True[unfolded r_def], folded r_def]
    have "election_ok (?s1\<lparr>cl_calls := (cl_calls ?s1)[j := call\<lparr>vc_phase := Answered (snd r)\<rparr>],
                           cl_votes := (i, vc_term call, int (vc_from call)) # cl_votes ?s1\<rparr>)"
      by (rule election_ok_vote[OF ok1]) (use j i g args in \<open>auto simp: call_def i_def\<close>)
    then show ?thesis using True by (simp add: s' args)
  next
    case False
    have "election_ok (?s1\<lparr>cl_calls := (cl_calls ?s1)[j := (cl_calls ?s1 ! j)\<lparr>vc_phase := Answered (snd r)\<rparr>]\<rparr>)"
      by (rule election_ok_refuse[OF ok1]) (use j False in simp_all)
    then show ?thesis using False by (simp add: s' call_def)
  qed
qed

subsection \<open>An election starts\<close>

lemma new_calls_StartElection:
  assumes "rf_me rf = int k"
  shows "new_calls k (snd (StartElection clk rf)) =
    map (\<lambda>(i, addr). \<lparr>vc_from = k, vc_to = i,
           vc_args = \<lparr>va_Term = rf_CurrentTerm rf + 1, va_CandidateId = int k,
                      va_LastLogIndex = l_LastLogIndex (rf_log rf), va_LastLogTerm = getLastEntryTerm rf\<rparr>,
           vc_term = rf_CurrentTerm rf + 1, vc_phase = Asked\<rparr>)
      (filter (\<lambda>(i, addr). i \<noteq> k) (enumerate 0 (rf_peers rf)))"
proof -
  have filt: "filter (\<lambda>(i, addr). k \<noteq> i) xs = filter (\<lambda>(i, addr). i \<noteq> k) xs" for xs :: "(nat \<times> string) list"
    by (rule filter_cong) auto
  have last: "getLastEntryTerm (becomeCandidate clk rf) = getLastEntryTerm rf"
    by (simp add: getLastEntryTerm_def becomeCandidate_def timer_defs Let_def)
  have "new_calls k (map (\<lambda>(i, addr). GoRequestVote (int i) addr args tm) xs) =
      map (\<lambda>(i, addr). \<lparr>vc_from = k, vc_to = i, vc_args = args, vc_term = tm, vc_phase = Asked\<rparr>) xs" for args tm xs
    by (induction xs) (auto simp: new_calls_def)
  then show ?thesis
    using assms last by (simp add: StartElection_def Let_def becomeCandidate_def timer_defs filt)
qed

lemma new_calls_keys:
  assumes "rf_me rf = int k"
  shows "map call_key (new_calls k (snd (StartElection clk rf))) =
    map (\<lambda>i. (k, i, rf_CurrentTerm rf + 1)) (filter (\<lambda>i. i \<noteq> k) [0..<length (rf_peers rf)])"
proof -
  have "map call_key (new_calls k (snd (StartElection clk rf))) =
     map (\<lambda>i. (k, i, rf_CurrentTerm rf + 1)) (map fst (filter (\<lambda>(i, addr). i \<noteq> k) (enumerate 0 (rf_peers rf))))"
    by (simp add: new_calls_StartElection[OF assms] call_key_def case_prod_beta)
  also have "map fst (filter (\<lambda>(i, addr). i \<noteq> k) xs) = filter (\<lambda>i. i \<noteq> k) (map fst xs)"
    for xs :: "(nat \<times> string) list"
    by (induction xs) auto
  finally show ?thesis by simp
qed

lemma StartElection_state:
  "rf_State (fst (StartElection clk rf)) = Candidate"
  "rf_CurrentTerm (fst (StartElection clk rf)) = rf_CurrentTerm rf + 1"
  "rf_votedFor (fst (StartElection clk rf)) = rf_me rf"
  "rf_electionVotes (fst (StartElection clk rf)) = 1"
  by (simp_all add: StartElection_def becomeCandidate_def timer_defs Let_def)

lemma ticker_cases:
  "ticker clk rf = StartElection clk rf \<or>
   vote_same rf (fst (ticker clk rf)) \<and> rf_CurrentTerm (fst (ticker clk rf)) = rf_CurrentTerm rf \<and>
   new_calls k (snd (ticker clk rf)) = []"
  by (auto simp: ticker_def StartAppendEntries_def vote_same_def new_calls_def timer_defs Let_def split: role.splits)

lemma election_ok_start:
  assumes ok: "election_ok s" and k: "k < length (cl_nodes s)" and rf: "rf = cl_nodes s ! k"
  shows "election_ok (s\<lparr>cl_nodes := (cl_nodes s)[k := fst (StartElection clk rf)],
      cl_calls := cl_calls s @ new_calls k (snd (StartElection clk rf)),
      cl_votes := (k, rf_CurrentTerm rf + 1, int k) # cl_votes s\<rparr>)" (is "election_ok ?s")
proof -
  let ?rf = "fst (StartElection clk rf)"
  let ?T = "rf_CurrentTerm rf + 1"
  let ?s1 = "s\<lparr>cl_nodes := (cl_nodes s)[k := ?rf]\<rparr>"
  have me: "rf_me rf = int k" "length (rf_peers rf) = length (cl_nodes s)"
    using ok k rf by (auto simp: election_ok_def self_numbered_def)
  have "election_ok ?s1"
    by (rule election_ok_move[OF ok k])
       (use vote_kept_StartElection[of rf clk] rf StartElection_state[of clk rf] in auto)
  then have o: "self_numbered ?s1" "votes_ok ?s1" "calls_ok ?s1" "tally_ok ?s1" "won_ok ?s1"
    by (simp_all add: election_ok_def)
  have votes: "votes_ok ?s"
    using votes_ok_add[OF o(2), of k "int k" ?T] k StartElection_state[of clk rf] me(1)
    by (simp add: votes_ok_def)
  have fresh: "(k, ?T, c) \<notin> set (cl_votes s)" for c using vote_above_term[OF ok k] rf by simp
  have oldkeys: "(k, i, ?T) \<notin> call_key ` set (cl_calls s)" for i
  proof
    assume "(k, i, ?T) \<in> call_key ` set (cl_calls s)"
    then obtain call where "call \<in> set (cl_calls s)" "vc_from call = k" "vc_term call = ?T"
      by (auto simp: call_key_def)
    then show False using ok fresh by (auto simp: election_ok_def calls_ok_def call_ok_def)
  qed
  have newkeys: "call_key ` set (new_calls k (snd (StartElection clk rf))) =
      (\<lambda>i. (k, i, ?T)) ` {i. i < length (cl_nodes s) \<and> i \<noteq> k}"
    using arg_cong[OF new_calls_keys[OF me(1), of clk], of set] me(2) by auto
  have "calls_ok ?s"
  proof -
    have "distinct (map call_key (new_calls k (snd (StartElection clk rf))))"
      by (simp add: new_calls_keys[OF me(1)] distinct_map inj_on_def)
    then have "distinct (map call_key (cl_calls ?s))"
      using o(3) oldkeys newkeys by (auto simp: calls_ok_def)
    moreover have "call_ok ?s x" if "x \<in> set (cl_calls s)" for x
      using that o(3) by (auto simp: calls_ok_def intro: call_ok_mono[of ?s1])
    moreover have "call_ok ?s x" if "x \<in> set (new_calls k (snd (StartElection clk rf)))" for x
      using that k me(2) by (auto simp: new_calls_StartElection[OF me(1)] call_ok_def in_set_enumerate_eq)
    ultimately show ?thesis by (auto simp: calls_ok_def)
  qed
  moreover have "tally_ok ?s"
  proof (rule tally_ok_grow[OF o(4)])
    fix j t assume j: "j < length (cl_nodes ?s1)"
    show "rf_electionVotes (cl_nodes ?s1 ! j) \<le> 1 \<or>
       ((j, t, int j) \<in> set (cl_votes ?s) \<longrightarrow> (j, t, int j) \<in> set (cl_votes ?s1)) \<and> counted ?s1 j t \<subseteq> counted ?s j t"
    proof (cases "j = k")
      case True
      then show ?thesis using k StartElection_state(4)[of clk rf] by simp
    next
      case False
      then show ?thesis using newkeys by (auto simp: counted_def)
    qed
  qed simp
  moreover have "won_ok ?s" by (rule won_ok_mono[OF o(5) votes]) auto
  moreover have "self_numbered ?s" using o(1) by (simp add: self_numbered_def)
  ultimately show ?thesis using votes by (simp add: election_ok_def)
qed

lemma election_ok_Timer:
  assumes ok: "election_ok s" and f: "fire (Timer k clk) s = Some s'"
  shows "election_ok s'"
proof -
  have k: "k < length (cl_nodes s)" using f by (simp split: if_splits)
  let ?rf = "cl_nodes s ! k"
  have me: "rf_me ?rf = int k" using ok k by (simp add: election_ok_def self_numbered_def)
  from ticker_cases[of clk ?rf k] show ?thesis
  proof
    assume "ticker clk ?rf = StartElection clk ?rf"
    then have "s' = s\<lparr>cl_nodes := (cl_nodes s)[k := fst (StartElection clk ?rf)],
      cl_calls := cl_calls s @ new_calls k (snd (StartElection clk ?rf)),
      cl_votes := (k, rf_CurrentTerm ?rf + 1, int k) # cl_votes s\<rparr>"
      using f k StartElection_state[of clk ?rf] me by (auto simp: Let_def split: prod.splits)
    then show ?thesis using election_ok_start[OF ok k refl] by simp
  next
    assume a: "vote_same ?rf (fst (ticker clk ?rf)) \<and> rf_CurrentTerm (fst (ticker clk ?rf)) = rf_CurrentTerm ?rf \<and>
      new_calls k (snd (ticker clk ?rf)) = []"
    then have "s' = s\<lparr>cl_nodes := (cl_nodes s)[k := fst (ticker clk ?rf)]\<rparr>"
      using f k by (auto simp: Let_def split: prod.splits)
    then show ?thesis using election_ok_quiet[OF ok k] a by simp
  qed
qed

subsection \<open>An answer is counted\<close>

lemma election_reply_cases:
  assumes "rf' = fst (election_reply clk True reply t n rf)"
  shows "vote_same rf rf' \<or> vote_kept rf rf' \<and> rf_State rf' = Follower \<or>
    vote_kept rf rf' \<and> rf_State rf = Candidate \<and> rf_CurrentTerm rf = t \<and> rf_CurrentTerm rf' = t \<and>
      vr_VoteGranted reply \<and> vr_Term reply = t \<and> rf_electionVotes rf' = rf_electionVotes rf + 1 \<and>
      (rf_State rf' = Candidate \<or> rf_State rf' = Leader \<and> rf_electionVotes rf' > n div 2)"
  using assms vote_kept_election_reply[of rf clk True reply t n]
  by (auto simp: election_reply_def becomeLeader_def resetTrackedIndex_def timer_defs Let_def split: if_splits)

lemma remove_nth_notin:
  assumes "distinct (map f xs)" "j < length xs"
  shows "f (xs ! j) \<notin> f ` set (remove_nth j xs)"
proof -
  have split: "xs = take j xs @ xs ! j # drop (Suc j) xs" using assms(2) by (rule id_take_nth_drop)
  have "distinct (map f (take j xs @ xs ! j # drop (Suc j) xs))" using assms(1) split by simp
  then show ?thesis unfolding remove_nth_def by (simp only: map_append distinct_append list.map distinct.simps) auto
qed

lemma election_ok_won:
  assumes "election_ok s" "k < length (cl_nodes s)" "majority (length (cl_nodes s)) {i. (i, t, int k) \<in> set (cl_votes s)}"
  shows "election_ok (s\<lparr>cl_won := (k, t) # cl_won s\<rparr>)"
proof -
  let ?s = "s\<lparr>cl_won := (k, t) # cl_won s\<rparr>"
  have "counted ?s = counted s" by (intro ext) (simp add: counted_def)
  moreover have "call_ok ?s call = call_ok s call" for call
    by (cases "vc_phase call") (simp_all add: call_ok_def)
  ultimately show ?thesis
    using assms by (simp add: election_ok_def self_numbered_def votes_ok_def calls_ok_def tally_ok_def won_ok_def)
qed

lemma election_ok_Return:
  assumes ok: "election_ok s" and f: "fire (Return j clk) s = Some s'"
  shows "election_ok s'"
proof -
  define call where "call = cl_calls s ! j"
  define k where "k = vc_from call"
  define rf where "rf = cl_nodes s ! k"
  obtain reply where j: "j < length (cl_calls s)" and k: "k < length (cl_nodes s)" and ph: "vc_phase call = Answered reply"
    using f by (auto simp: call_def k_def Let_def split: if_splits call_phase.splits)
  define n where "n = length (cl_nodes s)"
  define rf' where "rf' = fst (election_reply clk True reply (vc_term call) (int n) rf)"
  let ?s1 = "s\<lparr>cl_calls := remove_nth j (cl_calls s)\<rparr>"
  let ?s2 = "?s1\<lparr>cl_nodes := (cl_nodes s)[k := rf']\<rparr>"
  have n: "length (rf_peers rf) = n" using ok k by (simp add: election_ok_def self_numbered_def rf_def n_def)
  have s': "s' = ?s2\<lparr>cl_won := (if rf_State rf \<noteq> Leader \<and> rf_State rf' = Leader
                               then (k, rf_CurrentTerm rf') # cl_won s else cl_won s)\<rparr>"
  proof -
    have "s' = s\<lparr>cl_nodes := (cl_nodes s)[k := rf'], cl_calls := remove_nth j (cl_calls s),
        cl_won := (if rf_State rf \<noteq> Leader \<and> rf_State rf' = Leader
                   then (k, rf_CurrentTerm rf') # cl_won s else cl_won s)\<rparr>"
      using f j k ph n unfolding rf'_def rf_def k_def call_def by (simp add: Let_def)
    then show ?thesis by (cases s) simp
  qed
  have ok1: "election_ok ?s1" by (rule election_ok_drop[OF ok])
  have cok: "call_ok s call" using ok j by (simp add: election_ok_def calls_ok_def call_def)
  let ?t = "vc_term call"
  have self: "(k, ?t, int k) \<in> set (cl_votes s)" using cok by (simp add: call_ok_def k_def)
  have count: "rf_electionVotes rf + 1 \<le> 1 + int (card (counted ?s1 k ?t))"
    if "rf_State rf = Candidate" "rf_CurrentTerm rf = ?t" "vr_VoteGranted reply"
  proof -
    let ?i = "vc_to call"
    have i: "?i < length (cl_nodes s)" "?i \<noteq> k" "(?i, ?t, int k) \<in> set (cl_votes s)"
      using cok ph that(3) by (auto simp: call_ok_def k_def)
    have key: "(k, ?i, ?t) = call_key call" by (simp add: call_key_def k_def)
    have gone: "(k, ?i, ?t) \<notin> call_key ` set (cl_calls ?s1)"
      using remove_nth_notin[of call_key "cl_calls s" j] ok j key
      by (simp add: election_ok_def calls_ok_def call_def)
    have "call \<in> set (cl_calls s)" using j by (simp add: call_def)
    then have "(k, ?i, ?t) \<in> call_key ` set (cl_calls s)" unfolding key by (rule imageI)
    then have new: "?i \<notin> counted s k ?t" by (simp add: counted_def)
    have "set (remove_nth j (cl_calls s)) \<subseteq> set (cl_calls s)"
      by (auto simp: remove_nth_def dest: in_set_takeD in_set_dropD)
    then have "insert ?i (counted s k ?t) \<subseteq> counted ?s1 k ?t"
      using i gone by (auto simp: counted_def)
    then have "card (insert ?i (counted s k ?t)) \<le> card (counted ?s1 k ?t)" by (rule card_mono[rotated]) simp
    then have "card (counted s k ?t) + 1 \<le> card (counted ?s1 k ?t)" using new by simp
    moreover have "rf_electionVotes rf \<le> 1 + int (card (counted s k ?t))"
      using tallyD[OF ok k] that self by (simp add: rf_def)
    ultimately show ?thesis by linarith
  qed
  note c = election_reply_cases[OF rf'_def]
  have kept: "vote_kept rf rf'" using c vote_same_kept by blast
  have ok2: "election_ok ?s2"
    using c
  proof (elim disjE)
    assume "vote_same rf rf'"
    then show ?thesis using election_ok_quiet[OF ok1, of k rf'] k by (simp add: rf_def)
  qed (use election_ok_move[OF ok1, of k rf'] k kept count in \<open>auto simp: rf_def\<close>)
  show ?thesis
  proof (cases "rf_State rf \<noteq> Leader \<and> rf_State rf' = Leader")
    case True
    then have w: "rf_State rf = Candidate" "rf_CurrentTerm rf = ?t" "rf_CurrentTerm rf' = ?t" "vr_VoteGranted reply"
        "rf_electionVotes rf' = rf_electionVotes rf + 1" "rf_electionVotes rf' > int n div 2"
      using c by (auto simp: vote_same_def)
    let ?V = "{i. (i, ?t, int k) \<in> set (cl_votes s)}"
    have V: "?V \<subseteq> {..<n}" using ok votes_bound[of s] by (auto simp: election_ok_def n_def)
    have "insert k (counted ?s1 k ?t) \<subseteq> ?V" using self by (auto simp: counted_def)
    then have "card (insert k (counted ?s1 k ?t)) \<le> card ?V" by (rule card_mono[rotated]) (use V finite_subset in blast)
    then have "1 + card (counted ?s1 k ?t) \<le> card ?V" by (simp add: counted_def)
    then have "n div 2 < card ?V" using count[OF w(1,2,4)] w(5,6) by linarith
    then have "majority n ?V" using V by (simp add: majority_def)
    then have "election_ok (?s2\<lparr>cl_won := (k, ?t) # cl_won ?s2\<rparr>)"
      using election_ok_won[OF ok2, of k ?t] k by (simp add: n_def)
    then show ?thesis using True w(3) by (simp add: s')
  next
    case False
    then show ?thesis using ok2 by (auto simp: s')
  qed
qed

lemma node_step_other: "is_other ev \<Longrightarrow> node_step ev rf = Some rf' \<Longrightarrow> vote_same rf rf'"
  by (cases ev)
     (auto simp: is_other_def vote_same_StartAppendEntries vote_same_applier vote_same_Kill dest!: vote_same_events)

lemma election_ok_fire:
  assumes "election_ok s" "fire ev s = Some s'"
  shows "election_ok s'"
proof (cases ev)
  case (Timer k clk)
  then show ?thesis using election_ok_Timer assms by blast
next
  case (Deliver j clk)
  then show ?thesis using election_ok_Deliver assms by blast
next
  case (Return j clk)
  then show ?thesis using election_ok_Return assms by blast
next
  case (Drop j)
  then show ?thesis using election_ok_drop assms by auto
next
  case (Other k e)
  then obtain rf' where "k < length (cl_nodes s)" "is_other e" "node_step e (cl_nodes s ! k) = Some rf'"
      "s' = s\<lparr>cl_nodes := (cl_nodes s)[k := rf']\<rparr>"
    using assms(2) by (auto split: if_splits bind_splits)
  then show ?thesis using election_ok_quiet[OF assms(1)] node_step_other by blast
qed

lemma election_ok_reach: "cluster_reach s0 s \<Longrightarrow> election_ok s0 \<Longrightarrow> election_ok s"
  by (induction rule: cluster_reach.induct) (auto intro: election_ok_fire)

section \<open>Properties\<close>

fun fire_all :: "'c cluster_event list \<Rightarrow> 'c cluster \<Rightarrow> 'c cluster option" where
  "fire_all [] s = Some s"
| "fire_all (ev # evs) s = do { s1 \<leftarrow> fire ev s; fire_all evs s1 }"

lemma cluster_reach_fire_all:
  "cluster_reach s0 s \<Longrightarrow> fire_all evs s = Some s' \<Longrightarrow> cluster_reach s0 s'"
  by (induction evs arbitrary: s) (auto split: bind_splits intro: cluster_reach.step)

text \<open>
  C4: At most one peer wins the election of a term, when every peer is started with its own
  position in the list of peers, as \<open>Make\<close> documents: however requests and answers are
  delayed, reordered and lost and whatever else the peers do meanwhile, two peers that
  became leader by winning an election of the same term are the same peer.
\<close>

theorem raft_single_winner:
  assumes "cluster_reach (boot registered clk peers int) s"
    and "(k, t) \<in> set (cl_won s)" "(k', t) \<in> set (cl_won s)"
  shows "k = k'"
proof -
  have ok: "election_ok s" using election_ok_reach[OF assms(1) election_ok_boot] .
  let ?vote = "\<lambda>i c. (i, t, int c) \<in> set (cl_votes s)"
  have "majority (length (cl_nodes s)) {i. ?vote i k}" "majority (length (cl_nodes s)) {i. ?vote i k'}"
    using ok assms(2,3) by (auto simp: election_ok_def won_ok_def)
  moreover have "x = y" if v: "?vote i x" "?vote i y" for i x y
  proof -
    have "int x = int y" using ok v unfolding election_ok_def votes_ok_def by blast
    then show ?thesis by simp
  qed
  ultimately show ?thesis by (rule mq.unique_choice)
qed

definition demo_late :: clock where
  "demo_late = (3000000000, 0)"

theorem raft_single_winner_witness:
  "\<exists>s. cluster_reach (boot (\<lambda>_. True) (0, 0) [''a'', ''b'', ''c''] int :: nat cluster) s \<and>
     (0, 1) \<in> set (cl_won s) \<and> (\<forall>k. (k, 1) \<in> set (cl_won s) \<longrightarrow> k = 0)"
proof -
  let ?s0 = "boot (\<lambda>_. True) (0, 0) [''a'', ''b'', ''c''] int :: nat cluster"
  define s where "s = the (fire_all [Timer 0 demo_late, Deliver 0 demo_late, Return 0 demo_late] ?s0)"
  have "fire_all [Timer 0 demo_late, Deliver 0 demo_late, Return 0 demo_late] ?s0 = Some s"
    unfolding s_def by code_simp
  then have r: "cluster_reach ?s0 s" by (rule cluster_reach_fire_all[OF cluster_reach.start])
  have w: "(0, 1) \<in> set (cl_won s)" unfolding s_def by code_simp
  show ?thesis using r w raft_single_winner[OF r _ w] by blast
qed

text \<open>
  C29: The leader of a term need not be unique. \<open>RequestVote\<close> raises the term of a leader
  without making it step down: in a cluster of three, started as \<open>Make\<close> documents, the leader
  of term 1 votes for a candidate of term 2 and is then itself leader in term 2, next to the
  candidate that won. Both accept a command, and their logs hold different commands at the
  same index with the same term. And with the peers numbered from 1, as \<open>cmd/server\<close> starts
  them, \<open>StartElection\<close> asks the peer itself and skips its neighbour, so that in a cluster
  of three each peer wins an election of the same term by its own two votes.
\<close>

theorem raft_two_leaders:
  "(\<exists>s. cluster_reach (boot (\<lambda>_. True) (0, 0) [''a'', ''b'', ''c''] int) s \<and>
      rf_State (cl_nodes s ! 0) = Leader \<and> rf_State (cl_nodes s ! 1) = Leader \<and>
      rf_CurrentTerm (cl_nodes s ! 0) = 2 \<and> rf_CurrentTerm (cl_nodes s ! 1) = 2 \<and>
      getOneEntry (rf_log (cl_nodes s ! 0)) 0 = Some \<lparr>e_Term = 2, e_Command = (10 :: nat)\<rparr> \<and>
      getOneEntry (rf_log (cl_nodes s ! 1)) 0 = Some \<lparr>e_Term = 2, e_Command = 20\<rparr>) \<and>
   (\<exists>s :: nat cluster. cluster_reach (boot (\<lambda>_. True) (0, 0) [''a'', ''b'', ''c''] (\<lambda>k. int k + 1)) s \<and>
      (0, 1) \<in> set (cl_won s) \<and> (1, 1) \<in> set (cl_won s))"
proof (intro conjI)
  let ?s0 = "boot (\<lambda>_. True) (0, 0) [''a'', ''b'', ''c''] int :: nat cluster"
  let ?evs = "[Timer 0 demo_late, Deliver 0 demo_late, Return 0 demo_late, Drop 0,
    Timer 1 (9000000000, 0), Deliver 0 (9000000000, 0), Return 0 (9000000000, 0),
    Other 0 (Propose 10), Other 1 (Propose 20)]"
  define s where "s = the (fire_all ?evs ?s0)"
  have "fire_all ?evs ?s0 = Some s" unfolding s_def by code_simp
  then have "cluster_reach ?s0 s" by (rule cluster_reach_fire_all[OF cluster_reach.start])
  moreover have "rf_State (cl_nodes s ! 0) = Leader \<and> rf_State (cl_nodes s ! 1) = Leader \<and>
      rf_CurrentTerm (cl_nodes s ! 0) = 2 \<and> rf_CurrentTerm (cl_nodes s ! 1) = 2 \<and>
      getOneEntry (rf_log (cl_nodes s ! 0)) 0 = Some \<lparr>e_Term = 2, e_Command = (10 :: nat)\<rparr> \<and>
      getOneEntry (rf_log (cl_nodes s ! 1)) 0 = Some \<lparr>e_Term = 2, e_Command = 20\<rparr>"
    unfolding s_def by code_simp
  ultimately show "\<exists>s. cluster_reach ?s0 s \<and>
      rf_State (cl_nodes s ! 0) = Leader \<and> rf_State (cl_nodes s ! 1) = Leader \<and>
      rf_CurrentTerm (cl_nodes s ! 0) = 2 \<and> rf_CurrentTerm (cl_nodes s ! 1) = 2 \<and>
      getOneEntry (rf_log (cl_nodes s ! 0)) 0 = Some \<lparr>e_Term = 2, e_Command = (10 :: nat)\<rparr> \<and>
      getOneEntry (rf_log (cl_nodes s ! 1)) 0 = Some \<lparr>e_Term = 2, e_Command = 20\<rparr>" by blast
next
  let ?s0 = "boot (\<lambda>_. True) (0, 0) [''a'', ''b'', ''c''] (\<lambda>k. int k + 1) :: nat cluster"
  let ?evs = "[Timer 0 demo_late, Deliver 0 demo_late, Return 0 demo_late,
    Timer 1 demo_late, Deliver 2 demo_late, Return 2 demo_late]"
  define s where "s = the (fire_all ?evs ?s0)"
  have "fire_all ?evs ?s0 = Some s" unfolding s_def by code_simp
  then have "cluster_reach ?s0 s" by (rule cluster_reach_fire_all[OF cluster_reach.start])
  moreover have "(0, 1) \<in> set (cl_won s) \<and> (1, 1) \<in> set (cl_won s)" unfolding s_def by code_simp
  ultimately show "\<exists>s. cluster_reach ?s0 s \<and> (0, 1) \<in> set (cl_won s) \<and> (1, 1) \<in> set (cl_won s)" by blast
qed

end
