(* ===== verification/Lab_Net.thy ===== *)
theory Lab_Net
  imports Wj_Prelude
begin

text \<open>
  The simulated network of \<open>labrpc/labrpc.go\<close>: named client ends that can be connected to servers,
  enabled and disabled, servers that can be added and deleted, and the way of a request. Servers are
  objects: a server name maps to the identity of the object, and \<open>DeleteServer\<close> maps it to nil
  (\<open>None\<close>). A request is handled in three parts, since the network may change between them: the look
  at the network when it is sent, the rounds in which \<open>processReq\<close> waits for the handler, and the
  answer. Random numbers are arguments. Arguments and replies are the bytes on the wire.
\<close>

section \<open>The network\<close>

record ('e, 's) network_state =
  nw_reliable :: bool
  nw_longDelays :: bool
  nw_longReordering :: bool
  nw_ends :: "'e list"
  nw_enabled :: "('e, bool) gomap"
  nw_servers :: "('s, nat option) gomap"
  nw_connections :: "('e, 's option) gomap"
  nw_done :: bool
  nw_count :: int
  nw_bytes :: int

definition MakeNetwork :: "('e, 's) network_state" where
  "MakeNetwork =
     \<lparr>nw_reliable = True, nw_longDelays = False, nw_longReordering = False, nw_ends = [], nw_enabled = [],
      nw_servers = [], nw_connections = [], nw_done = False, nw_count = 0, nw_bytes = 0\<rparr>"

definition Cleanup :: "('e, 's) network_state \<Rightarrow> ('e, 's) network_state option" where
  \<comment> \<open>closing a closed channel panics\<close>
  "Cleanup rn = (if nw_done rn then None else Some (rn\<lparr>nw_done := True\<rparr>))"

definition Reliable :: "bool \<Rightarrow> ('e, 's) network_state \<Rightarrow> ('e, 's) network_state" where
  "Reliable yes rn = rn\<lparr>nw_reliable := yes\<rparr>"

definition LongReordering :: "bool \<Rightarrow> ('e, 's) network_state \<Rightarrow> ('e, 's) network_state" where
  "LongReordering yes rn = rn\<lparr>nw_longReordering := yes\<rparr>"

definition LongDelays :: "bool \<Rightarrow> ('e, 's) network_state \<Rightarrow> ('e, 's) network_state" where
  "LongDelays yes rn = rn\<lparr>nw_longDelays := yes\<rparr>"

definition MakeEnd :: "'e \<Rightarrow> ('e, 's) network_state \<Rightarrow> ('e, 's) network_state option" where
  \<comment> \<open>\<open>None\<close>: the process exits, because the name is taken\<close>
  "MakeEnd e rn =
     (if e \<in> set (nw_ends rn) then None
      else Some (rn\<lparr>nw_ends := e # nw_ends rn, nw_enabled := AList.update e False (nw_enabled rn),
                    nw_connections := AList.update e None (nw_connections rn)\<rparr>))"

definition AddServer :: "'s \<Rightarrow> nat \<Rightarrow> ('e, 's) network_state \<Rightarrow> ('e, 's) network_state" where
  "AddServer name rs rn = rn\<lparr>nw_servers := AList.update name (Some rs) (nw_servers rn)\<rparr>"

definition DeleteServer :: "'s \<Rightarrow> ('e, 's) network_state \<Rightarrow> ('e, 's) network_state" where
  "DeleteServer name rn = rn\<lparr>nw_servers := AList.update name None (nw_servers rn)\<rparr>"

definition Connect :: "'e \<Rightarrow> 's \<Rightarrow> ('e, 's) network_state \<Rightarrow> ('e, 's) network_state" where
  "Connect e name rn = rn\<lparr>nw_connections := AList.update e (Some name) (nw_connections rn)\<rparr>"

definition Enable :: "'e \<Rightarrow> bool \<Rightarrow> ('e, 's) network_state \<Rightarrow> ('e, 's) network_state" where
  "Enable e yes rn = rn\<lparr>nw_enabled := AList.update e yes (nw_enabled rn)\<rparr>"

definition GetTotalCount :: "('e, 's) network_state \<Rightarrow> int" where
  "GetTotalCount rn = nw_count rn"

definition GetTotalBytes :: "('e, 's) network_state \<Rightarrow> int" where
  "GetTotalBytes rn = nw_bytes rn"

section \<open>Services\<close>

record 'r rmethod =
  me_Name :: string
  me_PkgPath :: string
  me_NumIn :: int
  me_In2Ptr :: bool     \<comment> \<open>the kind of the third parameter is a pointer\<close>
  me_NumOut :: int
  me_Func :: "string \<Rightarrow> 'r \<Rightarrow> 'r \<times> string"  \<comment> \<open>decodes, runs on the receiver, encodes\<close>

record 'r svc =
  sv_name :: string
  sv_rcvr :: 'r
  sv_methods :: "(string, 'r rmethod) gomap"

record 'r rpc_server =
  rs_services :: "(string, 'r svc) gomap"
  rs_count :: int

definition suitable :: "'r rmethod \<Rightarrow> bool" where
  "suitable m \<longleftrightarrow> \<not> (me_PkgPath m \<noteq> [] \<or> me_NumIn m \<noteq> 3 \<or> \<not> me_In2Ptr m \<or> me_NumOut m \<noteq> 0)"

definition MakeService :: "string \<Rightarrow> 'r \<Rightarrow> 'r rmethod list \<Rightarrow> 'r svc" where
  "MakeService name rcvr ms =
     \<lparr>sv_name = name, sv_rcvr = rcvr,
      sv_methods = fold (\<lambda>m acc. if suitable m then AList.update (me_Name m) m acc else acc) ms []\<rparr>"

definition MakeServer :: "'r rpc_server" where
  "MakeServer = \<lparr>rs_services = [], rs_count = 0\<rparr>"

definition AddService :: "'r svc \<Rightarrow> 'r rpc_server \<Rightarrow> 'r rpc_server" where
  "AddService s rs = rs\<lparr>rs_services := AList.update (sv_name s) s (rs_services rs)\<rparr>"

definition GetCount_server :: "'r rpc_server \<Rightarrow> int" where
  "GetCount_server rs = rs_count rs"

datatype 'a run = Fatal string | Panics | Value 'a

record reply_msg =
  rp_ok :: bool
  rp_reply :: string

definition no_reply :: reply_msg where
  "no_reply = \<lparr>rp_ok = False, rp_reply = []\<rparr>"

definition svc_dispatch :: "string \<Rightarrow> string \<Rightarrow> 'r svc \<Rightarrow> ('r svc \<times> reply_msg) run" where
  "svc_dispatch methname args s =
     (case map_of (sv_methods s) methname of
        Some m \<Rightarrow> (case me_Func m args (sv_rcvr s) of (r, out) \<Rightarrow> Value (s\<lparr>sv_rcvr := r\<rparr>, \<lparr>rp_ok = True, rp_reply = out\<rparr>))
      | None \<Rightarrow> Fatal ''unknown method'')"

definition split_last_dot :: "string \<Rightarrow> (string \<times> string) option" where
  \<comment> \<open>\<open>svcMeth[:dot]\<close> and \<open>svcMeth[dot+1:]\<close> for the last dot; without a dot the slice panics\<close>
  "split_last_dot s =
     (if CHR ''.'' \<notin> set s then None
      else let tl = rev (takeWhile (\<lambda>c. c \<noteq> CHR ''.'') (rev s))
           in Some (take (length s - length tl - 1) s, tl))"

definition server_dispatch :: "string \<Rightarrow> string \<Rightarrow> 'r rpc_server \<Rightarrow> ('r rpc_server \<times> reply_msg) run" where
  "server_dispatch svcMeth args rs0 =
     (let rs = rs0\<lparr>rs_count := rs_count rs0 + 1\<rparr>
      in case split_last_dot svcMeth of
           None \<Rightarrow> Panics
         | Some (serviceName, methodName) \<Rightarrow>
             (case map_of (rs_services rs) serviceName of
                None \<Rightarrow> Fatal ''unknown service''
              | Some s \<Rightarrow>
                  (case svc_dispatch methodName args s of
                     Value (s', rep) \<Rightarrow> Value (rs\<lparr>rs_services := AList.update serviceName s' (rs_services rs)\<rparr>, rep)
                   | Fatal e \<Rightarrow> Fatal e
                   | Panics \<Rightarrow> Panics)))"

definition GetCount :: "(nat \<Rightarrow> 'r rpc_server) \<Rightarrow> 's \<Rightarrow> ('e, 's) network_state \<Rightarrow> int option" where
  \<comment> \<open>\<open>None\<close>: the nil server is dereferenced\<close>
  "GetCount objects name rn =
     map_option (\<lambda>rs. GetCount_server (objects rs)) (gomap_get None (nw_servers rn) name)"

section \<open>The way of a request\<close>

record 'e req_msg =
  rq_endname :: 'e
  rq_svcMeth :: string
  rq_args :: string

definition wrap32 :: "int \<Rightarrow> int" where
  "wrap32 x = (x + 2147483648) mod 4294967296 - 2147483648"

definition Call_send ::
  "('a \<Rightarrow> string option) \<Rightarrow> 'e \<Rightarrow> string \<Rightarrow> 'a \<Rightarrow> ('e, 's) network_state \<Rightarrow> 'e req_msg option run" where
  \<comment> \<open>the encoder \<open>enc\<close> fails with a panic; \<open>Value None\<close> is the early \<open>return false\<close>\<close>
  "Call_send enc e svcMeth args rn =
     (case enc args of
        None \<Rightarrow> Panics
      | Some bs \<Rightarrow> Value (if nw_done rn then None else Some \<lparr>rq_endname = e, rq_svcMeth = svcMeth, rq_args = bs\<rparr>))"

definition accept_req :: "'e req_msg \<Rightarrow> ('e, 's) network_state \<Rightarrow> ('e, 's) network_state" where
  "accept_req req rn =
     rn\<lparr>nw_count := wrap32 (nw_count rn + 1), nw_bytes := wrap64 (nw_bytes rn + int (length (rq_args req)))\<rparr>"

definition Call_return :: "(string \<Rightarrow> 'b option) \<Rightarrow> reply_msg \<Rightarrow> 'b option run" where
  \<comment> \<open>\<open>Value (Some v)\<close>: true with the reply decoded; \<open>Value None\<close>: false\<close>
  "Call_return dec rep =
     (if rp_ok rep
      then (case dec (rp_reply rep) of None \<Rightarrow> Fatal ''decode reply'' | Some v \<Rightarrow> Value (Some v))
      else Value None)"

definition readEndnameInfo ::
  "'e \<Rightarrow> ('e, 's) network_state \<Rightarrow> bool \<times> 's option \<times> nat option \<times> bool \<times> bool" where
  "readEndnameInfo e rn =
     (let servername = gomap_get None (nw_connections rn) e;
          server = (case servername of None \<Rightarrow> None | Some s \<Rightarrow> gomap_get None (nw_servers rn) s)
      in (gomap_get False (nw_enabled rn) e, servername, server, nw_reliable rn, nw_longReordering rn))"

definition isServerDead :: "'e \<Rightarrow> 's \<Rightarrow> nat \<Rightarrow> ('e, 's) network_state \<Rightarrow> bool" where
  "isServerDead e servername server rn \<longleftrightarrow>
     \<not> gomap_get False (nw_enabled rn) e \<or> gomap_get None (nw_servers rn) servername \<noteq> Some server"

record dice =
  di_drop :: int      \<comment> \<open>\<open>rand.Int()\<close> that decides on the request\<close>
  di_timeout :: int   \<comment> \<open>\<open>rand.Int()\<close> for the simulated timeout\<close>
  di_lose :: int      \<comment> \<open>\<open>rand.Int()\<close> that decides on the reply\<close>
  di_reorder :: int   \<comment> \<open>\<open>rand.Intn(900)\<close>\<close>
  di_late :: int      \<comment> \<open>\<open>rand.Intn(1+rand.Intn(2000))\<close>\<close>

datatype 's sent =
    Dropped
  | Executing 's nat bool bool
  | Timeout int       \<comment> \<open>answered false after that many milliseconds\<close>

definition processReq_send :: "dice \<Rightarrow> 'e \<Rightarrow> ('e, 's) network_state \<Rightarrow> 's sent" where
  "processReq_send d e rn =
     (case readEndnameInfo e rn of
        (True, Some servername, Some server, reliable, longreordering) \<Rightarrow>
          (if \<not> reliable \<and> di_drop d mod 1000 < 100 then Dropped
           else Executing servername server reliable longreordering)
      | _ \<Rightarrow> Timeout (if nw_longDelays rn then di_timeout d mod 7000 else di_timeout d mod 100))"

fun processReq_wait ::
  "'e \<Rightarrow> 's \<Rightarrow> nat \<Rightarrow> (('e, 's) network_state \<times> reply_msg option) list \<Rightarrow> reply_msg option option" where
  \<comment> \<open>the rounds of the loop: the network then, and the handler's reply or the 100 ms timer;
     \<open>None\<close>: still waiting, \<open>Some None\<close>: the server was found dead\<close>
  "processReq_wait e servername server [] = None"
| "processReq_wait e servername server ((rn, Some reply) # rounds) = Some (Some reply)"
| "processReq_wait e servername server ((rn, None) # rounds) =
     (if isServerDead e servername server rn then Some None else processReq_wait e servername server rounds)"

record answer =
  an_reply :: reply_msg
  an_delay :: int
  an_bytes :: int     \<comment> \<open>added to the statistics when the reply is sent\<close>

definition processReq_answer ::
  "dice \<Rightarrow> 'e \<Rightarrow> 's \<Rightarrow> nat \<Rightarrow> bool \<Rightarrow> bool \<Rightarrow> reply_msg option \<Rightarrow> ('e, 's) network_state \<Rightarrow> answer" where
  "processReq_answer d e servername server reliable longreordering reply rn =
     (case reply of
        None \<Rightarrow> \<lparr>an_reply = no_reply, an_delay = 0, an_bytes = 0\<rparr>
      | Some r \<Rightarrow>
          (if isServerDead e servername server rn then \<lparr>an_reply = no_reply, an_delay = 0, an_bytes = 0\<rparr>
           else if \<not> reliable \<and> di_lose d mod 1000 < 100 then \<lparr>an_reply = no_reply, an_delay = 0, an_bytes = 0\<rparr>
           else \<lparr>an_reply = r,
                 an_delay = (if longreordering \<and> di_reorder d < 600 then 200 + di_late d else 0),
                 an_bytes = int (length (rp_reply r))\<rparr>))"

definition answer_sent :: "answer \<Rightarrow> ('e, 's) network_state \<Rightarrow> ('e, 's) network_state" where
  "answer_sent a rn = rn\<lparr>nw_bytes := wrap64 (nw_bytes rn + an_bytes a)\<rparr>"

definition processReq ::
  "dice \<Rightarrow> 'e \<Rightarrow> ('e, 's) network_state \<Rightarrow> (('e, 's) network_state \<times> reply_msg option) list
   \<Rightarrow> ('e, 's) network_state \<Rightarrow> answer option" where
  "processReq d e rn0 rounds rn1 =
     (case processReq_send d e rn0 of
        Dropped \<Rightarrow> Some \<lparr>an_reply = no_reply, an_delay = 0, an_bytes = 0\<rparr>
      | Timeout ms \<Rightarrow> Some \<lparr>an_reply = no_reply, an_delay = ms, an_bytes = 0\<rparr>
      | Executing servername server reliable longreordering \<Rightarrow>
          map_option (\<lambda>reply. processReq_answer d e servername server reliable longreordering reply rn1)
            (processReq_wait e servername server rounds))"

section \<open>What a caller may conclude\<close>

definition routed :: "'e \<Rightarrow> 's \<Rightarrow> nat \<Rightarrow> ('e, 's) network_state \<Rightarrow> bool" where
  "routed e servername server rn \<longleftrightarrow>
     gomap_get False (nw_enabled rn) e \<and> gomap_get None (nw_connections rn) e = Some servername
     \<and> gomap_get None (nw_servers rn) servername = Some server"

lemma processReq_send_Executing:
  "processReq_send d e rn = Executing servername server reliable longreordering \<longleftrightarrow>
     routed e servername server rn \<and> reliable = nw_reliable rn \<and> longreordering = nw_longReordering rn
     \<and> (nw_reliable rn \<or> \<not> di_drop d mod 1000 < 100)"
  by (auto simp: processReq_send_def readEndnameInfo_def routed_def Let_def split: option.splits bool.splits if_splits)

lemma not_enabled_times_out:
  "\<not> gomap_get False (nw_enabled rn) e \<Longrightarrow> \<exists>ms. processReq_send d e rn = Timeout ms"
  by (simp add: processReq_send_def readEndnameInfo_def Let_def)

lemma processReq_wait_reply:
  "processReq_wait e s v rounds = Some (Some r) \<Longrightarrow> \<exists>rn. (rn, Some r) \<in> set rounds"
  by (induction e s v rounds rule: processReq_wait.induct) (auto split: if_splits)

lemma processReq_wait_arrives:
  "list_all (\<lambda>(rn, reply). reply = None \<and> \<not> isServerDead e s v rn) before \<Longrightarrow>
   processReq_wait e s v (before @ (rn, Some r) # rounds) = Some (Some r)"
  by (induction "before") auto

lemma positive_answer:
  assumes "processReq d e rn0 rounds rn1 = Some a" "rp_ok (an_reply a)"
  obtains s v rn where "routed e s v rn0" "(rn, Some (an_reply a)) \<in> set rounds" "\<not> isServerDead e s v rn1"
    "an_bytes a = int (length (rp_reply (an_reply a)))"
  using assms
  by (auto simp: processReq_def processReq_answer_def no_reply_def processReq_send_Executing
      split: sent.splits option.splits if_splits dest!: processReq_wait_reply)


text \<open>In a reliable network a handler's reply is never lost while the route stays up, and it is late
  only when long reordering is on.\<close>
lemma reliable_delivery:
  assumes "nw_reliable rn0" "routed e s v rn0"
    "list_all (\<lambda>(rn, reply). reply = None \<and> \<not> isServerDead e s v rn) before" "\<not> isServerDead e s v rn1"
  shows "\<exists>a. processReq d e rn0 (before @ (rn, Some r) # rounds) rn1 = Some a \<and> an_reply a = r
     \<and> (\<not> nw_longReordering rn0 \<longrightarrow> an_delay a = 0)"
proof -
  have "processReq_send d e rn0 = Executing s v True (nw_longReordering rn0)"
    using assms by (simp add: processReq_send_Executing)
  then show ?thesis
    using assms by (simp add: processReq_def processReq_wait_arrives processReq_answer_def)
qed

definition demo_net :: "(nat, nat) network_state" where
  "demo_net = Enable 7 True (Connect 7 1 (AddServer 1 40 (the (MakeEnd 7 MakeNetwork))))"

definition demo_dice :: dice where
  "demo_dice = \<lparr>di_drop = 0, di_timeout = 0, di_lose = 0, di_reorder = 0, di_late = 0\<rparr>"

lemma demo_net_reply:
  "processReq demo_dice 7 demo_net [(demo_net, None), (demo_net, Some \<lparr>rp_ok = True, rp_reply = ''yes''\<rparr>)] demo_net
     = Some \<lparr>an_reply = \<lparr>rp_ok = True, rp_reply = ''yes''\<rparr>, an_delay = 0, an_bytes = 3\<rparr>"
  by code_simp


text \<open>A deleted server gets no further request, and a reply it still produces is suppressed.\<close>
lemma DeleteServer_silences:
  "processReq d e (DeleteServer s rn0) rounds rn1 = Some a \<Longrightarrow> gomap_get None (nw_connections rn0) e = Some s
     \<Longrightarrow> \<not> rp_ok (an_reply a)"
  "processReq d e rn0 rounds (DeleteServer s rn1) = Some a \<Longrightarrow> gomap_get None (nw_connections rn0) e = Some s
     \<Longrightarrow> \<not> rp_ok (an_reply a)"
  by (force elim: positive_answer simp: routed_def isServerDead_def DeleteServer_def gomap_get_update)+

end
