(* ===== verification/Raft_Harness.thy ===== *)
theory Raft_Harness
  imports Lab_Net Raft_Node
begin

text \<open>
  The Raft tester \<open>raft/config.go\<close>: it starts, crashes, connects and disconnects peers on the simulated
  network, copies what every peer applies, and checks the copies. A running peer and the tester share
  one persister object, so the content of \<open>cfg.saved[i]\<close> is the peer's while the peer runs
  (\<open>saved_now\<close>). A peer that was killed is no longer part of the state. Names, random numbers, the
  clock and the gob encoding of test snapshots are arguments; \<open>Fatal\<close> ends the test. Loops that sleep
  take the configuration they see in each round.
\<close>

section \<open>The tester's state\<close>

record 'c config =
  cf_finished :: bool
  cf_net :: "(string, nat) network_state"
  cf_n :: nat
  cf_rafts :: "'c raft option list"
  cf_applyErr :: "string list"
  cf_connected :: "bool list"
  cf_saved :: "'c persister option list"
  cf_endnames :: "string list option list"
  cf_logs :: "(int, 'c option) gomap list"
  cf_lastApplied :: "int list"
  cf_rpcs0 :: int
  cf_cmds0 :: int
  cf_bytes0 :: int
  cf_maxIndex :: int
  cf_maxIndex0 :: int

definition endname_at :: "'c config \<Rightarrow> nat \<Rightarrow> nat \<Rightarrow> string option" where
  \<comment> \<open>\<open>cfg.endnames[i][j]\<close>; \<open>None\<close> when the row is nil\<close>
  "endname_at cfg i j = map_option (\<lambda>es. es ! j) (cf_endnames cfg ! i)"

definition enable_opt :: "bool \<Rightarrow> string option \<Rightarrow> (string, nat) network_state \<Rightarrow> (string, nat) network_state" where
  "enable_opt b e rn = (case e of None \<Rightarrow> rn | Some x \<Rightarrow> Enable x b rn)"

definition disconnect :: "nat \<Rightarrow> 'c config \<Rightarrow> 'c config" where
  "disconnect i cfg =
     cfg\<lparr>cf_connected := (cf_connected cfg)[i := False],
         cf_net := fold (\<lambda>j. enable_opt False (endname_at cfg j i)) [0..<cf_n cfg]
                    (fold (\<lambda>j. enable_opt False (endname_at cfg i j)) [0..<cf_n cfg] (cf_net cfg))\<rparr>"

fun connect_loop ::
  "(nat \<Rightarrow> bool) \<Rightarrow> (nat \<Rightarrow> string option) \<Rightarrow> nat list \<Rightarrow> (string, nat) network_state \<Rightarrow> (string, nat) network_state option"
where
  "connect_loop connected endname [] rn = Some rn"
| "connect_loop connected endname (j # js) rn =
     (if connected j
      then (case endname j of None \<Rightarrow> None | Some e \<Rightarrow> connect_loop connected endname js (Enable e True rn))
      else connect_loop connected endname js rn)"

definition connect :: "nat \<Rightarrow> 'c config \<Rightarrow> 'c config option" where
  "connect i cfg =
     (let conn = (cf_connected cfg)[i := True]
      in do { rn \<leftarrow> connect_loop ((!) conn) (endname_at cfg i) [0..<cf_n cfg] (cf_net cfg);
              rn' \<leftarrow> connect_loop ((!) conn) (\<lambda>j. endname_at cfg j i) [0..<cf_n cfg] rn;
              Some (cfg\<lparr>cf_connected := conn, cf_net := rn'\<rparr>) })"

definition saved_now :: "'c config \<Rightarrow> nat \<Rightarrow> 'c persister option" where
  "saved_now cfg i = (case cf_rafts cfg ! i of Some rf \<Rightarrow> Some (rf_persister rf) | None \<Rightarrow> cf_saved cfg ! i)"

definition persister_Save :: "'c raft_state option \<Rightarrow> string \<Rightarrow> 'c persister \<Rightarrow> 'c persister" where
  "persister_Save raftstate snapshot ps = ps\<lparr>ps_raftstate := raftstate, ps_snapshot := snapshot\<rparr>"

definition crash1 :: "nat \<Rightarrow> 'c config \<Rightarrow> 'c config" where
  "crash1 i cfg0 =
     (let cfg = disconnect i cfg0;
          saved = map_option persister_Copy (saved_now cfg0 i)
      in cfg\<lparr>cf_net := DeleteServer i (cf_net cfg),
             cf_rafts := (cf_rafts cfg)[i := None],
             cf_saved := (cf_saved cfg)[i :=
               map_option (\<lambda>p. persister_Save (ps_raftstate p) (ps_snapshot p) MakePersister) saved]\<rparr>)"

section \<open>The readers of the apply channels\<close>

datatype apply_err = Differs int nat nat | OutOfOrder nat int | BadSnapshot nat

definition log_at :: "'c config \<Rightarrow> nat \<Rightarrow> int \<Rightarrow> 'c option option" where
  "log_at cfg i index = map_of (cf_logs cfg ! i) index"

definition checkLogs :: "nat \<Rightarrow> 'c raft_msg \<Rightarrow> 'c config \<Rightarrow> 'c config \<times> apply_err option \<times> bool" where
  "checkLogs i m cfg =
     (let v = rm_Command m; index = rm_CommandIndex m;
          err = fold (\<lambda>j acc. case log_at cfg j index of
                                None \<Rightarrow> acc
                              | Some old \<Rightarrow> if old \<noteq> v then Some (Differs index i j) else acc)
                  [0..<length (cf_logs cfg)] None;
          prevok = log_at cfg i (index - 1) \<noteq> None
      in (cfg\<lparr>cf_logs := (cf_logs cfg)[i := AList.update index v (cf_logs cfg ! i)],
              cf_maxIndex := max (cf_maxIndex cfg) index\<rparr>, err, prevok))"

definition applier_msg :: "nat \<Rightarrow> 'c raft_msg \<Rightarrow> 'c config \<Rightarrow> 'c config run" where
  \<comment> \<open>one round of \<open>applier\<close>\<close>
  "applier_msg i m cfg =
     (if \<not> rm_CommandValid m then Value cfg
      else case checkLogs i m cfg of (cfg', err, prevok) \<Rightarrow>
        let err' = (if rm_CommandIndex m > 1 \<and> \<not> prevok then Some (OutOfOrder i (rm_CommandIndex m)) else err)
        in if err' \<noteq> None then Fatal ''apply error'' else Value cfg')"

definition ingestSnap ::
  "(string \<Rightarrow> (int \<times> 'c option list) option) \<Rightarrow> nat \<Rightarrow> string \<Rightarrow> int \<Rightarrow> 'c config \<Rightarrow> ('c config \<times> apply_err option) run" where
  "ingestSnap dec i snapshot index cfg =
     (if snapshot = [] then Fatal ''nil snapshot''
      else case dec snapshot of
          None \<Rightarrow> Fatal ''snapshot decode error''
        | Some (lastIncludedIndex, xlog) \<Rightarrow>
            (if index \<noteq> - 1 \<and> index \<noteq> lastIncludedIndex then Value (cfg, Some (BadSnapshot i))
             else Value (cfg\<lparr>cf_logs := (cf_logs cfg)[i :=
                                fold (\<lambda>j. AList.update (int j) (xlog ! j)) [0..<length xlog] []],
                             cf_lastApplied := (cf_lastApplied cfg)[i := lastIncludedIndex]\<rparr>, None)))"

definition SnapShotInterval :: int where
  "SnapShotInterval = 10"

definition snap_log :: "'c config \<Rightarrow> nat \<Rightarrow> int \<Rightarrow> 'c option list" where
  \<comment> \<open>a missing entry reads as nil\<close>
  "snap_log cfg i index = map (\<lambda>j. case log_at cfg i j of None \<Rightarrow> None | Some v \<Rightarrow> v) [0..index]"

definition applierSnap_msg ::
  "(int \<times> 'c option list \<Rightarrow> string) \<Rightarrow> (string \<Rightarrow> (int \<times> 'c option list) option) \<Rightarrow> nat \<Rightarrow> 'c raft_msg
   \<Rightarrow> 'c config \<Rightarrow> ('c config \<times> spawn list) run" where
  \<comment> \<open>one round of \<open>applierSnap\<close>; without a running peer the reader has returned\<close>
  "applierSnap_msg enc dec i m cfg =
     (case cf_rafts cfg ! i of
        None \<Rightarrow> Value (cfg, [])
      | Some rf \<Rightarrow>
          (if rm_SnapshotValid m
           then (case ingestSnap dec i (rm_Snapshot m) (rm_SnapshotIndex m) cfg of
                   Value (cfg', None) \<Rightarrow> Value (cfg', [])
                 | Value (_, Some _) \<Rightarrow> Fatal ''apply error''
                 | Fatal e \<Rightarrow> Fatal e
                 | Panics \<Rightarrow> Panics)
           else if rm_CommandValid m
           then (let index = rm_CommandIndex m;
                     (cfg1, err) =
                       (if index \<noteq> cf_lastApplied cfg ! i + 1 then (cfg, Some (OutOfOrder i index))
                        else case checkLogs i m cfg of (c, e, prevok) \<Rightarrow>
                          (c, if index > 1 \<and> \<not> prevok then Some (OutOfOrder i index) else e));
                     cfg2 = cfg1\<lparr>cf_lastApplied := (cf_lastApplied cfg1)[i := index]\<rparr>
                 in case (if (index + 1) mod SnapShotInterval = 0
                          then Snapshot_raft index (enc (index, snap_log cfg2 i index)) rf
                          else Some (rf, [])) of
                      None \<Rightarrow> Panics
                    | Some (rf', sp) \<Rightarrow>
                        (if err \<noteq> None then Fatal ''apply error''
                         else Value (cfg2\<lparr>cf_rafts := (cf_rafts cfg2)[i := Some rf']\<rparr>, sp)))
           else Value (cfg, [])))"

section \<open>Starting peers\<close>

fun ends_loop ::
  "string list \<Rightarrow> nat list \<Rightarrow> string list \<Rightarrow> (string, nat) network_state \<Rightarrow> (string list \<times> (string, nat) network_state) option"
where
  \<comment> \<open>\<open>ends[j] = ...\<close> panics past the end of the slice\<close>
  "ends_loop names [] ends rn = Some (ends, rn)"
| "ends_loop names (j # js) ends rn =
     (if j < length ends then ends_loop names js (ends[j := names ! j]) (Connect (names ! j) j rn) else None)"

record 'c start_env =
  se_names :: "nat \<Rightarrow> string list"     \<comment> \<open>\<open>randstring(20)\<close>, once for every peer\<close>
  se_object :: "nat \<Rightarrow> nat"            \<comment> \<open>the address of the new server object\<close>
  se_clock :: clock
  se_registered :: "'c \<Rightarrow> bool"
  se_dec :: "string \<Rightarrow> (int \<times> 'c option list) option"

definition start1 :: "'c start_env \<Rightarrow> nat \<Rightarrow> 'c config \<Rightarrow> 'c config run" where
  "start1 env i cfg0 =
     (let cfg1 = crash1 i cfg0; names = se_names env i;
          cfg2 = cfg1\<lparr>cf_endnames := (cf_endnames cfg1)[i := Some names]\<rparr>
      in case ends_loop names [0..<cf_n cfg2] [] (cf_net cfg2) of
           None \<Rightarrow> Panics
         | Some (ends, rn) \<Rightarrow>
             (let cfg3 = cfg2\<lparr>cf_net := rn, cf_lastApplied := (cf_lastApplied cfg2)[i := 0]\<rparr>;
                  start = (\<lambda>cfg saved.
                    case Make (se_registered env) (se_clock env) ends (int i) saved of
                      None \<Rightarrow> Panics
                    | Some rf \<Rightarrow>
                        Value (cfg\<lparr>cf_saved := (cf_saved cfg)[i := Some saved], cf_rafts := (cf_rafts cfg)[i := Some rf],
                                   cf_net := AddServer i (se_object env i) (cf_net cfg)\<rparr>))
              in case cf_saved cfg3 ! i of
                   None \<Rightarrow> start cfg3 MakePersister
                 | Some p \<Rightarrow>
                     (if ps_snapshot p = [] then start cfg3 (persister_Copy p)
                      else case ingestSnap (se_dec env) i (ps_snapshot p) (- 1) cfg3 of
                          Value (cfg4, None) \<Rightarrow> start cfg4 (persister_Copy p)
                        | Value (_, Some _) \<Rightarrow> Fatal ''snapshot''
                        | Fatal e \<Rightarrow> Fatal e
                        | Panics \<Rightarrow> Panics)))"

definition empty_config :: "nat \<Rightarrow> bool \<Rightarrow> 'c config" where
  "empty_config n unreliable =
     \<lparr>cf_finished = False, cf_net = LongDelays True (Reliable (\<not> unreliable) MakeNetwork), cf_n = n,
      cf_rafts = replicate n None, cf_applyErr = replicate n [], cf_connected = replicate n False,
      cf_saved = replicate n None, cf_endnames = replicate n None, cf_logs = replicate n [],
      cf_lastApplied = replicate n 0, cf_rpcs0 = 0, cf_cmds0 = 0, cf_bytes0 = 0, cf_maxIndex = 0, cf_maxIndex0 = 0\<rparr>"

fun start_all :: "'c start_env \<Rightarrow> nat list \<Rightarrow> 'c config \<Rightarrow> 'c config run" where
  "start_all env [] cfg = Value cfg"
| "start_all env (i # is) cfg =
     (case start1 env i cfg of Value cfg' \<Rightarrow> start_all env is cfg' | Fatal e \<Rightarrow> Fatal e | Panics \<Rightarrow> Panics)"

fun connect_all :: "nat list \<Rightarrow> 'c config \<Rightarrow> 'c config run" where
  "connect_all [] cfg = Value cfg"
| "connect_all (i # is) cfg = (case connect i cfg of None \<Rightarrow> Panics | Some cfg' \<Rightarrow> connect_all is cfg')"

definition make_config :: "'c start_env \<Rightarrow> nat \<Rightarrow> bool \<Rightarrow> 'c config run" where
  "make_config env n unreliable =
     (case start_all env [0..<n] (empty_config n unreliable) of
        Value cfg \<Rightarrow> connect_all [0..<n] cfg
      | Fatal e \<Rightarrow> Fatal e
      | Panics \<Rightarrow> Panics)"

definition harness_cleanup :: "'c config \<Rightarrow> 'c config option" where
  "harness_cleanup cfg =
     map_option (\<lambda>rn. cfg\<lparr>cf_finished := True, cf_rafts := map (map_option Kill) (cf_rafts cfg), cf_net := rn\<rparr>)
       (Cleanup (cf_net cfg))"

section \<open>The checks of the tests\<close>

fun leaders_of :: "'c config \<Rightarrow> nat list \<Rightarrow> (int, nat list) gomap \<Rightarrow> (int, nat list) gomap option" where
  \<comment> \<open>\<open>None\<close>: \<open>GetState\<close> of a connected nil peer\<close>
  "leaders_of cfg [] leaders = Some leaders"
| "leaders_of cfg (i # is) leaders =
     (if cf_connected cfg ! i
      then (case cf_rafts cfg ! i of
              None \<Rightarrow> None
            | Some rf \<Rightarrow>
                (case GetState rf of (tm, leader) \<Rightarrow>
                   leaders_of cfg is
                     (if leader then AList.update tm (gomap_get [] leaders tm @ [i]) leaders else leaders)))
      else leaders_of cfg is leaders)"

definition checkOneLeader_round :: "'c config \<Rightarrow> nat option run" where
  "checkOneLeader_round cfg =
     (case leaders_of cfg [0..<cf_n cfg] [] of
        None \<Rightarrow> Panics
      | Some leaders \<Rightarrow>
          (if list_ex (\<lambda>(tm, is). length is > 1) leaders then Fatal ''more than one leader''
           else if leaders = [] then Value None
           else (let lastTermWithLeader = fold (\<lambda>(tm, is). max tm) leaders (- 1)
                 in case gomap_get [] leaders lastTermWithLeader of
                      [] \<Rightarrow> Panics
                    | i # _ \<Rightarrow> Value (Some i))))"

fun checkOneLeader_loop :: "(nat \<Rightarrow> 'c config) \<Rightarrow> nat list \<Rightarrow> nat run" where
  "checkOneLeader_loop env [] = Fatal ''expected one leader, got none''"
| "checkOneLeader_loop env (k # ks) =
     (case checkOneLeader_round (env k) of
        Value None \<Rightarrow> checkOneLeader_loop env ks
      | Value (Some i) \<Rightarrow> Value i
      | Fatal e \<Rightarrow> Fatal e
      | Panics \<Rightarrow> Panics)"

definition checkOneLeader :: "(nat \<Rightarrow> 'c config) \<Rightarrow> nat run" where
  \<comment> \<open>\<open>env k\<close> is the configuration the round \<open>k\<close> sees\<close>
  "checkOneLeader env = checkOneLeader_loop env [0..<10]"

fun checkTerms_loop :: "'c config \<Rightarrow> nat list \<Rightarrow> int \<Rightarrow> int run" where
  "checkTerms_loop cfg [] tm = Value tm"
| "checkTerms_loop cfg (i # is) tm =
     (if cf_connected cfg ! i
      then (case cf_rafts cfg ! i of
              None \<Rightarrow> Panics
            | Some rf \<Rightarrow>
                (if tm = - 1 then checkTerms_loop cfg is (fst (GetState rf))
                 else if tm \<noteq> fst (GetState rf) then Fatal ''servers disagree on term''
                 else checkTerms_loop cfg is tm))
      else checkTerms_loop cfg is tm)"

definition checkTerms :: "'c config \<Rightarrow> int run" where
  "checkTerms cfg = checkTerms_loop cfg [0..<cf_n cfg] (- 1)"

fun checkNoLeader_loop :: "'c config \<Rightarrow> nat list \<Rightarrow> unit run" where
  "checkNoLeader_loop cfg [] = Value ()"
| "checkNoLeader_loop cfg (i # is) =
     (if cf_connected cfg ! i
      then (case cf_rafts cfg ! i of
              None \<Rightarrow> Panics
            | Some rf \<Rightarrow>
                (if snd (GetState rf) then Fatal ''expected no leader'' else checkNoLeader_loop cfg is))
      else checkNoLeader_loop cfg is)"

definition checkNoLeader :: "'c config \<Rightarrow> unit run" where
  "checkNoLeader cfg = checkNoLeader_loop cfg [0..<cf_n cfg]"

fun nCommitted_loop :: "'c config \<Rightarrow> int \<Rightarrow> nat list \<Rightarrow> int \<Rightarrow> 'c option \<Rightarrow> (int \<times> 'c option) run" where
  "nCommitted_loop cfg index [] cnt cmd = Value (cnt, cmd)"
| "nCommitted_loop cfg index (i # is) cnt cmd =
     (if cf_applyErr cfg ! i \<noteq> [] then Fatal (cf_applyErr cfg ! i)
      else case log_at cfg i index of
          Some cmd1 \<Rightarrow>
            (if cnt > 0 \<and> cmd \<noteq> cmd1 then Fatal ''committed values do not match''
             else nCommitted_loop cfg index is (cnt + 1) cmd1)
        | None \<Rightarrow> nCommitted_loop cfg index is cnt cmd)"

definition nCommitted :: "int \<Rightarrow> 'c config \<Rightarrow> (int \<times> 'c option) run" where
  "nCommitted index cfg = nCommitted_loop cfg index [0..<length (cf_rafts cfg)] 0 None"

datatype 'c waited = MovedOn | Decided "'c option"

fun someone_moved :: "int \<Rightarrow> 'c raft option list \<Rightarrow> bool option" where
  "someone_moved startTerm [] = Some False"
| "someone_moved startTerm (None # rs) = None"
| "someone_moved startTerm (Some rf # rs) =
     (if fst (GetState rf) > startTerm then Some True else someone_moved startTerm rs)"

definition wait_end :: "int \<Rightarrow> int \<Rightarrow> 'c config \<Rightarrow> 'c waited run" where
  "wait_end index n cfg =
     (case nCommitted index cfg of
        Value (nd, cmd) \<Rightarrow> if nd < n then Fatal ''too few decided'' else Value (Decided cmd)
      | Fatal e \<Rightarrow> Fatal e
      | Panics \<Rightarrow> Panics)"

fun wait_loop :: "int \<Rightarrow> int \<Rightarrow> int \<Rightarrow> (nat \<Rightarrow> 'c config) \<Rightarrow> (nat \<Rightarrow> 'c config) \<Rightarrow> nat list \<Rightarrow> 'c config \<Rightarrow> 'c waited run" where
  \<comment> \<open>a round sees \<open>before k\<close>, sleeps, and then sees \<open>after k\<close>\<close>
  "wait_loop index n startTerm before after [] final = wait_end index n final"
| "wait_loop index n startTerm before after (k # ks) final =
     (case nCommitted index (before k) of
        Value (nd, _) \<Rightarrow>
          (if nd \<ge> n then wait_end index n final
           else if startTerm > - 1
           then (case someone_moved startTerm (cf_rafts (after k)) of
                   None \<Rightarrow> Panics
                 | Some True \<Rightarrow> Value MovedOn
                 | Some False \<Rightarrow> wait_loop index n startTerm before after ks final)
           else wait_loop index n startTerm before after ks final)
      | Fatal e \<Rightarrow> Fatal e
      | Panics \<Rightarrow> Panics)"

definition wait_committed ::
  "int \<Rightarrow> int \<Rightarrow> int \<Rightarrow> (nat \<Rightarrow> 'c config) \<Rightarrow> (nat \<Rightarrow> 'c config) \<Rightarrow> 'c config \<Rightarrow> 'c waited run" where
  "wait_committed index n startTerm before after final = wait_loop index n startTerm before after [0..<30] final"

fun one_start :: "'c \<Rightarrow> nat \<Rightarrow> nat \<Rightarrow> 'c config \<Rightarrow> ('c config \<times> nat \<times> int) option" where
  \<comment> \<open>the search of \<open>one\<close> for a leader: the rounds left, \<open>starts\<close>; the index is \<open>- 1\<close> without one\<close>
  "one_start cmd 0 starts cfg = Some (cfg, starts, - 1)"
| "one_start cmd (Suc si) starts0 cfg =
     (let starts = (starts0 + 1) mod cf_n cfg
      in case (if cf_connected cfg ! starts then cf_rafts cfg ! starts else None) of
           None \<Rightarrow> one_start cmd si starts cfg
         | Some rf \<Rightarrow>
             (case Start cmd rf of
                None \<Rightarrow> None
              | Some (rf', (index1, _, ok), _) \<Rightarrow>
                  (let cfg' = cfg\<lparr>cf_rafts := (cf_rafts cfg)[starts := Some rf']\<rparr>
                   in if ok then Some (cfg', starts, index1) else one_start cmd si starts cfg')))"

fun one_poll :: "'c \<Rightarrow> int \<Rightarrow> int \<Rightarrow> 'c config list \<Rightarrow> bool run" where
  \<comment> \<open>the polls of the two seconds after the submission: agreement reached or not\<close>
  "one_poll cmd expectedServers index [] = Value False"
| "one_poll cmd expectedServers index (cfg # later) =
     (case nCommitted index cfg of
        Value (nd, cmd1) \<Rightarrow>
          (if nd > 0 \<and> nd \<ge> expectedServers \<and> cmd1 = Some cmd then Value True
           else one_poll cmd expectedServers index later)
      | Fatal e \<Rightarrow> Fatal e
      | Panics \<Rightarrow> Panics)"

fun one :: "'c \<Rightarrow> int \<Rightarrow> bool \<Rightarrow> bool \<Rightarrow> nat \<Rightarrow> ('c config \<times> 'c config list) list \<Rightarrow> int run" where
  \<comment> \<open>the rounds that begin within ten seconds: the configuration then, and those the polls see;
    \<open>finished\<close>: what \<open>checkFinished\<close> says at the end\<close>
  "one cmd expectedServers retry finished starts [] =
     (if \<not> finished then Fatal ''failed to reach agreement'' else Value (- 1))"
| "one cmd expectedServers retry finished starts ((cfg, polls) # rounds) =
     (case one_start cmd (cf_n cfg) starts cfg of
        None \<Rightarrow> Panics
      | Some (_, starts', index) \<Rightarrow>
          (if index \<noteq> - 1
           then (case one_poll cmd expectedServers index polls of
                   Value True \<Rightarrow> Value index
                 | Value False \<Rightarrow>
                     (if \<not> retry then Fatal ''failed to reach agreement''
                      else one cmd expectedServers retry finished starts' rounds)
                 | Fatal e \<Rightarrow> Fatal e
                 | Panics \<Rightarrow> Panics)
           else one cmd expectedServers retry finished starts' rounds))"

definition begin_test :: "'c config \<Rightarrow> 'c config" where
  "begin_test cfg =
     cfg\<lparr>cf_rpcs0 := GetTotalCount (cf_net cfg), cf_bytes0 := GetTotalBytes (cf_net cfg), cf_cmds0 := 0,
         cf_maxIndex0 := cf_maxIndex cfg\<rparr>"

definition end_test :: "'c config \<Rightarrow> nat \<times> int \<times> int \<times> int" where
  \<comment> \<open>peers, requests, bytes and agreements that are printed\<close>
  "end_test cfg =
     (cf_n cfg, GetTotalCount (cf_net cfg) - cf_rpcs0 cfg, wrap64 (GetTotalBytes (cf_net cfg) - cf_bytes0 cfg),
      cf_maxIndex cfg - cf_maxIndex0 cfg)"

section \<open>Disconnected peers\<close>

lemma Enable_get: "gomap_get False (nw_enabled (Enable e b rn)) e' = (if e' = e then b else gomap_get False (nw_enabled rn) e')"
  by (simp add: Enable_def gomap_get_update)

lemma enable_opt_fold:
  "gomap_get False (nw_enabled (fold (\<lambda>j. enable_opt False (f j)) js rn)) e
     \<longleftrightarrow> gomap_get False (nw_enabled rn) e \<and> Some e \<notin> f ` set js"
  by (induction js arbitrary: rn) (auto simp: enable_opt_def Enable_get split: option.splits if_splits)

lemma disconnect_enabled:
  "gomap_get False (nw_enabled (cf_net (disconnect i cfg))) e \<longleftrightarrow>
     gomap_get False (nw_enabled (cf_net cfg)) e
     \<and> (\<forall>j<cf_n cfg. endname_at cfg i j \<noteq> Some e \<and> endname_at cfg j i \<noteq> Some e)"
  by (simp add: disconnect_def enable_opt_fold image_iff) (metis atLeastLessThan_iff le0)


definition demo_config :: "nat config" where
  "demo_config =
     (empty_config 2 False)\<lparr>cf_net := Enable ''ab'' True (Connect ''ab'' 1 (AddServer 1 40 (the (MakeEnd ''ab'' MakeNetwork)))),
        cf_connected := [True, True], cf_endnames := [Some [''aa'', ''ab''], Some [''ba'', ''bb'']]\<rparr>"

lemma demo_config_cut:
  "1 < cf_n demo_config" "endname_at demo_config 0 1 = Some ''ab''"
  "processReq demo_dice ''ab'' (cf_net demo_config) [(cf_net demo_config, Some \<lparr>rp_ok = True, rp_reply = ''yes''\<rparr>)]
     (cf_net (disconnect 0 demo_config)) = Some \<lparr>an_reply = no_reply, an_delay = 0, an_bytes = 0\<rparr>"
  by code_simp+


section \<open>What a restarted peer finds\<close>

lemma crash1_saved:
  "i < length (cf_saved cfg) \<Longrightarrow> cf_saved (crash1 i cfg) ! i = saved_now cfg i"
  by (cases "saved_now cfg i") (simp_all add: crash1_def disconnect_def Let_def persister_Copy_def persister_Save_def MakePersister_def)

text \<open>The tester cannot start a peer: \<open>start1\<close> writes the end names into a nil slice.\<close>
lemma start1_panics: "0 < cf_n cfg \<Longrightarrow> start1 env i cfg = Panics"
  by (simp add: start1_def Let_def crash1_def disconnect_def upt_conv_Cons)

text \<open>The tester of the Raft library cannot be set up: \<open>make_config\<close> panics for every positive number
  of peers, and succeeds only for the empty cluster.\<close>
theorem harness_cannot_start:
  "make_config env n unreliable = (if n = 0 then Value (empty_config 0 unreliable) else Panics)"
  by (cases n) (simp_all add: make_config_def upt_conv_Cons start1_panics empty_config_def del: upt_Suc)

section \<open>The copies of the applied entries agree\<close>

fun applied_all :: "(nat \<times> 'c raft_msg) list \<Rightarrow> 'c config \<Rightarrow> 'c config run" where
  "applied_all [] cfg = Value cfg"
| "applied_all ((i, m) # ms) cfg =
     (case applier_msg i m cfg of Value cfg' \<Rightarrow> applied_all ms cfg' | Fatal e \<Rightarrow> Fatal e | Panics \<Rightarrow> Panics)"

definition logs_agree :: "'c config \<Rightarrow> bool" where
  "logs_agree cfg \<longleftrightarrow>
     (\<forall>i<length (cf_logs cfg). \<forall>j<length (cf_logs cfg). \<forall>index v w.
        log_at cfg i index = Some v \<longrightarrow> log_at cfg j index = Some w \<longrightarrow> v = w)"

definition logs_dense :: "'c config \<Rightarrow> bool" where
  "logs_dense cfg \<longleftrightarrow>
     (\<forall>i<length (cf_logs cfg). \<forall>index>1. log_at cfg i index \<noteq> None \<longrightarrow> log_at cfg i (index - 1) \<noteq> None)"

lemma differs_fold:
  "fold (\<lambda>j acc. case f j of None \<Rightarrow> acc | Some old \<Rightarrow> if old \<noteq> v then Some (g j) else acc) js acc = None \<longleftrightarrow>
     acc = None \<and> (\<forall>j\<in>set js. \<forall>old. f j = Some old \<longrightarrow> old = v)"
  by (induction js arbitrary: acc) (auto split: option.splits)

lemma applier_msg_Value:
  assumes "applier_msg i m cfg = Value cfg'" "rm_CommandValid m"
  shows "cf_logs cfg' = (cf_logs cfg)[i := AList.update (rm_CommandIndex m) (rm_Command m) (cf_logs cfg ! i)]
     \<and> (\<forall>j<length (cf_logs cfg). \<forall>old. log_at cfg j (rm_CommandIndex m) = Some old \<longrightarrow> old = rm_Command m)
     \<and> (rm_CommandIndex m > 1 \<longrightarrow> log_at cfg i (rm_CommandIndex m - 1) \<noteq> None)"
  using assms
  by (auto simp: applier_msg_def checkLogs_def Let_def differs_fold split: if_splits)

lemma log_at_update:
  assumes "cf_logs cfg' = (cf_logs cfg)[i := AList.update index v (cf_logs cfg ! i)]" "i < length (cf_logs cfg)"
  shows "log_at cfg' j k = (if j = i \<and> k = index then Some v else log_at cfg j k)"
  using assms by (auto simp: log_at_def nth_list_update map_of_gomap_update)

lemma applier_msg_invariant:
  assumes "applier_msg i m cfg = Value cfg'" "i < length (cf_logs cfg)" "logs_agree cfg" "logs_dense cfg"
  shows "logs_agree cfg' \<and> logs_dense cfg' \<and> length (cf_logs cfg') = length (cf_logs cfg)"
proof (cases "rm_CommandValid m")
  case True
  note facts = applier_msg_Value [OF assms(1) True]
  have upd: "log_at cfg' j k = (if j = i \<and> k = rm_CommandIndex m then Some (rm_Command m) else log_at cfg j k)" for j k
    using log_at_update facts assms(2) by blast
  have len: "length (cf_logs cfg') = length (cf_logs cfg)" using facts by simp
  have "logs_agree cfg'"
    using assms(3) facts unfolding logs_agree_def len upd by (auto split: if_splits)
  moreover have "logs_dense cfg'"
    using assms(4) facts unfolding logs_dense_def len upd by (auto split: if_splits)
  ultimately show ?thesis using len by simp
next
  case False
  then show ?thesis using assms by (simp add: applier_msg_def)
qed

lemma applied_all_invariant:
  assumes "applied_all ms cfg = Value cfg'" "list_all (\<lambda>(i, m). i < length (cf_logs cfg)) ms"
    "logs_agree cfg" "logs_dense cfg"
  shows "logs_agree cfg' \<and> logs_dense cfg' \<and> length (cf_logs cfg') = length (cf_logs cfg)"
  using assms
proof (induction ms arbitrary: cfg)
  case (Cons im ms)
  obtain i m where im: "im = (i, m)" by (cases im)
  obtain cfg1 where step: "applier_msg i m cfg = Value cfg1" and rest: "applied_all ms cfg1 = Value cfg'"
    using Cons.prems(1) by (auto simp: im split: run.splits)
  note inv = applier_msg_invariant [OF step _ Cons.prems(3,4)]
  show ?case using Cons.IH [OF rest] inv Cons.prems(2) by (simp add: im)
qed simp

lemma empty_config_logs [simp]:
  "length (cf_logs (empty_config n u)) = n" "logs_agree (empty_config n u)" "logs_dense (empty_config n u)"
  by (simp_all add: empty_config_def logs_agree_def logs_dense_def log_at_def)

text \<open>C37: The copies are checked soundly: when the readers of the apply channels have taken any
  interleaving of messages without ending the test, any two peers have the same command at every index
  both have applied, and no peer has a gap in its indices above 0.\<close>
theorem harness_logs_agree:
  assumes "applied_all ms (empty_config n unreliable) = Value cfg" "list_all (\<lambda>(i, m). i < n) ms"
  shows "logs_agree cfg \<and> logs_dense cfg"
  using applied_all_invariant [OF assms(1)] assms(2) by simp

definition demo_msg :: "nat \<Rightarrow> int \<Rightarrow> nat raft_msg" where
  "demo_msg c index = \<lparr>rm_CommandValid = True, rm_Command = Some c, rm_CommandIndex = index, rm_SnapshotValid = False,
     rm_Snapshot = [], rm_SnapshotTerm = 0, rm_SnapshotIndex = 0\<rparr>"

lemma demo_applied:
  "applied_all [(0, demo_msg 5 0), (1, demo_msg 5 0), (0, demo_msg 6 1), (0, demo_msg 7 2)] (empty_config 2 True)
     = Value ((empty_config 2 True)\<lparr>cf_logs := [[(0, Some 5), (1, Some 6), (2, Some 7)], [(0, Some 5)]], cf_maxIndex := 2\<rparr>)"
  by code_simp

theorem harness_logs_agree_witness:
  "logs_agree ((empty_config 2 True :: nat config)
     \<lparr>cf_logs := [[(0, Some 5), (1, Some 6), (2, Some 7)], [(0, Some 5)]], cf_maxIndex := 2\<rparr>)"
  using harness_logs_agree [OF demo_applied] by simp

lemma nCommitted_loop_agree:
  assumes "\<forall>i\<in>set js. cf_applyErr cfg ! i = []"
    "\<forall>i\<in>set js. \<forall>w. log_at cfg i index = Some w \<longrightarrow> w = v" "0 \<le> cnt" "0 < cnt \<longrightarrow> cmd = v"
  shows "\<exists>cmd'. nCommitted_loop cfg index js cnt cmd
           = Value (cnt + int (length (filter (\<lambda>i. log_at cfg i index \<noteq> None) js)), cmd')
         \<and> (cmd' = v \<or> cmd' = cmd)"
  using assms
proof (induction js arbitrary: cnt cmd)
  case (Cons i js)
  show ?case
    using Cons.IH [of "cnt + 1" v] Cons.IH [of cnt cmd] Cons.prems by (cases "log_at cfg i index") (auto simp: algebra_simps)
qed simp

text \<open>On copies the readers have accepted, \<open>nCommitted\<close> never ends the test: it counts the peers that have
  applied the index.\<close>
lemma nCommitted_counts:
  assumes "logs_agree cfg" "length (cf_logs cfg) = length (cf_rafts cfg)" "\<forall>i<length (cf_rafts cfg). cf_applyErr cfg ! i = []"
  shows "\<exists>cmd. nCommitted index cfg
     = Value (int (card {i. i < length (cf_rafts cfg) \<and> log_at cfg i index \<noteq> None}), cmd)"
proof -
  obtain v where v: "\<forall>i<length (cf_rafts cfg). \<forall>w. log_at cfg i index = Some w \<longrightarrow> w = v"
    using assms(1,2) unfolding logs_agree_def by metis
  have "card {i. i < length (cf_rafts cfg) \<and> log_at cfg i index \<noteq> None}
      = length (filter (\<lambda>i. log_at cfg i index \<noteq> None) [0..<length (cf_rafts cfg)])"
    by (simp add: distinct_length_filter Int_def conj_commute)
  then show ?thesis
    using nCommitted_loop_agree [of "[0..<length (cf_rafts cfg)]" cfg index v 0 None] assms(3) v
    by (auto simp: nCommitted_def)
qed

section \<open>The one leader\<close>

definition leads :: "'c config \<Rightarrow> nat \<Rightarrow> int \<Rightarrow> bool" where
  "leads cfg i tm \<longleftrightarrow> cf_connected cfg ! i \<and> (case cf_rafts cfg ! i of None \<Rightarrow> False | Some rf \<Rightarrow> GetState rf = (tm, True))"

lemma leaders_of_get:
  "leaders_of cfg js acc = Some leaders \<Longrightarrow>
   gomap_get [] leaders tm = gomap_get [] acc tm @ filter (\<lambda>i. leads cfg i tm) js"
  by (induction cfg js acc rule: leaders_of.induct)
    (auto simp: leads_def gomap_get_update split: if_splits option.splits prod.splits)

lemma fold_max_start: "(z :: int) \<le> fold (\<lambda>(tm, is). max tm) xs z"
proof (induction xs arbitrary: z)
  case (Cons x xs)
  show ?case using Cons.IH [of "max (fst x) z"] by (simp add: case_prod_beta)
qed simp

lemma fold_max_ge: "(tm :: int, is) \<in> set xs \<Longrightarrow> tm \<le> fold (\<lambda>(tm, is). max tm) xs z"
proof (induction xs arbitrary: z)
  case (Cons x xs)
  show ?case using Cons.IH Cons.prems fold_max_start [of "max tm z" xs] by auto
qed simp

lemma get_in_set: "gomap_get [] m k \<noteq> [] \<Longrightarrow> (k, gomap_get [] m k) \<in> set m"
  by (auto simp: gomap_get_def split: option.splits dest: map_of_SomeD)

lemma checkOneLeader_round_sound:
  assumes "checkOneLeader_round cfg = Value (Some i)"
  shows "\<exists>tm. i < cf_n cfg \<and> leads cfg i tm \<and> (\<forall>j<cf_n cfg. \<forall>t. leads cfg j t \<longrightarrow> t < tm \<or> t = tm \<and> j = i)"
proof -
  obtain leaders rest where L: "leaders_of cfg [0..<cf_n cfg] [] = Some leaders"
      and few: "\<forall>x \<in> set leaders. length (snd x) \<le> 1"
      and found: "gomap_get [] leaders (fold (\<lambda>(tm, is). max tm) leaders (- 1)) = i # rest"
    using assms by (auto simp: checkOneLeader_round_def Let_def list_ex_iff not_less case_prod_beta
        split: option.splits if_splits list.splits)
  define top where "top = fold (\<lambda>(tm, is). max tm) leaders (- 1)"
  have get: "gomap_get [] leaders tm = filter (\<lambda>i. leads cfg i tm) [0..<cf_n cfg]" for tm
    using leaders_of_get [OF L] by (simp add: gomap_get_def)
  have only: "filter (\<lambda>i. leads cfg i top) [0..<cf_n cfg] = [i]"
  proof -
    have top: "gomap_get [] leaders top = i # rest" using found by (simp add: top_def)
    then have "length (i # rest) \<le> 1" using bspec [OF few get_in_set [of leaders top]] by simp
    then show ?thesis using top get [of top] by simp
  qed
  have "t < top \<or> t = top \<and> j = i" if "j < cf_n cfg" "leads cfg j t" for j t
  proof -
    have "j \<in> set (gomap_get [] leaders t)" using that by (simp add: get)
    then have "gomap_get [] leaders t \<noteq> []" by auto
    then have "t \<le> top" unfolding top_def by (rule fold_max_ge [OF get_in_set])
    moreover have "j = i" if "t = top"
      using \<open>j \<in> _\<close> that by (simp only: get only) simp
    ultimately show ?thesis by linarith
  qed
  moreover have "i \<in> set (filter (\<lambda>i. leads cfg i top) [0..<cf_n cfg])" by (simp only: only) simp
  ultimately show ?thesis by auto
qed

lemma checkOneLeader_loop_round:
  "checkOneLeader_loop env ks = Value i \<Longrightarrow> \<exists>k\<in>set ks. checkOneLeader_round (env k) = Value (Some i)"
  by (induction env ks rule: checkOneLeader_loop.induct) (auto split: run.splits option.splits)

text \<open>A leader that \<open>checkOneLeader\<close> reports was, in one of the ten rounds, a connected peer that
  believed to lead, and every other connected peer that believed so was in a smaller term.\<close>
theorem harness_one_leader:
  assumes "checkOneLeader env = Value i"
  shows "\<exists>k<10. \<exists>tm. i < cf_n (env k) \<and> leads (env k) i tm
     \<and> (\<forall>j<cf_n (env k). \<forall>t. leads (env k) j t \<longrightarrow> t < tm \<or> t = tm \<and> j = i)"
  using checkOneLeader_loop_round [OF assms [unfolded checkOneLeader_def]] checkOneLeader_round_sound by fastforce

definition demo_term :: "int \<Rightarrow> role \<Rightarrow> nat raft option" where
  "demo_term tm st =
     map_option (\<lambda>rf. rf\<lparr>rf_CurrentTerm := tm, rf_State := st\<rparr>)
       (Make (\<lambda>_. True) (0, 0) [''a'', ''b'', ''c''] 0 MakePersister)"

definition demo_cluster :: "nat config" where
  "demo_cluster = (empty_config 3 False)\<lparr>cf_connected := [True, True, True],
     cf_rafts := [demo_term 3 Leader, demo_term 4 Leader, demo_term 4 Follower]\<rparr>"

lemma demo_cluster_leader: "checkOneLeader (\<lambda>_. demo_cluster) = Value 1"
  by code_simp

theorem harness_one_leader_witness: "\<exists>tm. leads demo_cluster 1 tm"
  using harness_one_leader [OF demo_cluster_leader] by auto

section \<open>Agreement\<close>

definition committed_by :: "'c config \<Rightarrow> int \<Rightarrow> 'c \<Rightarrow> nat set" where
  "committed_by cfg index cmd = {i. i < length (cf_rafts cfg) \<and> log_at cfg i index = Some (Some cmd)}"

lemma nCommitted_loop_Value:
  assumes "nCommitted_loop cfg index js cnt cmd = Value (nd, cmd')" "0 \<le> cnt"
  shows "nd = cnt + int (length (filter (\<lambda>i. log_at cfg i index \<noteq> None) js))
     \<and> (\<forall>i\<in>set js. \<forall>w. log_at cfg i index = Some w \<longrightarrow> w = cmd') \<and> (0 < cnt \<longrightarrow> cmd' = cmd)"
  using assms
proof (induction js arbitrary: cnt cmd)
  case (Cons i js)
  show ?case
    using Cons.IH [of "cnt + 1" "the (log_at cfg i index)"] Cons.IH [of cnt cmd] Cons.prems
    by (cases "log_at cfg i index") (auto split: if_splits)
qed simp

lemma nCommitted_Value:
  assumes "nCommitted index cfg = Value (nd, Some cmd)"
  shows "nd = int (card (committed_by cfg index cmd))"
proof -
  note facts = nCommitted_loop_Value [OF assms [unfolded nCommitted_def]]
  have "committed_by cfg index cmd = set (filter (\<lambda>i. log_at cfg i index \<noteq> None) [0..<length (cf_rafts cfg)])"
    using facts by (auto simp: committed_by_def)
  then have "card (committed_by cfg index cmd) = length (filter (\<lambda>i. log_at cfg i index \<noteq> None) [0..<length (cf_rafts cfg)])"
    by (simp only: distinct_card distinct_filter distinct_upt)
  then show ?thesis using facts by simp
qed

lemma one_poll_True:
  "one_poll cmd expectedServers index polls = Value True \<Longrightarrow>
   \<exists>cfg\<in>set polls. 0 < card (committed_by cfg index cmd) \<and> expectedServers \<le> int (card (committed_by cfg index cmd))"
proof (induction polls)
  case (Cons cfg later)
  then show ?case
    by (cases "nCommitted index cfg" rule: run.exhaust) (auto split: if_splits dest!: nCommitted_Value)
qed simp

text \<open>C38: The index that \<open>one\<close> returns is agreed on: at some poll at least the expected number of peers, and at
  least one, had applied exactly the submitted command at that index. In any other case the test has
  been ended or is finished.\<close>
theorem harness_one_agrees:
  assumes "one cmd expectedServers retry finished starts rounds = Value index"
  shows "index = - 1 \<and> finished \<or>
     (\<exists>(cfg0, polls)\<in>set rounds. \<exists>cfg\<in>set polls.
        0 < card (committed_by cfg index cmd) \<and> expectedServers \<le> int (card (committed_by cfg index cmd)))"
  using assms
proof (induction cmd expectedServers retry finished starts rounds rule: one.induct)
  case (2 cmd expectedServers retry finished starts cfg polls rounds)
  obtain cfg' starts' k where start: "one_start cmd (cf_n cfg) starts cfg = Some (cfg', starts', k)"
    using 2(3) by (auto split: option.splits)
  show ?case
  proof (cases "k \<noteq> - 1 \<and> one_poll cmd expectedServers k polls = Value True")
    case True
    then show ?thesis using 2(3) start one_poll_True [of cmd expectedServers k polls] by auto
  next
    case False
    then have "one cmd expectedServers retry finished starts' rounds = Value index"
      using 2(3) start by (auto split: run.splits if_splits bool.splits)
    then show ?thesis using 2(1,2) start False 2(3) by (auto split: run.splits if_splits bool.splits)
  qed
qed (auto split: if_splits)

definition demo_single :: "nat config" where
  "demo_single = (empty_config 1 False)\<lparr>cf_connected := [True], cf_rafts := [demo_term 3 Leader]\<rparr>"

definition demo_polled :: "nat config" where
  "demo_polled = demo_single\<lparr>cf_logs := [[(0, Some 9)]]\<rparr>"

lemma demo_one: "one 9 1 False False 0 [(demo_single, [demo_single, demo_polled])] = Value 0"
  by code_simp

theorem harness_one_agrees_witness:
  "\<exists>cfg\<in>{demo_single, demo_polled}. 0 < card (committed_by cfg 0 9)"
  using harness_one_agrees [OF demo_one] by auto

end
