(* ===== verification/Lab_Gob.thy ===== *)
theory Lab_Gob
  imports Raft_Log
begin

text \<open>
  The checks that \<open>labgob/labgob.go\<close> adds to \<open>encoding/gob\<close>: a warning for every struct field
  that starts with a lower-case letter, and one for a value that is decoded into a variable which
  is not zero. A Go type is a number into a table that gives its kind, so that types may refer to
  each other in cycles; \<open>upper\<close> says whether a field name starts with an upper-case letter. The
  variables of the package are the state.
\<close>

section \<open>Types and state\<close>

record field =
  fd_Name :: string
  fd_Type :: nat

datatype kind =
    KStruct string "field list"
  | KElem nat        \<comment> \<open>a slice, an array or a pointer\<close>
  | KMap nat nat     \<comment> \<open>the element and the key\<close>
  | KOther

datatype report = LowerCase string string | NonDefault string

record gob_state =
  gs_checked :: "nat list"
  gs_errorCount :: int
  gs_printed :: "report list"

definition gob_init :: gob_state where
  "gob_init = \<lparr>gs_checked = [], gs_errorCount = 0, gs_printed = []\<rparr>"

definition kind_of :: "kind list \<Rightarrow> nat \<Rightarrow> kind" where
  "kind_of types t = (if t < length types then types ! t else KOther)"

section \<open>\<open>checkType\<close>\<close>

datatype check = Visit nat | Complain string string

definition steps_of :: "(string \<Rightarrow> bool) \<Rightarrow> kind \<Rightarrow> check list" where
  \<comment> \<open>the \<open>switch\<close>: what is reported and which calls are made, in order\<close>
  "steps_of upper k =
     (case k of
        KStruct name fds \<Rightarrow>
          concat (map (\<lambda>f. (if \<not> upper (fd_Name f) then [Complain (fd_Name f) name] else []) @ [Visit (fd_Type f)]) fds)
      | KElem e \<Rightarrow> [Visit e]
      | KMap e k \<Rightarrow> [Visit e, Visit k]
      | KOther \<Rightarrow> [])"

definition complain :: "string \<Rightarrow> string \<Rightarrow> gob_state \<Rightarrow> gob_state" where
  "complain f name st =
     st\<lparr>gs_printed := gs_printed st @ [LowerCase f name], gs_errorCount := gs_errorCount st + 1\<rparr>"

function checkTypes :: "(string \<Rightarrow> bool) \<Rightarrow> kind list \<Rightarrow> check list \<Rightarrow> gob_state \<Rightarrow> gob_state" where
  \<comment> \<open>the list holds the reports and the calls of \<open>checkType\<close> that are still to come, in the order
    in which the recursion gets to them\<close>
  "checkTypes upper types [] st = st"
| "checkTypes upper types (Complain f name # cs) st = checkTypes upper types cs (complain f name st)"
| "checkTypes upper types (Visit t # cs) st =
     (if t \<in> set (gs_checked st) then checkTypes upper types cs st
      else checkTypes upper types (steps_of upper (kind_of types t) @ cs)
             (st\<lparr>gs_checked := t # gs_checked st\<rparr>))"
  by pat_completeness auto

text \<open>
  The recursion ends although types may be cyclic: a type outside the table has no parts, and
  every type of the table is expanded once.
\<close>

termination checkTypes
proof (relation "inv_image (finite_psubset <*lex*> less_than)
    (\<lambda>(upper, types, cs, st). ({t. t < length types} - set (gs_checked st), length cs))")
  fix upper :: "string \<Rightarrow> bool" and types t cs st
  assume "t \<notin> set (gs_checked st)"
  then show "((upper, types, steps_of upper (kind_of types t) @ cs, st\<lparr>gs_checked := t # gs_checked st\<rparr>),
      (upper, types, Visit t # cs, st)) \<in> inv_image (finite_psubset <*lex*> less_than)
        (\<lambda>(upper, types, cs, st). ({t. t < length types} - set (gs_checked st), length cs))"
    by (cases "t < length types") (auto simp: finite_psubset_def kind_of_def steps_of_def)
qed (auto simp: complain_def)

definition checkValue :: "(string \<Rightarrow> bool) \<Rightarrow> kind list \<Rightarrow> nat \<Rightarrow> gob_state \<Rightarrow> gob_state" where
  \<comment> \<open>\<open>checkType(reflect.TypeOf(value))\<close>\<close>
  "checkValue upper types t st = checkTypes upper types [Visit t] st"

section \<open>\<open>checkDefault\<close>\<close>

datatype gvalue =
    GStruct string "(string \<times> gvalue) list"
  | GPtr "gvalue option"
  | GBasic string bool    \<comment> \<open>the name of the type, whether the value is zero\<close>
  | GOther

definition warn :: "string \<Rightarrow> string \<Rightarrow> gob_state \<Rightarrow> gob_state" where
  "warn name tname st =
     (let st1 = (if gs_errorCount st < 1
                 then st\<lparr>gs_printed := gs_printed st @ [NonDefault (if name = [] then tname else name)]\<rparr> else st)
      in st1\<lparr>gs_errorCount := gs_errorCount st1 + 1\<rparr>)"

fun checkDefault1 :: "gvalue \<Rightarrow> int \<Rightarrow> string \<Rightarrow> gob_state \<Rightarrow> gob_state"
  and checkDefaults :: "(string \<times> gvalue) list \<Rightarrow> int \<Rightarrow> string \<Rightarrow> gob_state \<Rightarrow> gob_state" where
  "checkDefault1 (GStruct tname fds) depth name st =
     (if depth > 3 then st else checkDefaults fds depth name st)"
| "checkDefault1 (GPtr None) depth name st = st"
| "checkDefault1 (GPtr (Some v)) depth name st =
     (if depth > 3 then st else checkDefault1 v (depth + 1) name st)"
| "checkDefault1 (GBasic tname zero) depth name st =
     (if depth > 3 \<or> zero then st else warn name tname st)"
| "checkDefault1 GOther depth name st = st"
| "checkDefaults [] depth name st = st"
| "checkDefaults ((f, v) # fds) depth name st =
     checkDefaults fds depth name
       (checkDefault1 v (depth + 1) (if name \<noteq> [] then name @ ''.'' @ f else f) st)"

definition checkDefault :: "gvalue \<Rightarrow> gob_state \<Rightarrow> gob_state" where
  "checkDefault v st = checkDefault1 v 1 [] st"

section \<open>Encoder and decoder\<close>

text \<open>
  \<open>Encode\<close>, \<open>EncodeValue\<close> and \<open>Register\<close> check the type and then call gob; \<open>Decode\<close> also checks
  that the destination is zero. What gob does is the argument.
\<close>

definition Encode :: "(string \<Rightarrow> bool) \<Rightarrow> kind list \<Rightarrow> nat \<Rightarrow> 'a \<Rightarrow> gob_state \<Rightarrow> gob_state \<times> 'a" where
  "Encode upper types t gob st = (let st1 = checkValue upper types t st in (st1, gob))"

definition Decode ::
  "(string \<Rightarrow> bool) \<Rightarrow> kind list \<Rightarrow> nat \<Rightarrow> gvalue \<Rightarrow> 'a \<Rightarrow> gob_state \<Rightarrow> gob_state \<times> 'a" where
  "Decode upper types t dest gob st =
     (let st1 = checkDefault dest (checkValue upper types t st) in (st1, gob))"

section \<open>What \<open>checkType\<close> reports\<close>

definition type_refs :: "kind \<Rightarrow> nat set" where
  "type_refs k =
     (case k of
        KStruct name fds \<Rightarrow> fd_Type ` set fds
      | KElem e \<Rightarrow> {e}
      | KMap e k \<Rightarrow> {e, k}
      | KOther \<Rightarrow> {})"

definition lower_fields :: "(string \<Rightarrow> bool) \<Rightarrow> kind \<Rightarrow> report list" where
  "lower_fields upper k =
     (case k of
        KStruct name fds \<Rightarrow> map (\<lambda>f. LowerCase (fd_Name f) name) (filter (\<lambda>f. \<not> upper (fd_Name f)) fds)
      | _ \<Rightarrow> [])"

definition refers :: "kind list \<Rightarrow> (nat \<times> nat) set" where
  "refers types = {(t, t'). t' \<in> type_refs (kind_of types t)}"

definition visits :: "check list \<Rightarrow> nat set" where
  "visits cs = {t. Visit t \<in> set cs}"

fun complaints :: "check list \<Rightarrow> report list" where
  "complaints [] = []"
| "complaints (Complain f name # cs) = LowerCase f name # complaints cs"
| "complaints (Visit t # cs) = complaints cs"

lemma visits_simps [simp]:
  "visits [] = {}" "visits (Visit t # cs) = insert t (visits cs)" "visits (Complain f name # cs) = visits cs"
  "visits (cs @ ds) = visits cs \<union> visits ds"
  by (auto simp: visits_def)

lemma complaints_append [simp]: "complaints (cs @ ds) = complaints cs @ complaints ds"
  by (induction cs rule: complaints.induct) simp_all

lemma visits_steps [simp]: "visits (steps_of upper k) = type_refs k"
  by (auto simp: steps_of_def type_refs_def visits_def split: kind.splits)

lemma complaints_struct:
  "complaints (concat (map (\<lambda>f. (if \<not> upper (fd_Name f) then [Complain (fd_Name f) name] else []) @ [Visit (fd_Type f)]) fds)) =
     map (\<lambda>f. LowerCase (fd_Name f) name) (filter (\<lambda>f. \<not> upper (fd_Name f)) fds)"
  by (induction fds) simp_all

lemma complaints_steps [simp]: "complaints (steps_of upper k) = lower_fields upper k"
  unfolding steps_of_def lower_fields_def
  by (cases k) (simp_all only: kind.case complaints_struct complaints.simps)

lemma complain_checked [simp]: "gs_checked (complain f name st) = gs_checked st"
  by (simp add: complain_def)

lemma checkTypes_covers:
  "set (gs_checked st) \<union> visits cs \<subseteq> set (gs_checked (checkTypes upper types cs st))"
  by (induction upper types cs st rule: checkTypes.induct) auto

lemma checkTypes_reachable:
  "set (gs_checked (checkTypes upper types cs st)) \<subseteq> set (gs_checked st) \<union> (refers types)\<^sup>* `` visits cs"
proof (induction upper types cs st rule: checkTypes.induct)
  case (3 upper types t cs st)
  let ?R = "(refers types)\<^sup>*"
  have sub: "?R `` type_refs (kind_of types t) \<subseteq> ?R `` {t}" "t \<in> ?R `` {t}"
    by (auto simp: refers_def intro: converse_rtrancl_into_rtrancl)
  have un: "?R `` insert t V = ?R `` {t} \<union> ?R `` V" "?R `` (U \<union> V) = ?R `` U \<union> ?R `` V" for U V by auto
  show ?case
  proof (cases "t \<in> set (gs_checked st)")
    case True
    then show ?thesis using 3(1) un(1)[of "visits cs"] by (simp add: le_supI1 le_supI2 sup.coboundedI2) blast
  next
    case False
    then show ?thesis
      using 3(2) sub un(1)[of "visits cs"] un(2)[of "type_refs (kind_of types t)" "visits cs"] by simp blast
  qed
qed auto

lemma checkTypes_closed:
  "refers types `` set (gs_checked st) \<subseteq> set (gs_checked st) \<union> visits cs \<Longrightarrow>
   refers types `` set (gs_checked (checkTypes upper types cs st)) \<subseteq> set (gs_checked (checkTypes upper types cs st))"
proof (induction upper types cs st rule: checkTypes.induct)
  case (3 upper types t cs st)
  show ?case
  proof (cases "t \<in> set (gs_checked st)")
    case True
    then show ?thesis using 3 by auto
  next
    case False
    have "refers types `` {t} = type_refs (kind_of types t)" by (auto simp: refers_def)
    then show ?thesis using 3(2)[OF False] 3(3) False by auto
  qed
qed auto

lemma checkTypes_printed:
  assumes "distinct (gs_checked st)"
  shows "distinct (gs_checked (checkTypes upper types cs st)) \<and>
    mset (gs_printed (checkTypes upper types cs st)) = mset (gs_printed st) + mset (complaints cs) +
      (\<Sum>t \<in> set (gs_checked (checkTypes upper types cs st)) - set (gs_checked st). mset (lower_fields upper (kind_of types t))) \<and>
    gs_errorCount (checkTypes upper types cs st) - gs_errorCount st =
      int (length (gs_printed (checkTypes upper types cs st))) - int (length (gs_printed st))"
  using assms
proof (induction upper types cs st rule: checkTypes.induct)
  case (1 upper types st)
  then show ?case by simp
next
  case (2 upper types f name cs st)
  define r where "r = checkTypes upper types cs (complain f name st)"
  have r: "checkTypes upper types (Complain f name # cs) st = r" by (simp add: r_def)
  have "distinct (gs_checked (complain f name st))" using 2(2) by simp
  from 2(1)[OF this, folded r_def]
  have ih: "distinct (gs_checked r)"
    "mset (gs_printed r) = mset (gs_printed st) + {#LowerCase f name#} + mset (complaints cs) +
       (\<Sum>t \<in> set (gs_checked r) - set (gs_checked st). mset (lower_fields upper (kind_of types t)))"
    "gs_errorCount r - gs_errorCount st = int (length (gs_printed r)) - int (length (gs_printed st))"
    by (simp_all add: complain_def)
  then show ?case unfolding r by simp
next
  case (3 upper types t cs st)
  show ?case
  proof (cases "t \<in> set (gs_checked st)")
    case True
    then show ?thesis using 3(1)[OF True 3(3)] by simp
  next
    case False
    let ?w = "\<lambda>t. mset (lower_fields upper (kind_of types t))"
    define st1 where "st1 = st\<lparr>gs_checked := t # gs_checked st\<rparr>"
    define r where "r = checkTypes upper types (steps_of upper (kind_of types t) @ cs) st1"
    have r: "checkTypes upper types (Visit t # cs) st = r" using False by (simp add: r_def st1_def)
    have st1: "set (gs_checked st1) = insert t (set (gs_checked st))" "gs_printed st1 = gs_printed st"
      "gs_errorCount st1 = gs_errorCount st" "distinct (gs_checked st1)" using 3(3) False by (simp_all add: st1_def)
    note ih = 3(2)[OF False, folded st1_def, OF st1(4), folded r_def]
    have mset: "mset (gs_printed r) = mset (gs_printed st) + (?w t + mset (complaints cs)) +
         (\<Sum>t \<in> set (gs_checked r) - set (gs_checked st1). ?w t)"
      using ih[THEN conjunct2, THEN conjunct1] st1(2) by simp
    have rest: "distinct (gs_checked r)"
      "gs_errorCount r - gs_errorCount st = int (length (gs_printed r)) - int (length (gs_printed st))"
      using ih[THEN conjunct1] ih[THEN conjunct2, THEN conjunct2] st1(2,3) by simp_all
    have "t \<in> set (gs_checked r)" using checkTypes_covers[of st1] st1(1) by (auto simp: r_def)
    then have new: "set (gs_checked r) - set (gs_checked st) = insert t (set (gs_checked r) - set (gs_checked st1))"
      using False st1(1) by auto
    have "(\<Sum>t \<in> set (gs_checked r) - set (gs_checked st). ?w t) =
        ?w t + (\<Sum>t \<in> set (gs_checked r) - set (gs_checked st1). ?w t)"
      unfolding new by (rule sum.insert) (simp_all add: st1(1))
    then show ?thesis unfolding r using mset rest by (simp add: ac_simps)
  qed
qed

lemma checkValue_checked:
  assumes "refers types `` set (gs_checked st) \<subseteq> set (gs_checked st)"
  shows "set (gs_checked (checkValue upper types t st)) = set (gs_checked st) \<union> (refers types)\<^sup>* `` {t}"
    and "refers types `` set (gs_checked (checkValue upper types t st)) \<subseteq> set (gs_checked (checkValue upper types t st))"
proof -
  let ?X = "set (gs_checked (checkValue upper types t st))"
  show c: "refers types `` ?X \<subseteq> ?X"
    unfolding checkValue_def by (rule checkTypes_closed) (use assms in auto)
  have "set (gs_checked st) \<union> {t} \<subseteq> ?X"
    using checkTypes_covers[of st "[Visit t]" upper types] by (simp add: checkValue_def)
  then have "(refers types)\<^sup>* `` {t} \<subseteq> ?X" using Image_closed_trancl[OF c] by blast
  then show "?X = set (gs_checked st) \<union> (refers types)\<^sup>* `` {t}"
    using checkTypes_reachable[of upper types "[Visit t]" st] \<open>set (gs_checked st) \<union> {t} \<subseteq> ?X\<close>
    by (auto simp: checkValue_def)
qed

text \<open>
  C39: The checks of types. However many values of whatever types are encoded and decoded, and however
  these types refer to each other, the calls return; the types marked as checked are exactly
  those reachable from the types seen; every lower-case field of these has been reported exactly
  once; and the error counter is the number of reports.
\<close>

theorem labgob_reports_once:
  "set (gs_checked (fold (checkValue upper types) ts gob_init)) = (refers types)\<^sup>* `` set ts \<and>
   mset (gs_printed (fold (checkValue upper types) ts gob_init)) =
     (\<Sum>t \<in> (refers types)\<^sup>* `` set ts. mset (lower_fields upper (kind_of types t))) \<and>
   gs_errorCount (fold (checkValue upper types) ts gob_init) =
     int (length (gs_printed (fold (checkValue upper types) ts gob_init)))"
proof -
  let ?R = "(refers types)\<^sup>*" and ?w = "\<lambda>t. mset (lower_fields upper (kind_of types t))"
  have "set (gs_checked st) = ?R `` set ts \<and> distinct (gs_checked st) \<and>
      mset (gs_printed st) = (\<Sum>t \<in> set (gs_checked st). ?w t) \<and> gs_errorCount st = int (length (gs_printed st))"
    if "st = fold (checkValue upper types) ts gob_init" for st
    using that
  proof (induction ts arbitrary: st rule: rev_induct)
    case Nil
    then show ?case by (simp add: gob_init_def)
  next
    case (snoc t ts)
    define s where "s = fold (checkValue upper types) ts gob_init"
    have st: "st = checkValue upper types t s" using snoc.prems by (simp add: s_def)
    note ih = snoc.IH[OF s_def]
    have "refers types `` set (gs_checked s) \<subseteq> set (gs_checked s)"
      using ih by (auto intro: rtrancl_into_rtrancl)
    then have c: "set (gs_checked st) = set (gs_checked s) \<union> ?R `` {t}"
      using checkValue_checked(1)[of types s upper t] by (simp add: st)
    note q = checkTypes_printed[OF ih[THEN conjunct2, THEN conjunct1], of upper types "[Visit t]",
      folded checkValue_def, folded st]
    have p: "distinct (gs_checked st)"
      "mset (gs_printed st) = mset (gs_printed s) + (\<Sum>t \<in> set (gs_checked st) - set (gs_checked s). ?w t)"
      "gs_errorCount st - gs_errorCount s = int (length (gs_printed st)) - int (length (gs_printed s))"
      using q by simp_all
    have "(\<Sum>t \<in> set (gs_checked st). ?w t) =
        (\<Sum>t \<in> set (gs_checked st) - set (gs_checked s). ?w t) + (\<Sum>t \<in> set (gs_checked s). ?w t)"
      by (rule sum.subset_diff) (use c in blast, simp)
    also have "\<dots> = mset (gs_printed st)"
      unfolding p(2) ih[THEN conjunct2, THEN conjunct2, THEN conjunct1] by (rule add.commute)
    finally have "mset (gs_printed st) = (\<Sum>t \<in> set (gs_checked st). ?w t)" by (rule sym)
    moreover have "set (gs_checked st) = ?R `` set (ts @ [t])" using c ih by auto
    moreover have "gs_errorCount st = int (length (gs_printed st))" using p(3) ih by linarith
    ultimately show ?case using p(1) by blast
  qed
  note h = this[OF refl]
  show ?thesis using h unfolding h[THEN conjunct1, symmetric] by blast
qed

section \<open>What \<open>checkDefault\<close> misses\<close>

fun non_zero :: "gvalue \<Rightarrow> int \<Rightarrow> string \<Rightarrow> (string \<times> string) list"
  and non_zeros :: "(string \<times> gvalue) list \<Rightarrow> int \<Rightarrow> string \<Rightarrow> (string \<times> string) list" where
  \<comment> \<open>the non-zero basic values that are not nested too deeply, each with its path and type\<close>
  "non_zero (GStruct tname fds) d name = non_zeros fds d name"
| "non_zero (GPtr None) d name = []"
| "non_zero (GPtr (Some v)) d name = non_zero v (d + 1) name"
| "non_zero (GBasic tname zero) d name = (if zero \<or> d > 3 then [] else [(name, tname)])"
| "non_zero GOther d name = []"
| "non_zeros [] d name = []"
| "non_zeros ((f, v) # fds) d name =
     non_zero v (d + 1) (if name \<noteq> [] then name @ ''.'' @ f else f) @ non_zeros fds d name"

lemma non_zero_deep: "d > 3 \<Longrightarrow> non_zero v d name = []" "d > 3 \<Longrightarrow> non_zeros fds d name = []"
  by (induction v d name and fds d name rule: non_zero_non_zeros.induct) auto

lemma checkDefault1_fold:
  "checkDefault1 v d name st = fold (\<lambda>(n, t). warn n t) (non_zero v d name) st"
  "checkDefaults fds d name st = fold (\<lambda>(n, t). warn n t) (non_zeros fds d name) st"
  by (induction v d name st and fds d name st rule: checkDefault1_checkDefaults.induct)
     (auto simp: non_zero_deep)

lemma fold_warn_count: "gs_errorCount (fold (\<lambda>(n, t). warn n t) ws st) = gs_errorCount st + int (length ws)"
  by (induction ws arbitrary: st) (auto simp: warn_def Let_def)

lemma checkDefault_count:
  "gs_errorCount (checkDefault v st) = gs_errorCount st + int (length (non_zero v 1 []))"
  by (simp add: checkDefault_def checkDefault1_fold fold_warn_count)

text \<open>
  The destination of the log in \<open>readPersist\<close> is a pointer to the field \<open>rf.log\<close>, itself a pointer: the
  last index \<open>-1\<close> of the fresh log, which gob leaves in place of a transmitted 0, is nested too
  deeply to be reported.
\<close>

definition log_value :: "'c raft_log \<Rightarrow> gvalue" where
  "log_value lg =
     GStruct ''Log'' [(''Entries'', GOther), (''FirstLogIndex'', GBasic ''int'' (l_FirstLogIndex lg = 0)),
                      (''LastLogIndex'', GBasic ''int'' (l_LastLogIndex lg = 0))]"

lemma decode_log_silent: "checkDefault (GPtr (Some (GPtr (Some (log_value lg))))) st = st"
  by (simp add: checkDefault_def checkDefault1_fold log_value_def)

end
